(* ===== verification/Prelude.thy ===== *)
theory Prelude
  imports Main "HOL-Library.Word"
begin

text \<open>
  Shared vocabulary of the development: names for the machine types of the kernel sources,
  the collections of simplification rules the component theories extend, and the generic
  lemmas on lists, options and words that their proofs use.

  Rust's \<^verbatim>\<open>usize\<close> is 64 bits wide on the only target of the kernel (x86\_64). The kernel is
  built with the workspace's release profile, which sets \<^verbatim>\<open>overflow-checks = false\<close>: integer
  arithmetic wraps around, as \<open>+\<close>, \<open>-\<close> and \<open>*\<close> of \<^verbatim>\<open>'a word\<close> do. Array indices
  and lengths that the code keeps below a constant are \<^typ>\<open>nat\<close>.
  \<^verbatim>\<open>Result<T, &'static str>\<close> is \<^verbatim>\<open>'a res\<close>, with the message on the left.
\<close>

unbundle bit_operations_syntax

type_synonym u8 = "8 word"
type_synonym u16 = "16 word"
type_synonym u32 = "32 word"
type_synonym u64 = "64 word"
type_synonym usize = "64 word"
type_synonym 'a res = "string + 'a"

named_theorems word_bits \<open>how the bits of a word depend on the bits of its parts\<close>
named_theorems bitmap_simps \<open>reading a bitmap after an update\<close>

section \<open>Lists and options\<close>

lemma find_Some_least:
  assumes "List.find P [m..<n] = Some k"
  shows "m \<le> k \<and> k < n \<and> P k \<and> (\<forall>j. m \<le> j \<and> j < k \<longrightarrow> \<not> P j)"
proof -
  from assms obtain i where i: "i < length [m..<n]" "P ([m..<n] ! i)" "k = [m..<n] ! i"
    and before: "\<forall>j<i. \<not> P ([m..<n] ! j)"
    by (auto simp: find_Some_iff)
  then have k: "k = m + i" by simp
  have "\<not> P j" if "m \<le> j" "j < k" for j
    using before [rule_format, of "j - m"] that i k by simp
  with i k show ?thesis by simp
qed

lemma find_None_upt:
  "List.find P [m..<n] = None \<longleftrightarrow> (\<forall>k. m \<le> k \<and> k < n \<longrightarrow> \<not> P k)"
  by (auto simp: find_None_iff)

lemma find_upt_None:
  "(\<And>s. lo \<le> s \<Longrightarrow> s < t \<Longrightarrow> \<not> P s) \<Longrightarrow> List.find P [lo..<t] = None"
  by (simp add: find_None_upt)

lemma find_upt_Some:
  assumes "lo \<le> s" and "s < t" and "P s" and "\<And>s'. lo \<le> s' \<Longrightarrow> s' < s \<Longrightarrow> \<not> P s'"
  shows "List.find P [lo..<t] = Some s"
proof (cases "List.find P [lo..<t]")
  case None
  with assms show ?thesis by (auto simp: find_None_upt)
next
  case (Some s')
  from find_Some_least [OF Some] assms have "s' = s"
    by (metis linorder_neqE_nat)
  with Some show ?thesis by simp
qed

lemma find_append:
  "List.find P (xs @ ys) = (case List.find P xs of None \<Rightarrow> List.find P ys | Some x \<Rightarrow> Some x)"
  by (induction xs) auto

lemma nth_list_update_if:
  "i < length xs \<Longrightarrow> xs[i := v] ! j = (if i = j then v else xs ! j)"
  by simp

text \<open>A loop over a list whose body may fail to return, and its invariant rule.\<close>

fun ofold :: "('a \<Rightarrow> 's \<Rightarrow> 's option) \<Rightarrow> 'a list \<Rightarrow> 's \<Rightarrow> 's option" where
  "ofold f [] s = Some s"
| "ofold f (x # xs) s = Option.bind (f x s) (ofold f xs)"

lemma ofold_inv:
  assumes "\<And>x s. x \<in> set xs \<Longrightarrow> I s \<Longrightarrow> \<exists>s'. f x s = Some s' \<and> I s'" and "I s"
  shows "\<exists>s'. ofold f xs s = Some s' \<and> I s'"
  using assms
proof (induction xs arbitrary: s)
  case (Cons x xs)
  from Cons.prems(1) [of x s] Cons.prems(2) obtain t where "f x s = Some t" "I t" by auto
  with Cons.IH [of t] Cons.prems(1) show ?case by simp
qed simp

text \<open>Sequencing of code that may stop with an error or a panic.\<close>

fun rbind :: "'a res \<Rightarrow> ('a \<Rightarrow> 'b res) \<Rightarrow> 'b res" where
  "rbind (Inl e) f = Inl e"
| "rbind (Inr x) f = f x"

lemma rbind_Inr_iff: "rbind r f = Inr y \<longleftrightarrow> (\<exists>x. r = Inr x \<and> f x = Inr y)"
  by (cases r) auto

fun rfold :: "('a \<Rightarrow> 's \<Rightarrow> 's res) \<Rightarrow> 'a list \<Rightarrow> 's \<Rightarrow> 's res" where
  "rfold f [] s = Inr s"
| "rfold f (x # xs) s = rbind (f x s) (rfold f xs)"

lemma rfold_inv:
  assumes "\<And>x s. x \<in> set xs \<Longrightarrow> I s \<Longrightarrow> \<exists>s'. f x s = Inr s' \<and> I s'" and "I s"
  shows "\<exists>s'. rfold f xs s = Inr s' \<and> I s'"
  using assms
proof (induction xs arbitrary: s)
  case (Cons x xs)
  from Cons.prems(1) [of x s] Cons.prems(2) obtain t where "f x s = Inr t" "I t" by auto
  with Cons.IH [of t] Cons.prems(1) show ?case by simp
qed simp

section \<open>Words\<close>

lemma bit_exp_word [word_bits]:
  "bit ((2 :: 'a::len word) ^ n) m \<longleftrightarrow> m = n \<and> n < LENGTH('a)"
  by (auto simp: bit_simps)

lemma and_exp_eq_0_iff [word_bits]:
  fixes w :: "'a::len word"
  assumes "n < LENGTH('a)"
  shows "w AND 2 ^ n = 0 \<longleftrightarrow> \<not> bit w n"
proof
  assume *: "w AND 2 ^ n = 0"
  show "\<not> bit w n"
  proof
    assume "bit w n"
    then have "bit (w AND 2 ^ n) n"
      using assms by (simp add: bit_and_iff word_bits)
    with * show False by simp
  qed
next
  assume "\<not> bit w n"
  then show "w AND 2 ^ n = 0"
    by (intro bit_word_eqI) (auto simp: bit_and_iff word_bits)
qed

lemma word_neq_minus_1_iff:
  fixes w :: "'a::len word"
  shows "w \<noteq> - 1 \<longleftrightarrow> (\<exists>n<LENGTH('a). \<not> bit w n)"
proof
  assume *: "w \<noteq> - 1"
  show "\<exists>n<LENGTH('a). \<not> bit w n"
  proof (rule ccontr)
    assume "\<not> ?thesis"
    then have "w = - 1" by (intro bit_word_eqI) auto
    with * show False by simp
  qed
next
  assume "\<exists>n<LENGTH('a). \<not> bit w n"
  then show "w \<noteq> - 1" by auto
qed

lemma unat_of_nat_small:
  "n < 2 ^ LENGTH('a) \<Longrightarrow> unat (of_nat n :: 'a::len word) = n"
  by (simp add: unat_of_nat take_bit_nat_eq_self)

lemma unat_less_u64: "unat (w :: u64) < 2 ^ 64"
  using unsigned_less [of w, where 'a = nat] by simp

lemma unat_of_nat_u64: "n < 2 ^ 64 \<Longrightarrow> unat (of_nat n :: u64) = n"
  by (rule unat_of_nat_small) simp

text \<open>Signed and unsigned 32-bit arithmetic on \<^typ>\<open>int\<close> and \<^typ>\<open>nat\<close>, with the wrap-around written out.\<close>

definition i32 :: "int \<Rightarrow> int" where
  "i32 n = sint (word_of_int n :: 32 word)"

definition u32w :: "nat \<Rightarrow> nat" where
  "u32w n = n mod 2 ^ 32"

lemma i32_small: "- (2 ^ 31) \<le> n \<Longrightarrow> n < 2 ^ 31 \<Longrightarrow> i32 n = n"
  by (simp add: i32_def sint_sbintrunc' signed_take_bit_int_eq_self)

lemma u32w_small: "n < 2 ^ 32 \<Longrightarrow> u32w n = n"
  by (simp add: u32w_def)

section \<open>Bitmaps\<close>

text \<open>
  The frame allocator keeps its bitmap in an array of \<^verbatim>\<open>usize\<close>, the filesystem in an array of
  bytes. Both find the bit of number \<open>i\<close> in element \<open>i / BITS\<close> at position
  \<open>i % BITS\<close>; the element type fixes the width.
\<close>

definition bm_test :: "'a::len word list \<Rightarrow> nat \<Rightarrow> bool" where
  "bm_test bm i \<longleftrightarrow> bm ! (i div LENGTH('a)) AND push_bit (i mod LENGTH('a)) 1 \<noteq> 0"

definition bm_set :: "'a::len word list \<Rightarrow> nat \<Rightarrow> 'a word list" where
  "bm_set bm i = (let w = i div LENGTH('a) in
     bm[w := bm ! w OR push_bit (i mod LENGTH('a)) 1])"

definition bm_clear :: "'a::len word list \<Rightarrow> nat \<Rightarrow> 'a word list" where
  "bm_clear bm i = (let w = i div LENGTH('a) in
     bm[w := bm ! w AND NOT (push_bit (i mod LENGTH('a)) 1)])"

lemma length_bm_set [simp]: "length (bm_set bm i) = length bm"
  by (simp add: bm_set_def Let_def)

lemma length_bm_clear [simp]: "length (bm_clear bm i) = length bm"
  by (simp add: bm_clear_def Let_def)

lemma bm_test_bit:
  "bm_test (bm :: 'a::len word list) i \<longleftrightarrow> bit (bm ! (i div LENGTH('a))) (i mod LENGTH('a))"
  by (simp add: bm_test_def word_bits)

lemma bm_index_bound:
  "i < length (bm :: 'a::len word list) * LENGTH('a) \<Longrightarrow> i div LENGTH('a) < length bm"
  by (simp add: less_mult_imp_div_less)

lemma div_mod_eq_iff:
  "(i :: nat) div n = j div n \<and> i mod n = j mod n \<longleftrightarrow> i = j"
  by (metis div_mult_mod_eq)

lemma bm_test_set [bitmap_simps]:
  fixes bm :: "'a::len word list"
  assumes "i < length bm * LENGTH('a)"
  shows "bm_test (bm_set bm i) j \<longleftrightarrow> j = i \<or> bm_test bm j"
  using bm_index_bound [OF assms] div_mod_eq_iff [of i "LENGTH('a)" j]
  by (auto simp: bm_test_bit bm_set_def Let_def nth_list_update_if bit_or_iff word_bits)

lemma bm_test_clear [bitmap_simps]:
  fixes bm :: "'a::len word list"
  assumes "i < length bm * LENGTH('a)"
  shows "bm_test (bm_clear bm i) j \<longleftrightarrow> j \<noteq> i \<and> bm_test bm j"
  using bm_index_bound [OF assms] div_mod_eq_iff [of i "LENGTH('a)" j]
  by (auto simp: bm_test_bit bm_clear_def Let_def nth_list_update_if bit_and_iff bit_not_iff
      word_bits)

lemma bm_test_replicate_ones:
  "i < n * LENGTH('a) \<Longrightarrow> bm_test (replicate n (- 1 :: 'a::len word)) i"
  by (simp add: bm_test_bit less_mult_imp_div_less)

end
