(* ===== verification/Util.thy ===== *)
theory Util
  imports Prelude
begin

text \<open>
  \<^verbatim>\<open>kernel/src/util.rs\<close>: the alignment helpers of the allocators and of the queue layout. The
  port input and output routines of the same file are single machine instructions and are
  not modelled. \<^verbatim>\<open>debug_assert!\<close> is compiled out of the release build, so the functions are
  total: the power-of-two requirement is a hypothesis of the lemmas, not a check.
\<close>

section \<open>Definitions\<close>

definition align_up :: "usize \<Rightarrow> usize \<Rightarrow> usize" where
  "align_up addr align = (addr + align - 1) AND NOT (align - 1)"

definition align_down :: "usize \<Rightarrow> usize \<Rightarrow> usize" where
  "align_down addr align = addr AND NOT (align - 1)"

definition is_aligned :: "usize \<Rightarrow> usize \<Rightarrow> bool" where
  "is_aligned addr align \<longleftrightarrow> addr AND (align - 1) = 0"

section \<open>Alignment as arithmetic\<close>

lemma and_plus_and_not: "(w AND m) + (w AND NOT m) = (w :: 'a::len word)"
proof -
  have "(w AND m) + (w AND NOT m) = (w AND m) OR (w AND NOT m)"
    by (rule disjunctive_add) (auto simp: bit_simps)
  also have "\<dots> = w"
    by (rule bit_word_eqI) (auto simp: bit_simps)
  finally show ?thesis .
qed

lemma and_not_mask_eq_push_drop:
  fixes w :: "'a::len word"
  shows "w AND NOT (mask k) = push_bit k (drop_bit k w)"
  by (intro bit_word_eqI) (auto simp: bit_simps)

lemma unat_and_not_mask:
  fixes w :: "'a::len word"
  shows "unat (w AND NOT (mask k)) = unat w div 2 ^ k * 2 ^ k"
proof -
  have "unat w div 2 ^ k * 2 ^ k < 2 ^ LENGTH('a)"
    by (rule le_less_trans [OF div_times_less_eq_dividend unsigned_less])
  then have "take_bit LENGTH('a) (push_bit k (drop_bit k (unat w))) = unat w div 2 ^ k * 2 ^ k"
    by (simp add: push_bit_eq_mult drop_bit_eq_div take_bit_nat_eq_self)
  then show ?thesis
    by (simp only: and_not_mask_eq_push_drop unsigned_push_bit_eq unat_drop_bit_eq)
qed

lemma unat_and_mask: "unat (w AND mask k) = unat (w :: 'a::len word) mod 2 ^ k"
  by (metis take_bit_eq_mask unsigned_take_bit_eq take_bit_eq_mod)

lemma exp_minus_1_mask: "(2 :: 'a::len word) ^ k - 1 = mask k"
  by (simp add: mask_eq_exp_minus_1)

lemma unat_align_down: "unat (align_down a (2 ^ k)) = unat a div 2 ^ k * 2 ^ k"
  by (simp only: align_down_def exp_minus_1_mask unat_and_not_mask)

lemma unat_exp: "k < LENGTH('a) \<Longrightarrow> unat ((2 :: 'a::len word) ^ k) = 2 ^ k"
  by (metis nat_power_eq_Suc_0_iff of_nat_numeral of_nat_power one_less_numeral_iff
      power_strict_increasing semiring_norm(76) unat_of_nat_small)

text \<open>
  Without wrap-around, \<^const>\<open>align_up\<close> rounds to the next multiple.
\<close>

lemma unat_align_up:
  assumes "k < 64" and "unat a + 2 ^ k - 1 < 2 ^ 64"
  shows "unat (align_up a (2 ^ k)) = (unat a + 2 ^ k - 1) div 2 ^ k * 2 ^ k"
proof -
  have "1 \<le> unat a + 2 ^ k" by (simp add: trans_le_add2)
  then have "a + 2 ^ k - 1 = of_nat (unat a + 2 ^ k - 1)"
    by (subst of_nat_diff) simp_all
  then have "unat (a + 2 ^ k - 1) = unat a + 2 ^ k - 1"
    using assms(2) by (simp only: unat_of_nat_u64)
  then show ?thesis
    by (simp only: align_up_def exp_minus_1_mask unat_and_not_mask)
qed

end
