(* ===== verification/Frame_Allocator.thy ===== *)
theory Frame_Allocator
  imports Util
begin

text \<open>
  \<^verbatim>\<open>kernel/src/memory/frame.rs\<close>: the bitmap allocator of physical page frames.

  The global allocator sits behind a mutex (\<^verbatim>\<open>FRAME_ALLOCATOR.lock()\<close>), so its operations run
  one after the other and each is a function on the record \<open>frame_allocator\<close>. Inside
  \<^verbatim>\<open>allocate\<close> the compare-and-exchange can then fail only spuriously; its loop retries with the
  same word until it succeeds, so the exchange is one update here. \<^verbatim>\<open>addr.as_u64() as usize\<close>
  and the index computations are exact, they are done on \<^typ>\<open>nat\<close>; the counter
  \<^verbatim>\<open>used_frames\<close> can wrap and keeps its width. The memory map comes from the boot loader's
  crate; only the three fields the code reads are kept.
\<close>

section \<open>Definitions\<close>

definition PAGE_SIZE :: nat where
  "PAGE_SIZE = 4096"

definition MAX_FRAMES :: nat where
  "MAX_FRAMES = 1024 * 1024"

definition BITMAP_SIZE :: nat where
  "BITMAP_SIZE = MAX_FRAMES div 8"

text \<open>\<^verbatim>\<open>PhysAddr\<close> wraps a \<^verbatim>\<open>u64\<close>; its constructor clears everything but bits 12 to 51.\<close>

type_synonym phys_addr = u64

definition PhysAddr_new :: "u64 \<Rightarrow> phys_addr" where
  "PhysAddr_new addr = addr AND 0x000FFFFFFFFFF000"

definition to_virt :: "usize \<Rightarrow> phys_addr \<Rightarrow> usize" where
  "to_virt hhdm addr = addr + hhdm"

record frame_allocator =
  bitmap :: "usize list"
  total_frames :: nat
  used_frames :: usize
  start_search :: nat

definition new_frame_allocator :: frame_allocator where
  "new_frame_allocator =
     \<lparr>bitmap = replicate (BITMAP_SIZE div 8) (- 1), total_frames = 0, used_frames = 0,
      start_search = 0\<rparr>"

record mem_entry =
  me_base :: u64
  me_length :: u64
  me_usable :: bool

definition free_frame_initial :: "frame_allocator \<Rightarrow> nat \<Rightarrow> frame_allocator" where
  "free_frame_initial fa frame =
     (if frame \<ge> MAX_FRAMES then fa else fa\<lparr>bitmap := bm_clear (bitmap fa) frame\<rparr>)"

definition allocate_frame_at :: "frame_allocator \<Rightarrow> nat \<Rightarrow> frame_allocator" where
  "allocate_frame_at fa frame =
     (if frame \<ge> MAX_FRAMES then fa
      else let old = bm_test (bitmap fa) frame;
               fa = fa\<lparr>bitmap := bm_set (bitmap fa) frame\<rparr>
           in if \<not> old then fa\<lparr>used_frames := used_frames fa + 1\<rparr> else fa)"

definition deallocate :: "frame_allocator \<Rightarrow> phys_addr \<Rightarrow> frame_allocator" where
  "deallocate fa addr =
     (let frame = unat addr div PAGE_SIZE
      in if frame \<ge> MAX_FRAMES then fa
         else let old = bm_test (bitmap fa) frame;
                  fa = fa\<lparr>bitmap := bm_clear (bitmap fa) frame\<rparr>
              in if old then fa\<lparr>used_frames := used_frames fa - 1\<rparr> else fa)"

definition init_region :: "frame_allocator \<times> u64 \<Rightarrow> mem_entry \<Rightarrow> frame_allocator \<times> u64" where
  "init_region st entry = (case st of (fa, max_addr) \<Rightarrow>
     if me_usable entry then
       let start_frame = unat (me_base entry) div PAGE_SIZE;
           frame_count = unat (me_length entry) div PAGE_SIZE;
           fa = fold (\<lambda>frame fa. if frame < MAX_FRAMES then free_frame_initial fa frame else fa)
                  [start_frame..<start_frame + frame_count] fa;
           region_end = me_base entry + me_length entry
       in (fa, if region_end > max_addr then region_end else max_addr)
     else (fa, max_addr))"

definition init_frames :: "frame_allocator \<Rightarrow> mem_entry list \<Rightarrow> frame_allocator" where
  "init_frames fa memory_map =
     (let fa = fa\<lparr>bitmap := map (\<lambda>_. - 1) (bitmap fa)\<rparr>;
          (fa, max_addr) = foldl init_region (fa, 0) memory_map;
          fa = fa\<lparr>total_frames := min (unat max_addr div PAGE_SIZE) MAX_FRAMES\<rparr>
      in fold (\<lambda>frame fa. allocate_frame_at fa frame) [0..<1024 * 1024 div PAGE_SIZE] fa)"

text \<open>
  \<^verbatim>\<open>allocate\<close>: the bit loop of one word, the word loop from \<^verbatim>\<open>start_search\<close>, and the retry from
  the beginning when the search did not start there.
\<close>

definition first_zero_bit :: "usize \<Rightarrow> nat option" where
  "first_zero_bit word = List.find (\<lambda>b. word AND push_bit b 1 = 0) [0..<64]"

fun scan_words :: "usize list \<Rightarrow> nat list \<Rightarrow> (nat \<times> nat) option" where
  "scan_words bm [] = None"
| "scan_words bm (i # is) =
     (if bm ! i \<noteq> - 1
      then (case first_zero_bit (bm ! i) of Some b \<Rightarrow> Some (i, b) | None \<Rightarrow> scan_words bm is)
      else scan_words bm is)"

function allocate :: "frame_allocator \<Rightarrow> phys_addr option \<times> frame_allocator" where
  "allocate fa =
     (case scan_words (bitmap fa) [start_search fa..<length (bitmap fa)] of
        Some (i, b) \<Rightarrow>
          (Some (PhysAddr_new (of_nat ((i * 64 + b) * PAGE_SIZE))),
           fa\<lparr>bitmap := (bitmap fa)[i := bitmap fa ! i OR push_bit b 1],
              used_frames := used_frames fa + 1, start_search := i\<rparr>)
      | None \<Rightarrow>
          if start_search fa > 0 then allocate (fa\<lparr>start_search := 0\<rparr>) else (None, fa))"
  by pat_completeness auto
termination
  by (relation "measure start_search") auto

definition free_frames :: "frame_allocator \<Rightarrow> nat" where
  "free_frames fa = total_frames fa - unat (used_frames fa)"

definition get_frame_stats :: "frame_allocator \<Rightarrow> nat \<times> nat \<times> nat" where
  "get_frame_stats fa = (total_frames fa, unat (used_frames fa), free_frames fa)"

declare allocate.simps [simp del]

section \<open>Abstraction: the set of allocated frames\<close>

definition fa_wf :: "frame_allocator \<Rightarrow> bool" where
  "fa_wf fa \<longleftrightarrow> length (bitmap fa) = BITMAP_SIZE div 8"

definition allocated :: "frame_allocator \<Rightarrow> nat set" where
  "allocated fa = {f. f < MAX_FRAMES \<and> bm_test (bitmap fa) f}"

definition frame_addr :: "nat \<Rightarrow> phys_addr" where
  "frame_addr f = of_nat (f * PAGE_SIZE)"

lemmas frame_consts = PAGE_SIZE_def MAX_FRAMES_def BITMAP_SIZE_def

lemma fa_wf_bound: "fa_wf fa \<Longrightarrow> f < MAX_FRAMES \<Longrightarrow> f < length (bitmap fa) * 64"
  by (simp add: fa_wf_def frame_consts)

lemma fa_wf_start [simp]: "fa_wf (fa\<lparr>start_search := i\<rparr>) \<longleftrightarrow> fa_wf fa"
  by (simp add: fa_wf_def)

lemma allocated_start [simp]: "allocated (fa\<lparr>start_search := i\<rparr>) = allocated fa"
  by (simp add: allocated_def)

lemma new_frame_allocator_wf: "fa_wf new_frame_allocator"
  by (simp add: fa_wf_def new_frame_allocator_def)

lemma unat_frame_addr: "f < MAX_FRAMES \<Longrightarrow> unat (frame_addr f) = f * PAGE_SIZE"
  unfolding frame_addr_def by (rule unat_of_nat_u64) (simp add: frame_consts)

lemma frame_addr_inj: "f < MAX_FRAMES \<Longrightarrow> g < MAX_FRAMES \<Longrightarrow> frame_addr f = frame_addr g \<Longrightarrow> f = g"
  by (metis unat_frame_addr mult_right_cancel PAGE_SIZE_def zero_neq_numeral)

lemma PhysAddr_new_frame_addr:
  assumes "f < MAX_FRAMES"
  shows "PhysAddr_new (frame_addr f) = frame_addr f"
proof -
  have "(0x000FFFFFFFFFF000 :: u64) = mask 52 AND NOT (mask 12)"
    by (simp add: mask_eq_exp_minus_1)
  moreover have "frame_addr f AND mask 52 = frame_addr f"
    using assms by (simp only: word_unat_eq_iff unat_and_mask unat_frame_addr)
      (simp add: frame_consts)
  moreover have "frame_addr f AND NOT (mask 12) = frame_addr f"
    using assms by (simp only: word_unat_eq_iff unat_and_not_mask unat_frame_addr)
      (simp add: frame_consts)
  ultimately show ?thesis
    by (simp only: PhysAddr_new_def and.assoc [symmetric])
qed

section \<open>Allocation\<close>

lemma first_zero_bit_Some:
  assumes "first_zero_bit w = Some b"
  shows "b < 64 \<and> \<not> bit w b"
  using find_Some_least [OF assms [unfolded first_zero_bit_def]] by (auto simp: word_bits)

lemma first_zero_bit_None: "first_zero_bit w = None \<longleftrightarrow> w = - 1"
proof -
  have "first_zero_bit w = None \<longleftrightarrow> (\<forall>b<64. bit w b)"
    by (simp add: first_zero_bit_def find_None_upt word_bits)
  also have "\<dots> \<longleftrightarrow> w = - 1"
    using word_neq_minus_1_iff [of w] by auto
  finally show ?thesis .
qed

lemma scan_words_Some:
  "scan_words bm is = Some (i, b) \<Longrightarrow> i \<in> set is \<and> b < 64 \<and> \<not> bit (bm ! i) b"
  by (induction "is") (auto split: if_splits option.splits dest: first_zero_bit_Some)

lemma scan_words_None:
  "scan_words bm is = None \<longleftrightarrow> (\<forall>i\<in>set is. bm ! i = - 1)"
  by (induction "is") (auto split: option.splits simp: first_zero_bit_None)

lemma frame_index_bound:
  assumes "fa_wf fa" and "i < length (bitmap fa)" and "b < 64"
  shows "i * 64 + b < MAX_FRAMES"
  using assms by (simp add: fa_wf_def frame_consts)

lemma allocated_bit:
  "allocated fa = {f. f < MAX_FRAMES \<and> bit (bitmap fa ! (f div 64)) (f mod 64)}"
  by (simp add: allocated_def bm_test_bit)

lemma bm_set_at:
  "b < 64 \<Longrightarrow> (bm :: usize list)[i := bm ! i OR push_bit b 1] = bm_set bm (i * 64 + b)"
  by (simp add: bm_set_def Let_def)

lemma allocate_step:
  assumes "fa_wf fa"
    and "scan_words (bitmap fa) [s..<length (bitmap fa)] = Some (i, b)"
  shows "i * 64 + b < MAX_FRAMES" and "i * 64 + b \<notin> allocated fa"
    and "allocated (fa\<lparr>bitmap := (bitmap fa)[i := bitmap fa ! i OR push_bit b 1],
           used_frames := u, start_search := i\<rparr>) = insert (i * 64 + b) (allocated fa)"
proof -
  from scan_words_Some [OF assms(2)] have i: "i < length (bitmap fa)" and b: "b < 64"
    and free: "\<not> bit (bitmap fa ! i) b" by auto
  show max: "i * 64 + b < MAX_FRAMES"
    using assms(1) i b by (rule frame_index_bound)
  show "i * 64 + b \<notin> allocated fa"
    using free b by (simp add: allocated_bit)
  show "allocated (fa\<lparr>bitmap := (bitmap fa)[i := bitmap fa ! i OR push_bit b 1],
           used_frames := u, start_search := i\<rparr>) = insert (i * 64 + b) (allocated fa)"
    using max fa_wf_bound [OF assms(1) max] unfolding bm_set_at [OF b]
    by (auto simp: allocated_def bitmap_simps)
qed

lemma scan_all_full:
  assumes "fa_wf fa" and "scan_words (bitmap fa) [0..<length (bitmap fa)] = None"
  shows "allocated fa = {..<MAX_FRAMES}"
proof -
  have "bitmap fa ! (f div 64) = - 1" if "f < MAX_FRAMES" for f
    using assms(2) fa_wf_bound [OF assms(1) that] by (simp add: scan_words_None)
  then show ?thesis by (auto simp: allocated_bit)
qed

text \<open>
  The contract of \<^verbatim>\<open>allocate\<close>. A returned frame was free and is the only one whose state
  changes; no frame is returned only when every frame of the bitmap is taken, wherever the
  search started.
\<close>

lemma allocate_Some:
  assumes "fa_wf fa" and "allocate fa = (Some a, fa')"
  obtains f where "f < MAX_FRAMES" "a = frame_addr f" "f \<notin> allocated fa"
    "allocated fa' = insert f (allocated fa)" "fa_wf fa'"
    "used_frames fa' = used_frames fa + 1" "total_frames fa' = total_frames fa"
  using assms
proof (induction fa arbitrary: thesis rule: allocate.induct)
  case (1 fa)
  show ?case
  proof (cases "scan_words (bitmap fa) [start_search fa..<length (bitmap fa)]")
    case None
    with 1(4) have "start_search fa > 0" and "allocate (fa\<lparr>start_search := 0\<rparr>) = (Some a, fa')"
      by (auto simp: allocate.simps [of fa] split: if_splits)
    with None 1 show ?thesis
      by (auto simp: fa_wf_def allocated_def)
  next
    case (Some ib)
    obtain i b where ib: "ib = (i, b)" by (cases ib)
    let ?f = "i * 64 + b"
    note step = allocate_step [OF 1(3) Some [unfolded ib]]
    from 1(4) Some ib have a: "a = PhysAddr_new (frame_addr ?f)"
      and fa': "fa' = fa\<lparr>bitmap := (bitmap fa)[i := bitmap fa ! i OR push_bit b 1],
                 used_frames := used_frames fa + 1, start_search := i\<rparr>"
      by (auto simp: allocate.simps [of fa] frame_addr_def)
    show ?thesis
      using 1(3) step a by (intro 1(2) [of ?f]) (auto simp: fa' PhysAddr_new_frame_addr fa_wf_def)
  qed
qed

lemma allocate_None:
  assumes "fa_wf fa" and "allocate fa = (None, fa')"
  shows "allocated fa = {..<MAX_FRAMES} \<and> fa' = fa\<lparr>start_search := 0\<rparr>"
proof -
  have pass: "allocated g = {..<MAX_FRAMES} \<and> fa' = g"
    if "fa_wf g" "start_search g = 0" "allocate g = (None, fa')" for g
    using that scan_all_full [of g] by (auto simp: allocate.simps [of g] split: option.splits)
  show ?thesis
  proof (cases "start_search fa > 0")
    case True
    with assms(2) have "allocate (fa\<lparr>start_search := 0\<rparr>) = (None, fa')"
      by (simp add: allocate.simps [of fa] split: option.splits prod.splits)
    with pass [of "fa\<lparr>start_search := 0\<rparr>"] assms(1) show ?thesis
      by (simp add: fa_wf_def allocated_def)
  next
    case False
    with pass [of fa] assms show ?thesis by simp
  qed
qed

lemma allocate_full:
  assumes "fa_wf fa" and "allocated fa = {..<MAX_FRAMES}"
  shows "allocate fa = (None, fa\<lparr>start_search := 0\<rparr>)"
proof (cases "allocate fa")
  case (Pair r fa')
  with assms show ?thesis
    by (cases r) (auto elim: allocate_Some dest: allocate_None)
qed

section \<open>Release, reservation and initialisation\<close>

lemma deallocate_wf [simp]: "fa_wf fa \<Longrightarrow> fa_wf (deallocate fa a)"
  by (simp add: deallocate_def fa_wf_def Let_def)

lemma allocate_frame_at_wf [simp]: "fa_wf fa \<Longrightarrow> fa_wf (allocate_frame_at fa f)"
  by (simp add: allocate_frame_at_def fa_wf_def Let_def)

lemma free_frame_initial_wf [simp]: "fa_wf fa \<Longrightarrow> fa_wf (free_frame_initial fa f)"
  by (simp add: free_frame_initial_def fa_wf_def)

lemma allocated_deallocate:
  assumes "fa_wf fa"
  shows "allocated (deallocate fa a) = allocated fa - {unat a div PAGE_SIZE}"
  using fa_wf_bound [OF assms]
  by (auto simp: allocated_def deallocate_def Let_def bitmap_simps)

lemma allocated_frame_at:
  assumes "fa_wf fa"
  shows "allocated (allocate_frame_at fa f)
    = (if f < MAX_FRAMES then insert f (allocated fa) else allocated fa)"
  using fa_wf_bound [OF assms]
  by (auto simp: allocated_def allocate_frame_at_def Let_def bitmap_simps)

lemma allocated_free_initial:
  assumes "fa_wf fa"
  shows "allocated (free_frame_initial fa f) = allocated fa - {f}"
  using fa_wf_bound [OF assms]
  by (auto simp: allocated_def free_frame_initial_def bitmap_simps)

lemma frame_of_addr: "f < MAX_FRAMES \<Longrightarrow> unat (frame_addr f) div PAGE_SIZE = f"
  by (simp add: unat_frame_addr PAGE_SIZE_def)

definition region_frames :: "mem_entry \<Rightarrow> nat set" where
  "region_frames e =
     (if me_usable e
      then {unat (me_base e) div PAGE_SIZE ..<
            unat (me_base e) div PAGE_SIZE + unat (me_length e) div PAGE_SIZE}
      else {})"

definition usable_frames :: "mem_entry list \<Rightarrow> nat set" where
  "usable_frames mm = (\<Union>e\<in>set mm. region_frames e)"

lemma fold_free_initial:
  "fa_wf fa \<Longrightarrow>
   fa_wf (fold (\<lambda>f fa. if f < MAX_FRAMES then free_frame_initial fa f else fa) fs fa) \<and>
   allocated (fold (\<lambda>f fa. if f < MAX_FRAMES then free_frame_initial fa f else fa) fs fa)
     = allocated fa - set fs \<and>
   used_frames (fold (\<lambda>f fa. if f < MAX_FRAMES then free_frame_initial fa f else fa) fs fa)
     = used_frames fa"
proof (induction fs arbitrary: fa)
  case Nil
  then show ?case by simp
next
  case (Cons f fs)
  let ?fa = "if f < MAX_FRAMES then free_frame_initial fa f else fa"
  have "fa_wf ?fa" and "allocated ?fa = allocated fa - {f}" and "used_frames ?fa = used_frames fa"
    using Cons.prems by (auto simp: allocated_free_initial, auto simp: allocated_def
        free_frame_initial_def)
  with Cons.IH [of ?fa] show ?case by (simp, blast)
qed

lemma init_region_spec:
  assumes "fa_wf fa" and "init_region (fa, m) e = (fa', m')"
  shows "fa_wf fa' \<and> allocated fa' = allocated fa - region_frames e \<and> used_frames fa' = used_frames fa"
  using assms fold_free_initial [OF assms(1), of "[unat (me_base e) div PAGE_SIZE ..<
      unat (me_base e) div PAGE_SIZE + unat (me_length e) div PAGE_SIZE]"]
  by (auto simp: init_region_def region_frames_def Let_def split: if_splits)

lemma foldl_init_region:
  "fa_wf fa \<Longrightarrow> foldl init_region (fa, m) mm = (fa', m') \<Longrightarrow>
   fa_wf fa' \<and> allocated fa' = allocated fa - usable_frames mm \<and> used_frames fa' = used_frames fa"
proof (induction mm arbitrary: fa m)
  case Nil
  then show ?case by (simp add: usable_frames_def)
next
  case (Cons e mm)
  obtain g n where g: "init_region (fa, m) e = (g, n)" by (cases "init_region (fa, m) e")
  with Cons show ?case
    using init_region_spec [OF Cons.prems(1) g] Cons.IH [of g n]
    by (auto simp: usable_frames_def)
qed

lemma fold_frame_at:
  "fa_wf fa \<Longrightarrow> set fs \<subseteq> {..<MAX_FRAMES} \<Longrightarrow>
   fa_wf (fold (\<lambda>f fa. allocate_frame_at fa f) fs fa) \<and>
   allocated (fold (\<lambda>f fa. allocate_frame_at fa f) fs fa) = allocated fa \<union> set fs"
proof (induction fs arbitrary: fa)
  case Nil
  then show ?case by simp
next
  case (Cons f fs)
  then show ?case
    using Cons.IH [of "allocate_frame_at fa f"] by (simp add: allocated_frame_at)
qed

lemma init_frames_spec:
  assumes "fa_wf fa"
  shows "fa_wf (init_frames fa mm)"
    and "allocated (init_frames fa mm) = {..<256} \<union> ({..<MAX_FRAMES} - usable_frames mm)"
proof -
  define fa0 where "fa0 = fa\<lparr>bitmap := map (\<lambda>_. - 1) (bitmap fa)\<rparr>"
  have "bitmap fa0 = replicate (BITMAP_SIZE div 8) (- 1)"
    using assms by (simp add: fa0_def fa_wf_def map_replicate_const)
  then have wf0: "fa_wf fa0" and all: "allocated fa0 = {..<MAX_FRAMES}"
    by (auto simp: fa_wf_def allocated_def frame_consts intro!: bm_test_replicate_ones)
  obtain fa1 m where fa1: "foldl init_region (fa0, 0) mm = (fa1, m)"
    by (cases "foldl init_region (fa0, 0) mm")
  define fa2 where "fa2 = fa1\<lparr>total_frames := min (unat m div PAGE_SIZE) MAX_FRAMES\<rparr>"
  have wf2: "fa_wf fa2" and al2: "allocated fa2 = {..<MAX_FRAMES} - usable_frames mm"
    using foldl_init_region [OF wf0 fa1] all by (auto simp: fa2_def fa_wf_def allocated_def)
  have init: "init_frames fa mm = fold (\<lambda>f fa. allocate_frame_at fa f) [0..<256] fa2"
    using fa1 by (simp add: init_frames_def Let_def fa0_def fa2_def PAGE_SIZE_def
        del: upt_rec_numeral)
  have "set [0..<256] \<subseteq> {..<MAX_FRAMES}" and "set [0..<256] = {..<256 :: nat}"
    by (simp_all only: set_upt MAX_FRAMES_def atLeast0LessThan lessThan_subset_iff)
  with fold_frame_at [OF wf2, of "[0..<256]"] al2
  show "fa_wf (init_frames fa mm)"
    and "allocated (init_frames fa mm) = {..<256} \<union> ({..<MAX_FRAMES} - usable_frames mm)"
    by (simp_all only: init Un_commute)
qed

section \<open>The interface the rest of the memory system relies on\<close>

text \<open>
  Paging, the heap and the loaders only need that a frame they obtain is taken from then on
  and was not taken before. \<open>taken\<close> is the set of frames somebody holds.
\<close>

locale frame_source =
  fixes alloc :: "'s \<Rightarrow> 'a option \<times> 's"
    and release :: "'s \<Rightarrow> 'a \<Rightarrow> 's"
    and taken :: "'s \<Rightarrow> 'a set"
    and wf :: "'s \<Rightarrow> bool"
  assumes alloc_fresh: "wf s \<Longrightarrow> alloc s = (Some a, s') \<Longrightarrow> a \<notin> taken s"
    and alloc_taken: "wf s \<Longrightarrow> alloc s = (Some a, s') \<Longrightarrow> taken s' = insert a (taken s)"
    and alloc_none: "wf s \<Longrightarrow> alloc s = (None, s') \<Longrightarrow> taken s' = taken s"
    and alloc_wf: "wf s \<Longrightarrow> alloc s = (r, s') \<Longrightarrow> wf s'"
    and release_taken: "wf s \<Longrightarrow> a \<in> taken s \<Longrightarrow> taken (release s a) = taken s - {a}"
    and release_wf: "wf s \<Longrightarrow> wf (release s a)"
begin

lemma alloc_mono: "wf s \<Longrightarrow> alloc s = (r, s') \<Longrightarrow> taken s \<subseteq> taken s'"
  by (cases r) (auto dest: alloc_taken alloc_none)

lemma alloc_release:
  assumes "wf s" and "alloc s = (Some a, s')"
  shows "taken (release s' a) = taken s"
  using release_taken [OF alloc_wf [OF assms], of a] alloc_taken [OF assms] alloc_fresh [OF assms]
  by simp

lemma alloc_twice_distinct:
  assumes "wf s" and "alloc s = (Some a, s')" and "alloc s' = (Some b, s'')"
  shows "a \<noteq> b"
  using alloc_fresh [OF alloc_wf [OF assms(1,2)] assms(3)] alloc_taken [OF assms(1,2)] by auto

end

definition taken_addrs :: "frame_allocator \<Rightarrow> phys_addr set" where
  "taken_addrs fa = frame_addr ` allocated fa"

lemma inj_frame_addr: "inj_on frame_addr {..<MAX_FRAMES}"
  by (simp add: inj_on_def frame_addr_inj)

lemma allocated_bound: "allocated fa \<subseteq> {..<MAX_FRAMES}"
  by (auto simp: allocated_def)

lemma frame_addr_mem_iff:
  "f < MAX_FRAMES \<Longrightarrow> frame_addr f \<in> taken_addrs fa \<longleftrightarrow> f \<in> allocated fa"
  unfolding taken_addrs_def
  by (rule inj_on_image_mem_iff [OF inj_frame_addr]) (simp_all add: allocated_bound)

lemma taken_deallocate:
  assumes "fa_wf fa" and "a \<in> taken_addrs fa"
  shows "taken_addrs (deallocate fa a) = taken_addrs fa - {a}"
proof -
  from assms(2) obtain f where f: "f \<in> allocated fa" "a = frame_addr f"
    by (auto simp: taken_addrs_def)
  then have "f < MAX_FRAMES" by (simp add: allocated_def)
  with f have "allocated (deallocate fa a) = allocated fa - {f}"
    by (simp add: allocated_deallocate [OF assms(1)] frame_of_addr)
  moreover have "frame_addr ` (allocated fa - {f}) = frame_addr ` allocated fa - frame_addr ` {f}"
    using f allocated_bound [of fa]
    by (intro inj_on_image_set_diff [OF inj_frame_addr]) auto
  ultimately show ?thesis
    using f by (simp add: taken_addrs_def)
qed

interpretation fsrc: frame_source allocate deallocate taken_addrs fa_wf
proof
  fix fa fa' a
  assume wf: "fa_wf fa" and al: "allocate fa = (Some a, fa')"
  from wf al obtain f where f: "f < MAX_FRAMES" "a = frame_addr f" "f \<notin> allocated fa"
    "allocated fa' = insert f (allocated fa)" by (rule allocate_Some)
  then show "a \<notin> taken_addrs fa" by (simp add: frame_addr_mem_iff)
  from f show "taken_addrs fa' = insert a (taken_addrs fa)" by (simp add: taken_addrs_def)
next
  fix fa fa' assume "fa_wf fa" and "allocate fa = (None, fa')"
  then show "taken_addrs fa' = taken_addrs fa"
    by (auto dest: allocate_None simp: taken_addrs_def allocated_def)
next
  fix fa r fa' assume "fa_wf fa" and "allocate fa = (r, fa')"
  then show "fa_wf fa'"
    using allocate_None [of fa fa'] by (cases r) (auto elim: allocate_Some)
qed (simp_all add: taken_deallocate)

section \<open>Histories of allocation and release\<close>

text \<open>
  A run of the allocator after boot: clients obtain frames and give back frames they hold.
  \<open>own\<close> is the set of frames handed out and not yet returned.
\<close>

inductive frame_run :: "mem_entry list \<Rightarrow> frame_allocator \<Rightarrow> nat set \<Rightarrow> bool" for mm where
  boot: "frame_run mm (init_frames new_frame_allocator mm) {}"
| obtain_frame: "frame_run mm fa own \<Longrightarrow> allocate fa = (Some (frame_addr f), fa') \<Longrightarrow>
    f < MAX_FRAMES \<Longrightarrow> frame_run mm fa' (insert f own)"
| no_frame: "frame_run mm fa own \<Longrightarrow> allocate fa = (None, fa') \<Longrightarrow> frame_run mm fa' own"
| return_frame: "frame_run mm fa own \<Longrightarrow> f \<in> own \<Longrightarrow>
    frame_run mm (deallocate fa (frame_addr f)) (own - {f})"

definition boot_reserved :: "mem_entry list \<Rightarrow> nat set" where
  "boot_reserved mm = {..<256} \<union> ({..<MAX_FRAMES} - usable_frames mm)"

definition frame_run_inv :: "mem_entry list \<Rightarrow> frame_allocator \<Rightarrow> nat set \<Rightarrow> bool" where
  "frame_run_inv mm fa own \<longleftrightarrow>
     fa_wf fa \<and> own \<subseteq> {..<MAX_FRAMES} \<and> own \<inter> boot_reserved mm = {} \<and>
     allocated fa = boot_reserved mm \<union> own \<and>
     used_frames fa = used_frames (init_frames new_frame_allocator mm) + of_nat (card own)"

lemma boot_reserved_bound: "boot_reserved mm \<subseteq> {..<MAX_FRAMES}"
  by (auto simp: boot_reserved_def MAX_FRAMES_def)

lemma frame_run_inv_alloc:
  assumes "frame_run_inv mm fa own" and "allocate fa = (Some (frame_addr f), fa')"
    and "f < MAX_FRAMES"
  shows "f \<notin> own \<and> f \<notin> boot_reserved mm \<and> frame_run_inv mm fa' (insert f own)"
proof -
  have wf: "fa_wf fa" and fin: "finite own"
    using assms(1) finite_subset by (auto simp: frame_run_inv_def)
  from wf assms(2) obtain g where g: "g < MAX_FRAMES" "frame_addr f = frame_addr g"
      "g \<notin> allocated fa" "allocated fa' = insert g (allocated fa)" "fa_wf fa'"
      "used_frames fa' = used_frames fa + 1" by (rule allocate_Some)
  then have "g = f" using assms(3) frame_addr_inj by metis
  with g have fresh: "f \<notin> own" "f \<notin> boot_reserved mm"
    using assms(1) by (auto simp: frame_run_inv_def)
  then have "card (insert f own) = Suc (card own)" using fin by simp
  with g \<open>g = f\<close> fresh assms show ?thesis
    by (simp add: frame_run_inv_def)
qed

lemma used_deallocate:
  "fa_wf fa \<Longrightarrow> f \<in> allocated fa \<Longrightarrow>
   used_frames (deallocate fa (frame_addr f)) = used_frames fa - 1"
  by (simp add: deallocate_def allocated_def frame_of_addr Let_def)

lemma frame_run_inv_dealloc:
  assumes "frame_run_inv mm fa own" and "f \<in> own"
  shows "frame_run_inv mm (deallocate fa (frame_addr f)) (own - {f})"
proof -
  have wf: "fa_wf fa" and fin: "finite own" and f: "f < MAX_FRAMES" "f \<in> allocated fa"
    "f \<notin> boot_reserved mm"
    using assms finite_subset by (auto simp: frame_run_inv_def)
  have "card own = Suc (card (own - {f}))"
    using fin assms(2) by (metis card_Suc_Diff1)
  then have "used_frames (deallocate fa (frame_addr f))
      = used_frames (init_frames new_frame_allocator mm) + of_nat (card (own - {f}))"
    using assms(1) f by (simp add: used_deallocate [OF wf] frame_run_inv_def)
  moreover have "allocated (deallocate fa (frame_addr f)) = boot_reserved mm \<union> (own - {f})"
    using assms(1) f by (auto simp: allocated_deallocate [OF wf] frame_run_inv_def frame_of_addr)
  ultimately show ?thesis
    using assms(1) wf by (auto simp: frame_run_inv_def)
qed

lemma frame_run_invariant: "frame_run mm fa own \<Longrightarrow> frame_run_inv mm fa own"
proof (induction rule: frame_run.induct)
  case boot
  show ?case
    by (simp add: frame_run_inv_def boot_reserved_def init_frames_spec new_frame_allocator_wf)
next
  case (obtain_frame fa own f fa')
  then show ?case using frame_run_inv_alloc by blast
next
  case (no_frame fa own fa')
  then have "fa' = fa\<lparr>start_search := 0\<rparr>"
    using allocate_None [of fa fa'] by (simp add: frame_run_inv_def)
  with no_frame.IH show ?case
    by (simp add: frame_run_inv_def fa_wf_def allocated_def)
next
  case (return_frame fa own f)
  then show ?case by (simp add: frame_run_inv_dealloc)
qed

section \<open>Properties\<close>

text \<open>
  C4: \<^verbatim>\<open>FrameAllocator::allocate\<close> hands out exactly one frame that was free, marks it and no other,
  and counts it; it returns \<^verbatim>\<open>None\<close> only when all \<^verbatim>\<open>MAX_FRAMES\<close> frames are allocated, whatever
  position the search starts from.
\<close>

theorem allocate_contract:
  assumes "fa_wf fa"
  shows "case allocate fa of
      (Some a, fa') \<Rightarrow> \<exists>f<MAX_FRAMES. a = frame_addr f \<and> f \<notin> allocated fa \<and>
         allocated fa' = insert f (allocated fa) \<and> used_frames fa' = used_frames fa + 1
    | (None, fa') \<Rightarrow> allocated fa = {..<MAX_FRAMES} \<and> allocated fa' = allocated fa \<and>
         used_frames fa' = used_frames fa"
proof (cases "allocate fa")
  case (Pair r fa')
  show ?thesis
  proof (cases r)
    case None
    with Pair allocate_None [OF assms, of fa'] show ?thesis by simp
  next
    case (Some a)
    with Pair have "allocate fa = (Some a, fa')" by simp
    with assms obtain f where "f < MAX_FRAMES" "a = frame_addr f" "f \<notin> allocated fa"
      "allocated fa' = insert f (allocated fa)" "used_frames fa' = used_frames fa + 1"
      by (rule allocate_Some)
    with Pair Some show ?thesis by auto
  qed
qed

theorem allocate_contract_witness:
  "fa_wf new_frame_allocator \<and> allocated new_frame_allocator = {..<MAX_FRAMES} \<and>
   (case allocate new_frame_allocator of
      (Some a, fa') \<Rightarrow> False
    | (None, fa') \<Rightarrow> allocated fa' = {..<MAX_FRAMES} \<and> used_frames fa' = 0)"
proof -
  have full: "allocated new_frame_allocator = {..<MAX_FRAMES}"
    by (auto simp: allocated_def new_frame_allocator_def frame_consts
        intro!: bm_test_replicate_ones)
  then show ?thesis
    using allocate_contract [OF new_frame_allocator_wf] new_frame_allocator_wf
    by (auto simp: new_frame_allocator_def split: prod.splits option.splits)
qed

text \<open>
  C3: Over every history of boot, allocations and releases of held frames,
  \<^verbatim>\<open>allocate\<close> never returns a frame somebody still holds, a frame outside the memory map's
  usable regions, or a frame of the first megabyte.
\<close>

theorem allocate_never_reuses:
  assumes "frame_run mm fa own" and "allocate fa = (Some a, fa')"
  shows "\<exists>f. a = frame_addr f \<and> f \<notin> own \<and> f \<in> usable_frames mm \<and> 256 \<le> f \<and> f < MAX_FRAMES"
proof -
  have inv: "frame_run_inv mm fa own"
    using assms(1) by (rule frame_run_invariant)
  then have "fa_wf fa" by (simp add: frame_run_inv_def)
  from this assms(2) obtain f where f: "f < MAX_FRAMES" "a = frame_addr f"
    by (rule allocate_Some)
  with inv assms(2) have "f \<notin> own" and "f \<notin> boot_reserved mm"
    using frame_run_inv_alloc by blast+
  with f show ?thesis by (auto simp: boot_reserved_def)
qed

definition second_megabyte :: "mem_entry list" where
  "second_megabyte = [\<lparr>me_base = 0x100000, me_length = 0x100000, me_usable = True\<rparr>]"

lemma second_megabyte_usable: "usable_frames second_megabyte = {256..<512}"
  by (simp add: usable_frames_def second_megabyte_def region_frames_def PAGE_SIZE_def)

theorem allocate_never_reuses_witness:
  "\<exists>fa own a fa'. frame_run second_megabyte fa own \<and> allocate fa = (Some a, fa') \<and>
     (\<exists>f. a = frame_addr f \<and> f \<notin> own \<and> f \<in> usable_frames second_megabyte \<and> 256 \<le> f \<and>
        f < MAX_FRAMES)"
proof -
  define fa where "fa = init_frames new_frame_allocator second_megabyte"
  have run: "frame_run second_megabyte fa {}"
    unfolding fa_def by (rule frame_run.boot)
  have wf: "fa_wf fa" and "256 \<notin> allocated fa"
    by (simp_all add: fa_def init_frames_spec new_frame_allocator_wf second_megabyte_usable)
  then obtain a fa' where "allocate fa = (Some a, fa')"
    using allocate_None [OF wf] by (cases "allocate fa"; cases "fst (allocate fa)")
      (auto simp: MAX_FRAMES_def)
  with run allocate_never_reuses [OF run this] show ?thesis by blast
qed

text \<open>
  The statistics are exact: after boot the counter \<^verbatim>\<open>used_frames\<close> moves with the number of
  frames held by clients, and a frame that is obtained and returned leaves no trace in the bitmap.
\<close>

theorem used_frames_exact:
  assumes "frame_run mm fa own"
  shows "used_frames fa = used_frames (init_frames new_frame_allocator mm) + of_nat (card own)
    \<and> allocated fa = boot_reserved mm \<union> own"
  using frame_run_invariant [OF assms] by (simp add: frame_run_inv_def)

end
