(* ===== verification/Paging.thy ===== *)
theory Paging
  imports Frame_Allocator
begin

text \<open>
  \<^verbatim>\<open>kernel/src/memory/paging.rs\<close>: page table entries and the four-level page table manager.

  The code reaches every table through the direct map of physical memory: a pointer to
  \<^verbatim>\<open>phys + hhdm\<close> is a pointer to the physical page at \<^verbatim>\<open>phys\<close>. The machine state therefore holds
  physical memory as a function from the address of a page and an index to a 64-bit entry,
  together with the frame allocator the manager draws new tables from. All page addresses
  the code forms are masked to a page boundary, so pages never overlap partly. The
  \<^verbatim>\<open>invlpg\<close> and \<^verbatim>\<open>mov cr3\<close> instructions act on the processor only and have no counterpart.
\<close>

section \<open>Definitions\<close>

type_synonym pte = u64

definition PRESENT :: u64 where "PRESENT = 2 ^ 0"
definition WRITABLE :: u64 where "WRITABLE = 2 ^ 1"
definition USER :: u64 where "USER = 2 ^ 2"
definition WRITE_THROUGH :: u64 where "WRITE_THROUGH = 2 ^ 3"
definition NO_CACHE :: u64 where "NO_CACHE = 2 ^ 4"
definition NO_EXECUTE :: u64 where "NO_EXECUTE = 2 ^ 63"

definition is_present :: "pte \<Rightarrow> bool" where
  "is_present e \<longleftrightarrow> e AND PRESENT \<noteq> 0"

definition set_present :: "pte \<Rightarrow> bool \<Rightarrow> pte" where
  "set_present e present = (if present then e OR PRESENT else e AND NOT PRESENT)"

definition physical_address :: "pte \<Rightarrow> u64" where
  "physical_address e = e AND 0x000FFFFFFFFFF000"

definition set_address :: "u64 \<Rightarrow> u64 \<Rightarrow> pte" where
  "set_address addr flags =
     ((addr AND 0x000FFFFFFFFFF000) OR (flags AND 0xFFF)) OR (flags AND NO_EXECUTE)"

definition pte_flags :: "pte \<Rightarrow> u64" where
  "pte_flags e = (e AND 0xFFF) OR (e AND NO_EXECUTE)"

type_synonym virt_addr = u64

definition p4_index :: "virt_addr \<Rightarrow> nat" where
  "p4_index v = unat (drop_bit 39 v AND 0x1FF)"

definition p3_index :: "virt_addr \<Rightarrow> nat" where
  "p3_index v = unat (drop_bit 30 v AND 0x1FF)"

definition p2_index :: "virt_addr \<Rightarrow> nat" where
  "p2_index v = unat (drop_bit 21 v AND 0x1FF)"

definition p1_index :: "virt_addr \<Rightarrow> nat" where
  "p1_index v = unat (drop_bit 12 v AND 0x1FF)"

definition page_offset :: "virt_addr \<Rightarrow> nat" where
  "page_offset v = unat (v AND 0xFFF)"

text \<open>Physical memory seen as page tables: 512 entries per page.\<close>

type_synonym page_table = "nat \<Rightarrow> pte"
type_synonym phys_mem = "phys_addr \<Rightarrow> page_table"

definition zero_table :: page_table where
  "zero_table = (\<lambda>_. 0)"

record vm =
  frames :: frame_allocator
  pmem :: phys_mem

definition write_entry :: "vm \<Rightarrow> phys_addr \<Rightarrow> nat \<Rightarrow> pte \<Rightarrow> vm" where
  "write_entry s t i e = s\<lparr>pmem := (pmem s)(t := (pmem s t)(i := e))\<rparr>"

definition zero_page :: "vm \<Rightarrow> phys_addr \<Rightarrow> vm" where
  "zero_page s t = s\<lparr>pmem := (pmem s)(t := zero_table)\<rparr>"

definition vm_allocate_frame :: "vm \<Rightarrow> phys_addr option \<times> vm" where
  "vm_allocate_frame s = (case allocate (frames s) of (r, fa) \<Rightarrow> (r, s\<lparr>frames := fa\<rparr>))"

text \<open>\<^verbatim>\<open>PageTableManager::new\<close>; the manager is the physical address of its top table.\<close>

definition new_page_table :: "vm \<Rightarrow> phys_addr option \<times> vm" where
  "new_page_table s = (case vm_allocate_frame s of
     (None, s) \<Rightarrow> (None, s)
   | (Some frame, s) \<Rightarrow> (Some frame, zero_page s frame))"

text \<open>
  The "get or create" step that \<^verbatim>\<open>map\<close> repeats for the third, second and first level, and its
  variant in \<^verbatim>\<open>map_executable\<close>, which also rewrites an entry that is already present.
\<close>

definition inter_flags :: u64 where
  "inter_flags = (PRESENT OR WRITABLE) OR USER"

definition create_table :: "vm \<Rightarrow> phys_addr \<Rightarrow> nat \<Rightarrow> phys_addr res \<times> vm" where
  "create_table s t i = (case vm_allocate_frame s of
     (None, s) \<Rightarrow> (Inl ''Out of memory'', s)
   | (Some frame, s) \<Rightarrow>
       (Inr frame, write_entry (zero_page s frame) t i (set_address frame inter_flags)))"

definition get_or_create :: "vm \<Rightarrow> phys_addr \<Rightarrow> nat \<Rightarrow> phys_addr res \<times> vm" where
  "get_or_create s t i =
     (if is_present (pmem s t i) then (Inr (physical_address (pmem s t i)), s)
      else create_table s t i)"

definition get_or_create_exec :: "vm \<Rightarrow> phys_addr \<Rightarrow> nat \<Rightarrow> phys_addr res \<times> vm" where
  "get_or_create_exec s t i =
     (if is_present (pmem s t i)
      then let addr = physical_address (pmem s t i)
           in (Inr addr, write_entry s t i (set_address addr inter_flags))
      else create_table s t i)"

definition map_page :: "phys_addr \<Rightarrow> vm \<Rightarrow> virt_addr \<Rightarrow> phys_addr \<Rightarrow> u64 \<Rightarrow> unit res \<times> vm" where
  "map_page p4 s virt phys flags =
     (case get_or_create s p4 (p4_index virt) of
        (Inl e, s) \<Rightarrow> (Inl e, s)
      | (Inr p3, s) \<Rightarrow> (case get_or_create s p3 (p3_index virt) of
          (Inl e, s) \<Rightarrow> (Inl e, s)
        | (Inr p2, s) \<Rightarrow> (case get_or_create s p2 (p2_index virt) of
            (Inl e, s) \<Rightarrow> (Inl e, s)
          | (Inr p1, s) \<Rightarrow>
              if is_present (pmem s p1 (p1_index virt)) then (Inl ''Page already mapped'', s)
              else (Inr (), write_entry s p1 (p1_index virt) (set_address phys flags)))))"

definition map_executable ::
    "phys_addr \<Rightarrow> vm \<Rightarrow> virt_addr \<Rightarrow> phys_addr \<Rightarrow> u64 \<Rightarrow> unit res \<times> vm" where
  "map_executable p4 s virt phys flags =
     (case get_or_create_exec s p4 (p4_index virt) of
        (Inl e, s) \<Rightarrow> (Inl e, s)
      | (Inr p3, s) \<Rightarrow> (case get_or_create_exec s p3 (p3_index virt) of
          (Inl e, s) \<Rightarrow> (Inl e, s)
        | (Inr p2, s) \<Rightarrow> (case get_or_create_exec s p2 (p2_index virt) of
            (Inl e, s) \<Rightarrow> (Inl e, s)
          | (Inr p1, s) \<Rightarrow>
              (Inr (), write_entry s p1 (p1_index virt)
                 (set_address phys (flags AND NOT NO_EXECUTE))))))"

definition unmap_page :: "phys_addr \<Rightarrow> vm \<Rightarrow> virt_addr \<Rightarrow> phys_addr res \<times> vm" where
  "unmap_page p4 s virt =
     (let p3_entry = pmem s p4 (p4_index virt)
      in if \<not> is_present p3_entry then (Inl ''P3 not present'', s)
         else let p2_entry = pmem s (physical_address p3_entry) (p3_index virt)
         in if \<not> is_present p2_entry then (Inl ''P2 not present'', s)
         else let p1_entry = pmem s (physical_address p2_entry) (p2_index virt)
         in if \<not> is_present p1_entry then (Inl ''P1 not present'', s)
         else let p1 = physical_address p1_entry; entry = pmem s p1 (p1_index virt)
         in if \<not> is_present entry then (Inl ''Page not mapped'', s)
         else (Inr (PhysAddr_new (physical_address entry)),
               write_entry s p1 (p1_index virt) (set_present entry False)))"

definition translate :: "phys_addr \<Rightarrow> phys_mem \<Rightarrow> virt_addr \<Rightarrow> phys_addr option" where
  "translate p4 pm virt =
     (let p3_entry = pm p4 (p4_index virt)
      in if \<not> is_present p3_entry then None
         else let p2_entry = pm (physical_address p3_entry) (p3_index virt)
         in if \<not> is_present p2_entry then None
         else let p1_entry = pm (physical_address p2_entry) (p2_index virt)
         in if \<not> is_present p1_entry then None
         else let entry = pm (physical_address p1_entry) (p1_index virt)
         in if is_present entry
            then Some (PhysAddr_new (physical_address entry + of_nat (page_offset virt)))
            else None)"

fun map_mmio_pages :: "phys_addr \<Rightarrow> usize \<Rightarrow> vm \<Rightarrow> u64 \<Rightarrow> nat list \<Rightarrow> unit res \<times> vm" where
  "map_mmio_pages p4 hhdm s phys_addr [] = (Inr (), s)"
| "map_mmio_pages p4 hhdm s phys_addr (i # is) =
     (let page_phys = (phys_addr AND NOT 0xFFF) + of_nat (i * PAGE_SIZE);
          page_virt = page_phys + hhdm;
          phys = PhysAddr_new page_phys
      in if translate p4 (pmem s) page_virt \<noteq> None
         then map_mmio_pages p4 hhdm s phys_addr is
         else case map_page p4 s page_virt phys
                ((((PRESENT OR WRITABLE) OR NO_CACHE) OR WRITE_THROUGH) OR NO_EXECUTE) of
                (Inl e, s) \<Rightarrow> (Inl e, s)
              | (Inr _, s) \<Rightarrow> map_mmio_pages p4 hhdm s phys_addr is)"

definition map_mmio :: "phys_addr \<Rightarrow> usize \<Rightarrow> vm \<Rightarrow> u64 \<Rightarrow> usize \<Rightarrow> unit res \<times> vm" where
  "map_mmio p4 hhdm s phys_addr sz =
     (let num_pages = (sz + of_nat PAGE_SIZE - 1) div of_nat PAGE_SIZE
      in map_mmio_pages p4 hhdm s phys_addr [0..<unat num_pages])"

section \<open>Entries\<close>

lemma is_present_bit: "is_present e \<longleftrightarrow> bit e 0"
  by (simp add: is_present_def PRESENT_def word_bits and_exp_eq_0_iff [where n = 0, simplified])

lemma ADDR_MASK: "(0x000FFFFFFFFFF000 :: u64) = mask 52 AND NOT (mask 12)"
  by (simp add: mask_eq_exp_minus_1)

lemma FLAG_MASK: "(0xFFF :: u64) = mask 12"
  by (simp add: mask_eq_exp_minus_1)

lemma bit_NO_EXECUTE: "bit NO_EXECUTE n \<longleftrightarrow> n = 63"
  unfolding NO_EXECUTE_def by (simp only: bit_exp_word) simp

lemma bit_set_address:
  "bit (set_address a fl) n \<longleftrightarrow>
     (12 \<le> n \<and> n < 52 \<and> bit a n) \<or> (n < 12 \<and> bit fl n) \<or> (n = 63 \<and> bit fl 63)"
  unfolding set_address_def ADDR_MASK FLAG_MASK
  by (auto simp: bit_NO_EXECUTE bit_simps)

lemma bit_physical_address: "bit (physical_address e) n \<longleftrightarrow> 12 \<le> n \<and> n < 52 \<and> bit e n"
  unfolding physical_address_def ADDR_MASK by (auto simp: bit_simps)

lemma PhysAddr_new_eq: "PhysAddr_new = physical_address"
  by (simp add: fun_eq_iff PhysAddr_new_def physical_address_def)

lemma physical_address_idem [simp]: "physical_address (physical_address e) = physical_address e"
  by (rule bit_word_eqI) (auto simp: bit_physical_address)

lemma physical_address_set [simp]: "physical_address (set_address a fl) = physical_address a"
  by (rule bit_word_eqI) (auto simp: bit_physical_address bit_set_address)

lemma is_present_set [simp]: "is_present (set_address a fl) \<longleftrightarrow> is_present fl"
  by (simp add: is_present_bit bit_set_address)

lemma is_present_inter [simp]: "is_present inter_flags"
  by (simp add: is_present_bit inter_flags_def PRESENT_def bit_or_iff)

lemma is_present_set_present [simp]: "is_present (set_present e b) \<longleftrightarrow> b"
  by (simp add: is_present_bit set_present_def PRESENT_def bit_simps)

lemma not_present_0 [simp]: "\<not> is_present 0"
  by (simp add: is_present_bit)

lemma physical_address_set_present [simp]:
  "physical_address (set_present e b) = physical_address e"
  by (rule bit_word_eqI) (auto simp: bit_physical_address set_present_def PRESENT_def bit_simps)

lemma index_bound:
  "p4_index v < 512" "p3_index v < 512" "p2_index v < 512" "p1_index v < 512"
proof -
  have "(0x1FF :: u64) = mask 9" by (simp add: mask_eq_exp_minus_1)
  then show "p4_index v < 512" "p3_index v < 512" "p2_index v < 512" "p1_index v < 512"
    by (simp_all only: p4_index_def p3_index_def p2_index_def p1_index_def unat_and_mask)
      simp_all
qed

section \<open>Walking the tree of tables\<close>

definition child :: "phys_mem \<Rightarrow> phys_addr \<Rightarrow> nat \<Rightarrow> phys_addr option" where
  "child pm t i = (if is_present (pm t i) then Some (physical_address (pm t i)) else None)"

fun walk :: "phys_mem \<Rightarrow> phys_addr \<Rightarrow> nat list \<Rightarrow> phys_addr option" where
  "walk pm t [] = Some t"
| "walk pm t (i # is) = (case child pm t i of None \<Rightarrow> None | Some u \<Rightarrow> walk pm u is)"

text \<open>The entry a walk ends at; a walk that stops early reads as an absent entry.\<close>

definition leaf :: "phys_mem \<Rightarrow> phys_addr \<Rightarrow> nat list \<Rightarrow> nat \<Rightarrow> pte" where
  "leaf pm t is j = (case walk pm t is of None \<Rightarrow> 0 | Some p1 \<Rightarrow> pm p1 j)"

definition page_path :: "virt_addr \<Rightarrow> nat list" where
  "page_path v = [p4_index v, p3_index v, p2_index v]"

definition entry_of :: "phys_addr \<Rightarrow> phys_mem \<Rightarrow> virt_addr \<Rightarrow> pte" where
  "entry_of p4 pm v = leaf pm p4 (page_path v) (p1_index v)"

definition same_page :: "virt_addr \<Rightarrow> virt_addr \<Rightarrow> bool" where
  "same_page v w \<longleftrightarrow> page_path v = page_path w \<and> p1_index v = p1_index w"

lemma translate_entry:
  "translate p4 pm v =
     (let e = entry_of p4 pm v
      in if is_present e then Some (PhysAddr_new (physical_address e + of_nat (page_offset v)))
         else None)"
  by (simp add: translate_def entry_of_def page_path_def leaf_def child_def Let_def)

lemma walk_snoc:
  "walk pm t (is @ [i]) = (case walk pm t is of None \<Rightarrow> None | Some u \<Rightarrow> child pm u i)"
  by (induction "is" arbitrary: t) (auto split: option.splits)

primrec tables :: "phys_mem \<Rightarrow> phys_addr \<Rightarrow> nat \<Rightarrow> phys_addr set" where
  "tables pm p4 0 = {p4}"
| "tables pm p4 (Suc n) = {a. \<exists>t\<in>tables pm p4 n. \<exists>i<512. child pm t i = Some a}"

definition pt_disjoint :: "phys_addr \<Rightarrow> phys_mem \<Rightarrow> bool" where
  "pt_disjoint p4 pm \<longleftrightarrow> (\<forall>m n. m < n \<and> n \<le> 3 \<longrightarrow> tables pm p4 m \<inter> tables pm p4 n = {})"

definition pt_unshared :: "phys_addr \<Rightarrow> phys_mem \<Rightarrow> bool" where
  "pt_unshared p4 pm \<longleftrightarrow>
     (\<forall>n<3. \<forall>t\<in>tables pm p4 n. \<forall>u\<in>tables pm p4 n. \<forall>i<512. \<forall>j<512. \<forall>a.
        child pm t i = Some a \<and> child pm u j = Some a \<longrightarrow> t = u \<and> i = j)"

text \<open>
  The invariant of a page table: the tables of the four levels are pairwise different pages,
  no table is entered from two places, and all of them are allocated frames.
\<close>

definition pt_wf :: "phys_addr \<Rightarrow> vm \<Rightarrow> bool" where
  "pt_wf p4 s \<longleftrightarrow> fa_wf (frames s) \<and> pt_disjoint p4 (pmem s) \<and> pt_unshared p4 (pmem s) \<and>
     (\<forall>n\<le>3. tables (pmem s) p4 n \<subseteq> taken_addrs (frames s))"

lemma pt_levels:
  assumes "pt_disjoint p4 pm" and "t \<in> tables pm p4 m" and "t \<in> tables pm p4 n"
    and "m \<le> 3" and "n \<le> 3"
  shows "m = n"
  using assms unfolding pt_disjoint_def by (metis disjoint_iff linorder_less_linear)

lemma pt_unsharedD:
  assumes "pt_unshared p4 pm" and "n < 3" and "t \<in> tables pm p4 n" and "u \<in> tables pm p4 n"
    and "i < 512" and "j < 512" and "child pm t i = Some a" and "child pm u j = Some a"
  shows "t = u \<and> i = j"
  using assms unfolding pt_unshared_def by blast

lemma child_tables:
  "t \<in> tables pm p4 n \<Longrightarrow> i < 512 \<Longrightarrow> child pm t i = Some a \<Longrightarrow> a \<in> tables pm p4 (Suc n)"
  by auto

lemma walk_tables:
  "t \<in> tables pm p4 n \<Longrightarrow> set is \<subseteq> {..<512} \<Longrightarrow> walk pm t is = Some u \<Longrightarrow>
   u \<in> tables pm p4 (n + length is)"
proof (induction "is" arbitrary: t n)
  case Nil
  then show ?case by simp
next
  case (Cons i "is")
  then obtain b where b: "child pm t i = Some b" "walk pm b is = Some u"
    by (auto split: option.splits)
  with Cons.prems have "b \<in> tables pm p4 (Suc n)" by (intro child_tables) auto
  from Cons.IH [OF this] Cons.prems b show ?case by simp
qed

lemma walk_inj:
  "pt_unshared p4 pm \<Longrightarrow> t \<in> tables pm p4 n \<Longrightarrow> t' \<in> tables pm p4 n \<Longrightarrow>
   length is = length js \<Longrightarrow> n + length is \<le> 3 \<Longrightarrow> set is \<subseteq> {..<512} \<Longrightarrow> set js \<subseteq> {..<512} \<Longrightarrow>
   walk pm t is = Some u \<Longrightarrow> walk pm t' js = Some u \<Longrightarrow> t = t' \<and> is = js"
proof (induction "is" arbitrary: t t' n js)
  case Nil
  then show ?case by simp
next
  case (Cons i "is")
  then obtain j js' where js: "js = j # js'" by (cases js) auto
  from Cons.prems js obtain b b' where b: "child pm t i = Some b" "walk pm b is = Some u"
    and b': "child pm t' j = Some b'" "walk pm b' js' = Some u"
    by (auto split: option.splits)
  have "b \<in> tables pm p4 (Suc n)" and "b' \<in> tables pm p4 (Suc n)"
    using Cons.prems js b b' by (auto intro: child_tables)
  from Cons.IH [OF Cons.prems(1) this, of js'] Cons.prems js b b' have "b = b'" and "is = js'"
    by auto
  with Cons.prems js b b' show ?case
    using pt_unsharedD [OF Cons.prems(1) _ Cons.prems(2,3), of i j b] by auto
qed

section \<open>Effect of the updates on the tree\<close>

lemma tables_cong:
  assumes "\<And>m t i. m < n \<Longrightarrow> t \<in> tables pm p4 m \<Longrightarrow> i < 512 \<Longrightarrow> child pm' t i = child pm t i"
  shows "k \<le> n \<Longrightarrow> tables pm' p4 k = tables pm p4 k"
proof (induction k)
  case 0
  show ?case by simp
next
  case (Suc k)
  then have "tables pm' p4 k = tables pm p4 k" and "k < n" by auto
  with assms [of k] show ?case by (simp cong: bex_cong conj_cong)
qed

lemma walk_cong:
  assumes "\<And>m t i. m < 3 \<Longrightarrow> t \<in> tables pm p4 m \<Longrightarrow> i < 512 \<Longrightarrow> child pm' t i = child pm t i"
  shows "t \<in> tables pm p4 n \<Longrightarrow> n + length is \<le> 3 \<Longrightarrow> set is \<subseteq> {..<512} \<Longrightarrow>
    walk pm' t is = walk pm t is"
proof (induction "is" arbitrary: t n)
  case Nil
  then show ?case by simp
next
  case (Cons i "is")
  have eq: "child pm' t i = child pm t i" using assms [of n t i] Cons.prems by simp
  show ?case
  proof (cases "child pm t i")
    case None
    with eq show ?thesis by simp
  next
    case (Some b)
    then have "b \<in> tables pm p4 (Suc n)" using Cons.prems by (intro child_tables) auto
    from Cons.IH [OF this] Cons.prems Some eq show ?thesis by simp
  qed
qed

text \<open>
  Updates that keep every child pointer of the upper three levels keep the invariant and the
  walks.
\<close>

lemma pt_wf_same_children:
  assumes "pt_wf p4 s" and "fa_wf (frames s')"
    and "taken_addrs (frames s) \<subseteq> taken_addrs (frames s')"
    and same: "\<And>m t i. m < 3 \<Longrightarrow> t \<in> tables (pmem s) p4 m \<Longrightarrow> i < 512 \<Longrightarrow>
      child (pmem s') t i = child (pmem s) t i"
  shows "pt_wf p4 s'"
proof -
  have tb: "k \<le> 3 \<Longrightarrow> tables (pmem s') p4 k = tables (pmem s) p4 k" for k
    using same by (rule tables_cong)
  have "pt_disjoint p4 (pmem s')"
    using assms(1) tb unfolding pt_wf_def pt_disjoint_def by auto
  moreover have "pt_unshared p4 (pmem s')"
    unfolding pt_unshared_def
  proof (intro allI impI ballI)
    fix n t u i j a
    assume *: "n < 3" "t \<in> tables (pmem s') p4 n" "u \<in> tables (pmem s') p4 n" "i < 512" "j < 512"
      "child (pmem s') t i = Some a \<and> child (pmem s') u j = Some a"
    with tb [of n] have tu: "t \<in> tables (pmem s) p4 n" "u \<in> tables (pmem s) p4 n" by auto
    with * same have "child (pmem s) t i = Some a" "child (pmem s) u j = Some a" by metis+
    with assms(1) * tu show "t = u \<and> i = j"
      unfolding pt_wf_def by (blast dest: pt_unsharedD)
  qed
  moreover have "\<forall>n\<le>3. tables (pmem s') p4 n \<subseteq> taken_addrs (frames s')"
    using assms(1,3) tb unfolding pt_wf_def by (metis subset_trans)
  ultimately show ?thesis
    using assms(2) unfolding pt_wf_def by simp
qed

text \<open>A write to an entry of the lowest level changes exactly that entry.\<close>

lemma leaf_write:
  assumes wf: "pt_wf p4 s" and w: "walk (pmem s) p4 is = Some p1"
    and len: "length is = 3" "set is \<subseteq> {..<512}"
  shows "pt_wf p4 (write_entry s p1 j e)"
    and "length js = 3 \<Longrightarrow> set js \<subseteq> {..<512} \<Longrightarrow>
      leaf (pmem (write_entry s p1 j e)) p4 js k
        = (if js = is \<and> k = j then e else leaf (pmem s) p4 js k)"
proof -
  have p1: "p1 \<in> tables (pmem s) p4 3"
    using walk_tables [of p4 "pmem s" p4 0 "is" p1] w len by simp
  have dis: "pt_disjoint p4 (pmem s)" and uns: "pt_unshared p4 (pmem s)"
    using wf by (simp_all add: pt_wf_def)
  have same: "child (pmem (write_entry s p1 j e)) t i = child (pmem s) t i"
    if "m < 3" "t \<in> tables (pmem s) p4 m" "i < 512" for m t i
    using pt_levels [OF dis p1, of m] that by (auto simp: write_entry_def child_def)
  have fr: "frames (write_entry s p1 j e) = frames s" by (simp add: write_entry_def)
  show "pt_wf p4 (write_entry s p1 j e)"
    by (rule pt_wf_same_children [OF wf _ _ same]) (use wf in \<open>simp_all add: fr pt_wf_def\<close>)
  assume js: "length js = 3" "set js \<subseteq> {..<512}"
  have wk: "walk (pmem (write_entry s p1 j e)) p4 js = walk (pmem s) p4 js"
    by (rule walk_cong [OF same, where n = 0]) (use js in simp_all)
  have inj: "js = is" if "walk (pmem s) p4 js = Some p1"
    using walk_inj [OF uns, of p4 0 p4 js "is" p1] that w js len by simp
  show "leaf (pmem (write_entry s p1 j e)) p4 js k
        = (if js = is \<and> k = j then e else leaf (pmem s) p4 js k)"
  proof (cases "walk (pmem s) p4 js")
    case None
    with wk w show ?thesis by (auto simp: leaf_def)
  next
    case (Some q)
    then have "leaf (pmem (write_entry s p1 j e)) p4 js k
        = (if q = p1 \<and> k = j then e else pmem s q k)"
      by (simp add: leaf_def wk) (simp add: write_entry_def)
    moreover have "q = p1 \<longleftrightarrow> js = is" using inj Some w by auto
    ultimately show ?thesis using Some by (simp add: leaf_def)
  qed
qed

text \<open>
  Creating a table in an empty slot of an upper level adds one page to the next level and
  nothing else; every entry that can be reached reads as before.
\<close>

lemma create_tables:
  assumes dis: "pt_disjoint p4 pm" and t: "t \<in> tables pm p4 n" and n: "n < 3" and i: "i < 512"
    and free: "child pm t i = None" and fresh: "\<And>k. k \<le> 3 \<Longrightarrow> a \<notin> tables pm p4 k"
    and new: "child pm' t i = Some a" "\<And>j. child pm' a j = None"
    and old: "\<And>u j. u \<noteq> a \<Longrightarrow> (u, j) \<noteq> (t, i) \<Longrightarrow> child pm' u j = child pm u j"
  shows "k \<le> 3 \<Longrightarrow> tables pm' p4 k = (if k = Suc n then insert a (tables pm p4 k) else tables pm p4 k)"
proof (induction k)
  case 0
  show ?case by simp
next
  case (Suc k)
  have ta: "t \<noteq> a" using fresh [of n] t n by auto
  have eq: "child pm' u j = (if (u, j) = (t, i) then Some a else child pm u j)"
    if "u \<in> tables pm p4 k" for u j
    using old [of u j] new(1) fresh [of k] that Suc.prems by (cases "(u, j) = (t, i)") auto
  have "tables pm' p4 (Suc k) = {b. \<exists>u\<in>tables pm p4 k. \<exists>j<512. child pm' u j = Some b}"
    using Suc by (cases "k = Suc n") (simp_all add: new(2))
  also have "\<dots> = (if k = n then insert a (tables pm p4 (Suc k)) else tables pm p4 (Suc k))"
  proof (cases "k = n")
    case True
    have *: "child pm' u j = Some b \<longleftrightarrow> (u, j) = (t, i) \<and> b = a \<or> child pm u j = Some b"
      if "u \<in> tables pm p4 k" for u j b
      using eq [OF that, of j] free by auto
    have "(\<exists>u\<in>tables pm p4 k. \<exists>j<512. child pm' u j = Some b)
        \<longleftrightarrow> b = a \<or> (\<exists>u\<in>tables pm p4 k. \<exists>j<512. child pm u j = Some b)" for b
      using * t i True by blast
    with True show ?thesis by (simp add: set_eq_iff)
  next
    case False
    then have "t \<notin> tables pm p4 k" using pt_levels [OF dis t] n Suc.prems by auto
    then have "child pm' u j = child pm u j" if "u \<in> tables pm p4 k" for u j
      using eq [OF that, of j] that by auto
    with False show ?thesis by (simp cong: bex_cong)
  qed
  finally show ?case by (simp only: nat.inject)
qed

lemma create_leaf:
  assumes dis: "pt_disjoint p4 pm" and t: "t \<in> tables pm p4 n" and n: "n < 3"
    and free: "child pm t i = None" and fresh: "\<And>k. k \<le> 3 \<Longrightarrow> a \<notin> tables pm p4 k"
    and new: "child pm' t i = Some a" "pm' a = zero_table"
    and old: "\<And>u j. u \<noteq> a \<Longrightarrow> (u, j) \<noteq> (t, i) \<Longrightarrow> pm' u j = pm u j"
  shows "u \<in> tables pm p4 m \<Longrightarrow> m + length is = 3 \<Longrightarrow> set is \<subseteq> {..<512} \<Longrightarrow>
    leaf pm' u is j = leaf pm u is j"
proof (induction "is" arbitrary: u m)
  case Nil
  then have "u \<noteq> a" and "u \<noteq> t"
    using fresh [of m] pt_levels [OF dis t, of m] n by auto
  with old show ?case by (simp add: leaf_def)
next
  case (Cons x "is")
  have ua: "u \<noteq> a" using fresh [of m] Cons.prems by auto
  show ?case
  proof (cases "(u, x) = (t, i)")
    case True
    have "leaf pm' a is j = 0"
      using new(2) by (cases "is") (auto simp: leaf_def child_def zero_table_def)
    with True free new(1) show ?thesis by (simp add: leaf_def)
  next
    case False
    with old [OF ua] have eq: "child pm' u x = child pm u x" by (simp add: child_def)
    show ?thesis
    proof (cases "child pm u x")
      case None
      with eq show ?thesis by (simp add: leaf_def)
    next
      case (Some b)
      then have "b \<in> tables pm p4 (Suc m)" using Cons.prems by (intro child_tables) auto
      from Cons.IH [OF this] Cons.prems Some eq show ?thesis by (simp add: leaf_def)
    qed
  qed
qed

section \<open>One level of the descent\<close>

text \<open>
  A state extends another one when every walk is still there and every reachable lowest-level
  entry reads the same.
\<close>

definition pt_extends :: "phys_addr \<Rightarrow> vm \<Rightarrow> vm \<Rightarrow> bool" where
  "pt_extends p4 s s' \<longleftrightarrow> pt_wf p4 s' \<and>
     (\<forall>is u. length is \<le> 3 \<and> set is \<subseteq> {..<512} \<and> walk (pmem s) p4 is = Some u \<longrightarrow>
        walk (pmem s') p4 is = Some u) \<and>
     (\<forall>is j. length is = 3 \<and> set is \<subseteq> {..<512} \<longrightarrow>
        leaf (pmem s') p4 is j = leaf (pmem s) p4 is j)"

lemma pt_extends_refl: "pt_wf p4 s \<Longrightarrow> pt_extends p4 s s"
  by (simp add: pt_extends_def)

lemma pt_extends_trans: "pt_extends p4 r s \<Longrightarrow> pt_extends p4 s t \<Longrightarrow> pt_extends p4 r t"
  unfolding pt_extends_def by metis

lemma pt_extends_walk:
  "pt_extends p4 s s' \<Longrightarrow> walk (pmem s) p4 is = Some u \<Longrightarrow> length is \<le> 3 \<Longrightarrow>
   set is \<subseteq> {..<512} \<Longrightarrow> walk (pmem s') p4 is = Some u"
  unfolding pt_extends_def by blast

lemma pt_extends_wf: "pt_extends p4 s s' \<Longrightarrow> pt_wf p4 s'"
  by (simp add: pt_extends_def)

lemma walk_mono:
  assumes "\<And>m u j b. m < 3 \<Longrightarrow> u \<in> tables pm p4 m \<Longrightarrow> j < 512 \<Longrightarrow> child pm u j = Some b \<Longrightarrow>
    child pm' u j = Some b"
  shows "u \<in> tables pm p4 m \<Longrightarrow> m + length is \<le> 3 \<Longrightarrow> set is \<subseteq> {..<512} \<Longrightarrow>
    walk pm u is = Some v \<Longrightarrow> walk pm' u is = Some v"
proof (induction "is" arbitrary: u m)
  case Nil
  then show ?case by simp
next
  case (Cons i "is")
  then obtain b where b: "child pm u i = Some b" "walk pm b is = Some v"
    by (auto split: option.splits)
  have "child pm' u i = Some b"
    by (rule assms [of m]) (use Cons.prems b in auto)
  moreover have "b \<in> tables pm p4 (Suc m)" using Cons.prems b by (intro child_tables) auto
  from Cons.IH [OF this] Cons.prems b have "walk pm' b is = Some v" by simp
  ultimately show ?case by simp
qed

lemma vm_allocate_Some:
  assumes "fa_wf (frames s)" and "vm_allocate_frame s = (Some a, s')"
  shows "pmem s' = pmem s" and "fa_wf (frames s')" and "a \<notin> taken_addrs (frames s)"
    and "taken_addrs (frames s') = insert a (taken_addrs (frames s))" and "physical_address a = a"
proof -
  obtain fa where fa: "allocate (frames s) = (Some a, fa)" "s' = s\<lparr>frames := fa\<rparr>"
    using assms(2) by (auto simp: vm_allocate_frame_def split: prod.splits)
  show "pmem s' = pmem s" using fa by simp
  show "fa_wf (frames s')" using fsrc.alloc_wf [OF assms(1) fa(1)] fa by simp
  show "a \<notin> taken_addrs (frames s)" using fsrc.alloc_fresh [OF assms(1) fa(1)] .
  show "taken_addrs (frames s') = insert a (taken_addrs (frames s))"
    using fsrc.alloc_taken [OF assms(1) fa(1)] fa by simp
  show "physical_address a = a"
    using assms(1) fa(1) PhysAddr_new_frame_addr
    by (metis allocate_Some PhysAddr_new_eq)
qed

lemma vm_allocate_None:
  assumes "fa_wf (frames s)" and "vm_allocate_frame s = (None, s')"
  shows "pmem s' = pmem s" and "fa_wf (frames s')"
    and "taken_addrs (frames s') = taken_addrs (frames s)"
proof -
  obtain fa where fa: "allocate (frames s) = (None, fa)" "s' = s\<lparr>frames := fa\<rparr>"
    using assms(2) by (auto simp: vm_allocate_frame_def split: prod.splits)
  show "pmem s' = pmem s" using fa by simp
  show "fa_wf (frames s')" using fsrc.alloc_wf [OF assms(1) fa(1)] fa by simp
  show "taken_addrs (frames s') = taken_addrs (frames s)"
    using fsrc.alloc_none [OF assms(1) fa(1)] fa by simp
qed

text \<open>The page a successful creation adds, as the hypotheses of the lemmas on trees.\<close>

lemma create_table_Inr:
  assumes wf: "pt_wf p4 s" and t: "t \<in> tables (pmem s) p4 n" "n < 3"
    and free: "\<not> is_present (pmem s t i)" and cr: "create_table s t i = (Inr a, s')"
  shows "child (pmem s) t i = None" and "\<And>k. k \<le> 3 \<Longrightarrow> a \<notin> tables (pmem s) p4 k"
    and "child (pmem s') t i = Some a" and "pmem s' a = zero_table"
    and "\<And>u j. u \<noteq> a \<Longrightarrow> (u, j) \<noteq> (t, i) \<Longrightarrow> pmem s' u j = pmem s u j"
    and "fa_wf (frames s')" and "taken_addrs (frames s') = insert a (taken_addrs (frames s))"
proof -
  obtain s1 where s1: "vm_allocate_frame s = (Some a, s1)"
    and s': "s' = write_entry (zero_page s1 a) t i (set_address a inter_flags)"
    using cr by (auto simp: create_table_def split: prod.splits option.splits)
  have "fa_wf (frames s)" using wf by (simp add: pt_wf_def)
  note al = vm_allocate_Some [OF this s1]
  show "child (pmem s) t i = None" using free by (simp add: child_def)
  show fresh: "\<And>k. k \<le> 3 \<Longrightarrow> a \<notin> tables (pmem s) p4 k"
    using al(3) wf by (auto simp: pt_wf_def)
  have "t \<noteq> a" using fresh [of n] t by auto
  then show "child (pmem s') t i = Some a" and "pmem s' a = zero_table"
    and "\<And>u j. u \<noteq> a \<Longrightarrow> (u, j) \<noteq> (t, i) \<Longrightarrow> pmem s' u j = pmem s u j"
    using al(1,5) by (auto simp: s' write_entry_def zero_page_def child_def)
  show "fa_wf (frames s')" and "taken_addrs (frames s') = insert a (taken_addrs (frames s))"
    using al by (simp_all add: s' write_entry_def zero_page_def)
qed

lemma create_unshared:
  assumes uns: "pt_unshared p4 pm" and fresh: "\<And>k. k \<le> 3 \<Longrightarrow> a \<notin> tables pm p4 k"
    and tb: "\<And>k. k \<le> 3 \<Longrightarrow>
      tables pm' p4 k = (if k = Suc n then insert a (tables pm p4 k) else tables pm p4 k)"
    and eq: "\<And>u j. u \<noteq> a \<Longrightarrow> child pm' u j = (if (u, j) = (t, i) then Some a else child pm u j)"
    and none: "\<And>j. child pm' a j = None"
  shows "pt_unshared p4 pm'"
  unfolding pt_unshared_def
proof (intro allI impI ballI)
  fix m u v x y b
  assume m: "m < 3" and uv: "u \<in> tables pm' p4 m" "v \<in> tables pm' p4 m" and xy: "x < 512" "y < 512"
    and ch: "child pm' u x = Some b \<and> child pm' v y = Some b"
  then have ne: "u \<noteq> a" "v \<noteq> a" using none by auto
  with uv tb [of m] m have old: "u \<in> tables pm p4 m" "v \<in> tables pm p4 m" by (auto split: if_splits)
  have no_a: "child pm w z \<noteq> Some a" if "w \<in> tables pm p4 m" "z < 512" for w z
    using fresh [of "Suc m"] m that child_tables [of w pm p4 m z a] by auto
  show "u = v \<and> x = y"
  proof (cases "(u, x) = (t, i) \<or> (v, y) = (t, i)")
    case True
    with ch eq [OF ne(1), of x] eq [OF ne(2), of y] no_a [OF old(1) xy(1)] no_a [OF old(2) xy(2)]
    show ?thesis by (auto split: if_splits)
  next
    case False
    with ch eq [OF ne(1), of x] eq [OF ne(2), of y]
    have "child pm u x = Some b" "child pm v y = Some b" by auto
    then show ?thesis using pt_unsharedD [OF uns m old xy] by blast
  qed
qed

lemma create_step:
  assumes wf: "pt_wf p4 s" and t: "t \<in> tables (pmem s) p4 n" "n < 3" and i: "i < 512"
    and free: "\<not> is_present (pmem s t i)" and cr: "create_table s t i = (Inr a, s')"
  shows "pt_extends p4 s s'"
proof -
  note c = create_table_Inr [OF wf t free cr]
  have dis: "pt_disjoint p4 (pmem s)" and uns: "pt_unshared p4 (pmem s)"
    and tk: "k \<le> 3 \<Longrightarrow> tables (pmem s) p4 k \<subseteq> taken_addrs (frames s)" for k
    using wf by (simp_all add: pt_wf_def)
  have none: "child (pmem s') a j = None" for j
    using c(4) by (simp add: child_def zero_table_def)
  have eq: "child (pmem s') u j = (if (u, j) = (t, i) then Some a else child (pmem s) u j)"
    if "u \<noteq> a" for u j
    using c(3) c(5) [OF that, of j] by (auto simp: child_def)
  have tb: "tables (pmem s') p4 k
      = (if k = Suc n then insert a (tables (pmem s) p4 k) else tables (pmem s) p4 k)"
    if "k \<le> 3" for k
    by (rule create_tables [OF dis t i c(1) c(2) c(3) none _ that]) (auto simp: eq)
  have "pt_disjoint p4 (pmem s')"
    unfolding pt_disjoint_def
  proof (intro allI impI)
    fix m l :: nat assume ml: "m < l \<and> l \<le> 3"
    then have "tables (pmem s) p4 m \<inter> tables (pmem s) p4 l = {}"
      using dis by (simp add: pt_disjoint_def)
    with ml tb [of m] tb [of l] c(2) [of m] c(2) [of l]
    show "tables (pmem s') p4 m \<inter> tables (pmem s') p4 l = {}"
      by (auto simp del: tables.simps split: if_splits)
  qed
  moreover have "pt_unshared p4 (pmem s')"
    using uns c(2) tb eq none by (rule create_unshared)
  moreover have "tables (pmem s') p4 k \<subseteq> taken_addrs (frames s')" if "k \<le> 3" for k
    using tb [OF that] tk [OF that] c(7) by (auto simp del: tables.simps split: if_splits)
  ultimately have "pt_wf p4 s'" using c(6) by (simp add: pt_wf_def)
  moreover have "walk (pmem s') p4 is = Some u"
    if "length is \<le> 3" "set is \<subseteq> {..<512}" "walk (pmem s) p4 is = Some u" for "is" u
  proof (rule walk_mono [of "pmem s" p4 "pmem s'" p4 0])
    fix m u j b assume "m < (3::nat)" "u \<in> tables (pmem s) p4 m" "child (pmem s) u j = Some b"
    then show "child (pmem s') u j = Some b"
      using eq [of u j] c(1) c(2) [of m] by (cases "u = a") (auto split: if_splits)
  qed (use that in simp_all)
  moreover have "leaf (pmem s') p4 is j = leaf (pmem s) p4 is j"
    if "length is = 3" "set is \<subseteq> {..<512}" for "is" j
    by (rule create_leaf [OF dis t c(1) c(2) c(3) c(4) c(5), where m = 0]) (use that in simp_all)
  ultimately show ?thesis unfolding pt_extends_def by blast
qed

text \<open>
  A level of the descent, for both variants: it succeeds with the next table on the path, or it
  reports that memory is exhausted; in both cases nothing that was mapped changes.
\<close>

definition level_ok :: "phys_addr \<Rightarrow> vm \<Rightarrow> nat list \<Rightarrow> phys_addr res \<times> vm \<Rightarrow> bool" where
  "level_ok p4 s is r \<longleftrightarrow> pt_extends p4 s (snd r) \<and>
     (case fst r of Inl e \<Rightarrow> e = ''Out of memory'' | Inr a \<Rightarrow> walk (pmem (snd r)) p4 is = Some a)"

lemma create_table_level:
  assumes wf: "pt_wf p4 s" and w: "walk (pmem s) p4 is = Some t"
    and len: "length is < 3" "set is \<subseteq> {..<512}" and i: "i < 512"
    and free: "\<not> is_present (pmem s t i)"
  shows "level_ok p4 s (is @ [i]) (create_table s t i)"
proof (cases "create_table s t i")
  case (Pair r s')
  have t: "t \<in> tables (pmem s) p4 (length is)"
    using walk_tables [of p4 "pmem s" p4 0 "is" t] w len by simp
  show ?thesis
  proof (cases r)
    case (Inr a)
    with Pair have cr: "create_table s t i = (Inr a, s')" by simp
    note ext = create_step [OF wf t len(1) i free cr]
    have "walk (pmem s') p4 is = Some t"
      using pt_extends_walk [OF ext w] len by simp
    with create_table_Inr(3) [OF wf t len(1) free cr] ext Pair Inr show ?thesis
      by (simp add: level_ok_def walk_snoc)
  next
    case (Inl e)
    with Pair obtain "vm_allocate_frame s = (None, s')" and e: "e = ''Out of memory''"
      by (auto simp: create_table_def split: prod.splits option.splits)
    moreover have "fa_wf (frames s)" using wf by (simp add: pt_wf_def)
    ultimately have "pt_extends p4 s s'"
      using wf vm_allocate_None [of s s'] by (simp add: pt_extends_def pt_wf_def)
    with Pair Inl e show ?thesis by (simp add: level_ok_def)
  qed
qed

lemma get_or_create_level:
  assumes wf: "pt_wf p4 s" and w: "walk (pmem s) p4 is = Some t"
    and len: "length is < 3" "set is \<subseteq> {..<512}" and i: "i < 512"
  shows "level_ok p4 s (is @ [i]) (get_or_create s t i)"
proof (cases "is_present (pmem s t i)")
  case True
  with wf w show ?thesis
    by (simp add: get_or_create_def level_ok_def walk_snoc child_def pt_extends_refl)
next
  case False
  with create_table_level [OF assms] show ?thesis by (simp add: get_or_create_def)
qed

lemma rewrite_entry_extends:
  assumes wf: "pt_wf p4 s" and w: "walk (pmem s) p4 is = Some t"
    and len: "length is < 3" "set is \<subseteq> {..<512}" and pres: "is_present (pmem s t i)"
    and e: "is_present e" "physical_address e = physical_address (pmem s t i)"
  shows "pt_extends p4 s (write_entry s t i e)"
proof -
  let ?s = "write_entry s t i e"
  have t: "t \<in> tables (pmem s) p4 (length is)"
    using walk_tables [of p4 "pmem s" p4 0 "is" t] w len by simp
  have dis: "pt_disjoint p4 (pmem s)" using wf by (simp add: pt_wf_def)
  have same: "child (pmem ?s) u j = child (pmem s) u j" for u j
    using pres e by (simp add: write_entry_def child_def)
  have fr: "frames ?s = frames s" by (simp add: write_entry_def)
  have "pt_wf p4 ?s"
    by (rule pt_wf_same_children [OF wf _ _ same]) (use wf in \<open>simp_all add: fr pt_wf_def\<close>)
  moreover have wk: "walk (pmem ?s) p4 js = walk (pmem s) p4 js"
    if "length js \<le> 3" "set js \<subseteq> {..<512}" for js
    by (rule walk_cong [OF same, where n = 0]) (use that in simp_all)
  moreover have "leaf (pmem ?s) p4 js j = leaf (pmem s) p4 js j"
    if js: "length js = 3" "set js \<subseteq> {..<512}" for js j
  proof (cases "walk (pmem s) p4 js")
    case None
    with wk js show ?thesis by (simp add: leaf_def)
  next
    case (Some q)
    then have "q \<in> tables (pmem s) p4 3"
      using walk_tables [of p4 "pmem s" p4 0 js q] js by simp
    then have "q \<noteq> t" using pt_levels [OF dis t, of 3] len by auto
    then have "pmem ?s q = pmem s q" by (simp add: write_entry_def)
    with Some wk js show ?thesis by (simp add: leaf_def)
  qed
  ultimately show ?thesis by (simp add: pt_extends_def)
qed

lemma get_or_create_exec_level:
  assumes wf: "pt_wf p4 s" and w: "walk (pmem s) p4 is = Some t"
    and len: "length is < 3" "set is \<subseteq> {..<512}" and i: "i < 512"
  shows "level_ok p4 s (is @ [i]) (get_or_create_exec s t i)"
proof (cases "is_present (pmem s t i)")
  case True
  let ?a = "physical_address (pmem s t i)"
  let ?s = "write_entry s t i (set_address ?a inter_flags)"
  have ext: "pt_extends p4 s ?s"
    by (rule rewrite_entry_extends [OF wf w len True]) simp_all
  have "walk (pmem ?s) p4 is = Some t"
    using pt_extends_walk [OF ext w] len by simp
  moreover have "child (pmem ?s) t i = Some ?a"
    by (simp add: child_def write_entry_def)
  ultimately show ?thesis
    using True ext by (simp add: get_or_create_exec_def level_ok_def walk_snoc Let_def)
next
  case False
  with create_table_level [OF assms] show ?thesis by (simp add: get_or_create_exec_def)
qed

section \<open>The descent to the lowest table\<close>

text \<open>
  Both mapping routines run the same three levels; \<open>descend\<close> states them once, for a level
  function \<open>g\<close>.
\<close>

definition descend ::
    "(vm \<Rightarrow> phys_addr \<Rightarrow> nat \<Rightarrow> phys_addr res \<times> vm) \<Rightarrow> phys_addr \<Rightarrow> vm \<Rightarrow> virt_addr \<Rightarrow>
     phys_addr res \<times> vm" where
  "descend g p4 s virt =
     (case g s p4 (p4_index virt) of
        (Inl e, s) \<Rightarrow> (Inl e, s)
      | (Inr p3, s) \<Rightarrow> (case g s p3 (p3_index virt) of
          (Inl e, s) \<Rightarrow> (Inl e, s)
        | (Inr p2, s) \<Rightarrow> g s p2 (p2_index virt)))"

lemma level_okD:
  "level_ok p4 s is (Inr a, s') \<Longrightarrow> pt_extends p4 s s' \<and> walk (pmem s') p4 is = Some a"
  "level_ok p4 s is (Inl e, s') \<Longrightarrow> pt_extends p4 s s' \<and> e = ''Out of memory''"
  by (simp_all add: level_ok_def)

lemma level_ok_trans:
  "pt_extends p4 r s \<Longrightarrow> level_ok p4 s is x \<Longrightarrow> level_ok p4 r is x"
  by (auto simp: level_ok_def intro: pt_extends_trans)

lemma descend_level:
  assumes wf: "pt_wf p4 s"
    and g: "\<And>s t is i. pt_wf p4 s \<Longrightarrow> walk (pmem s) p4 is = Some t \<Longrightarrow> length is < 3 \<Longrightarrow>
      set is \<subseteq> {..<512} \<Longrightarrow> i < 512 \<Longrightarrow> level_ok p4 s (is @ [i]) (g s t i)"
  shows "level_ok p4 s (page_path v) (descend g p4 s v)"
proof (cases "g s p4 (p4_index v)")
  case l1: (Pair r1 s1)
  have ok1: "level_ok p4 s [p4_index v] (r1, s1)"
    using g [OF wf, of "[]" p4 "p4_index v"] l1 index_bound by simp
  show ?thesis
  proof (cases r1)
    case (Inl e)
    with l1 ok1 show ?thesis by (simp add: descend_def level_ok_def)
  next
    case r1: (Inr p3)
    with ok1 have e1: "pt_extends p4 s s1" and w1: "walk (pmem s1) p4 [p4_index v] = Some p3"
      by (simp_all add: level_ok_def)
    obtain r2 s2 where l2: "g s1 p3 (p3_index v) = (r2, s2)" by (cases "g s1 p3 (p3_index v)")
    have ok2: "level_ok p4 s1 [p4_index v, p3_index v] (r2, s2)"
      using g [OF pt_extends_wf [OF e1] w1, of "p3_index v"] l2 index_bound by simp
    show ?thesis
    proof (cases r2)
      case (Inl e)
      with l1 l2 r1 level_ok_trans [OF e1 ok2] show ?thesis by (simp add: descend_def level_ok_def)
    next
      case r2: (Inr p2)
      with ok2 have e2: "pt_extends p4 s1 s2"
        and w2: "walk (pmem s2) p4 [p4_index v, p3_index v] = Some p2"
        by (simp_all add: level_ok_def)
      have "level_ok p4 s2 (page_path v) (g s2 p2 (p2_index v))"
        using g [OF pt_extends_wf [OF e2] w2, of "p2_index v"] index_bound
        by (simp add: page_path_def)
      from level_ok_trans [OF pt_extends_trans [OF e1 e2] this] l1 l2 r1 r2
      show ?thesis by (simp add: descend_def)
    qed
  qed
qed

lemma map_page_descend:
  "map_page p4 s v phys fl =
     (case descend get_or_create p4 s v of
        (Inl e, s) \<Rightarrow> (Inl e, s)
      | (Inr p1, s) \<Rightarrow>
          if is_present (pmem s p1 (p1_index v)) then (Inl ''Page already mapped'', s)
          else (Inr (), write_entry s p1 (p1_index v) (set_address phys fl)))"
  by (simp add: map_page_def descend_def split: prod.split sum.split)

lemma map_executable_descend:
  "map_executable p4 s v phys fl =
     (case descend get_or_create_exec p4 s v of
        (Inl e, s) \<Rightarrow> (Inl e, s)
      | (Inr p1, s) \<Rightarrow>
          (Inr (), write_entry s p1 (p1_index v) (set_address phys (fl AND NOT NO_EXECUTE))))"
  by (simp add: map_executable_def descend_def split: prod.split sum.split)

section \<open>Mapping, unmapping and translating\<close>

lemma page_path_bound: "length (page_path v) = 3" "set (page_path v) \<subseteq> {..<512}"
  using index_bound by (simp_all add: page_path_def)

lemma entry_of_extends:
  "pt_extends p4 s s' \<Longrightarrow> entry_of p4 (pmem s') v = entry_of p4 (pmem s) v"
  using page_path_bound by (simp add: pt_extends_def entry_of_def)

lemma entry_of_write:
  assumes "pt_wf p4 s" and "walk (pmem s) p4 (page_path v) = Some p1"
  shows "entry_of p4 (pmem (write_entry s p1 (p1_index v) e)) w
    = (if same_page w v then e else entry_of p4 (pmem s) w)"
  using leaf_write(2) [OF assms page_path_bound page_path_bound]
  by (simp add: entry_of_def same_page_def)

lemma entry_of_walk: "walk pm p4 (page_path v) = Some p1 \<Longrightarrow> entry_of p4 pm v = pm p1 (p1_index v)"
  by (simp add: entry_of_def leaf_def)

text \<open>What a mapping routine may do to a well-formed page table.\<close>

definition map_outcome ::
    "phys_addr \<Rightarrow> vm \<Rightarrow> virt_addr \<Rightarrow> pte \<Rightarrow> unit res \<times> vm \<Rightarrow> bool" where
  "map_outcome p4 s v e r \<longleftrightarrow> pt_wf p4 (snd r) \<and>
     (\<forall>w. entry_of p4 (pmem (snd r)) w
        = (if fst r = Inr () \<and> same_page w v then e else entry_of p4 (pmem s) w))"

lemma map_page_outcome:
  assumes wf: "pt_wf p4 s"
  shows "map_outcome p4 s v (set_address phys fl) (map_page p4 s v phys fl)"
    and "fst (map_page p4 s v phys fl) \<in>
      (if is_present (entry_of p4 (pmem s) v) then {Inl ''Page already mapped'', Inl ''Out of memory''}
       else {Inr (), Inl ''Out of memory''})"
proof -
  obtain r s' where d: "descend get_or_create p4 s v = (r, s')" by fastforce
  have ok: "level_ok p4 s (page_path v) (r, s')"
    using descend_level [where g = get_or_create and v = v, OF wf get_or_create_level] d by simp
  then have ext: "pt_extends p4 s s'" by (simp add: level_ok_def)
  note same = entry_of_extends [OF ext]
  show "map_outcome p4 s v (set_address phys fl) (map_page p4 s v phys fl)"
    using ok d pt_extends_wf [OF ext]
    by (cases r) (auto simp: map_page_descend map_outcome_def level_ok_def same entry_of_write
      intro: leaf_write(1) [OF _ _ page_path_bound])
  show "fst (map_page p4 s v phys fl) \<in>
      (if is_present (entry_of p4 (pmem s) v) then {Inl ''Page already mapped'', Inl ''Out of memory''}
       else {Inr (), Inl ''Out of memory''})"
    using ok d by (cases r) (auto simp: map_page_descend level_ok_def entry_of_walk simp flip: same)
qed

lemma map_executable_outcome:
  assumes wf: "pt_wf p4 s"
  shows "map_outcome p4 s v (set_address phys (fl AND NOT NO_EXECUTE)) (map_executable p4 s v phys fl)"
    and "fst (map_executable p4 s v phys fl) \<in> {Inr (), Inl ''Out of memory''}"
proof -
  obtain r s' where d: "descend get_or_create_exec p4 s v = (r, s')" by fastforce
  have ok: "level_ok p4 s (page_path v) (r, s')"
    using descend_level [where g = get_or_create_exec and v = v, OF wf get_or_create_exec_level] d by simp
  then have ext: "pt_extends p4 s s'" by (simp add: level_ok_def)
  note same = entry_of_extends [OF ext]
  show "map_outcome p4 s v (set_address phys (fl AND NOT NO_EXECUTE)) (map_executable p4 s v phys fl)"
    using ok d pt_extends_wf [OF ext]
    by (cases r) (auto simp: map_executable_descend map_outcome_def level_ok_def same entry_of_write
      intro: leaf_write(1) [OF _ _ page_path_bound])
  show "fst (map_executable p4 s v phys fl) \<in> {Inr (), Inl ''Out of memory''}"
    using ok d by (cases r) (auto simp: map_executable_descend level_ok_def)
qed

text \<open>A level takes at most one frame, and fails only when no frame is left.\<close>

definition free_count :: "vm \<Rightarrow> nat" where
  "free_count s = MAX_FRAMES - card (allocated (frames s))"

definition level_mem :: "vm \<Rightarrow> phys_addr res \<times> vm \<Rightarrow> bool" where
  "level_mem s r \<longleftrightarrow> fa_wf (frames (snd r)) \<and> free_count s \<le> Suc (free_count (snd r)) \<and>
     (0 < free_count s \<longrightarrow> \<not> isl (fst r))"

lemma create_table_mem:
  assumes wf: "fa_wf (frames s)"
  shows "level_mem s (create_table s t i)"
proof (cases "allocate (frames s)")
  case (Pair r fa)
  have fin: "finite (allocated (frames s))"
    using allocated_bound finite_subset by blast
  show ?thesis
  proof (cases r)
    case None
    with Pair allocate_None [OF wf, of fa] wf show ?thesis
      by (simp add: create_table_def vm_allocate_frame_def level_mem_def free_count_def fa_wf_def
          allocated_def)
  next
    case (Some a)
    with Pair have "allocate (frames s) = (Some a, fa)" by simp
    with wf obtain f where "f \<notin> allocated (frames s)"
      "allocated fa = insert f (allocated (frames s))" "fa_wf fa" by (rule allocate_Some)
    with Pair Some fin show ?thesis
      by (simp add: create_table_def vm_allocate_frame_def level_mem_def free_count_def
          write_entry_def zero_page_def)
  qed
qed

lemma get_or_create_mem:
  assumes "fa_wf (frames s)"
  shows "level_mem s (get_or_create s t i)" and "level_mem s (get_or_create_exec s t i)"
  using assms create_table_mem [OF assms]
  by (simp_all add: get_or_create_def get_or_create_exec_def Let_def)
    (simp_all add: level_mem_def free_count_def write_entry_def)

lemma descend_succeeds:
  assumes wf: "fa_wf (frames s)" and "3 \<le> free_count s"
    and g: "\<And>s t i. fa_wf (frames s) \<Longrightarrow> level_mem s (g s t i)"
  shows "\<not> isl (fst (descend g p4 s v))"
proof -
  obtain r1 s1 where l1: "g s p4 (p4_index v) = (r1, s1)" by fastforce
  with g [OF wf, of p4 "p4_index v"] assms(2)
  have 1: "fa_wf (frames s1)" "2 \<le> free_count s1" "\<not> isl r1" by (simp_all add: level_mem_def)
  then obtain p3 where r1: "r1 = Inr p3" by (cases r1) auto
  obtain r2 s2 where l2: "g s1 p3 (p3_index v) = (r2, s2)" by fastforce
  with g [OF 1(1), of p3 "p3_index v"] 1
  have 2: "fa_wf (frames s2)" "1 \<le> free_count s2" "\<not> isl r2" by (simp_all add: level_mem_def)
  then obtain p2 where r2: "r2 = Inr p2" by (cases r2) auto
  with 2 g [OF 2(1), of p2 "p2_index v"] l1 l2 r1 show ?thesis
    by (simp add: descend_def level_mem_def)
qed

lemma unmap_page_outcome:
  fixes v :: virt_addr
  assumes wf: "pt_wf p4 s"
  defines "e \<equiv> entry_of p4 (pmem s) v"
  shows "is_present e \<Longrightarrow> fst (unmap_page p4 s v) = Inr (physical_address e)"
    and "is_present e \<Longrightarrow> pt_wf p4 (snd (unmap_page p4 s v)) \<and>
      (\<forall>w. entry_of p4 (pmem (snd (unmap_page p4 s v))) w
         = (if same_page w v then set_present e False else entry_of p4 (pmem s) w))"
    and "\<not> is_present e \<Longrightarrow> isl (fst (unmap_page p4 s v)) \<and> snd (unmap_page p4 s v) = s"
proof -
  have eq: "unmap_page p4 s v = (case walk (pmem s) p4 (page_path v) of
      Some p1 \<Rightarrow> if is_present e then (Inr (physical_address e),
          write_entry s p1 (p1_index v) (set_present e False)) else (Inl ''Page not mapped'', s)
    | None \<Rightarrow> (fst (unmap_page p4 s v), s))"
    and l: "walk (pmem s) p4 (page_path v) = None \<Longrightarrow> isl (fst (unmap_page p4 s v))"
    by (auto simp add: unmap_page_def e_def entry_of_def page_path_def leaf_def child_def Let_def
        PhysAddr_new_eq split: if_splits)
  have none: "walk (pmem s) p4 (page_path v) = None \<Longrightarrow> \<not> is_present e"
    by (simp add: e_def entry_of_def leaf_def)
  show "is_present e \<Longrightarrow> fst (unmap_page p4 s v) = Inr (physical_address e)"
    using none by (subst eq) (auto split: option.split)
  show "\<not> is_present e \<Longrightarrow> isl (fst (unmap_page p4 s v)) \<and> snd (unmap_page p4 s v) = s"
    using l by (subst eq, subst (2) eq) (auto split: option.split)
  assume p: "is_present e"
  with none obtain p1 where p1: "walk (pmem s) p4 (page_path v) = Some p1" by fastforce
  with eq p have "snd (unmap_page p4 s v) = write_entry s p1 (p1_index v) (set_present e False)"
    by simp
  then show "pt_wf p4 (snd (unmap_page p4 s v)) \<and>
      (\<forall>w. entry_of p4 (pmem (snd (unmap_page p4 s v))) w
         = (if same_page w v then set_present e False else entry_of p4 (pmem s) w))"
    using leaf_write(1) [OF wf p1 page_path_bound] entry_of_write [OF wf p1] by simp
qed

text \<open>A new top table is a well-formed page table that maps nothing.\<close>

lemma new_page_table_outcome:
  assumes wf: "fa_wf (frames s)" and new: "new_page_table s = (Some p4, s')"
  shows "pt_wf p4 s'" and "entry_of p4 (pmem s') v = 0" and "p4 \<notin> taken_addrs (frames s)"
    and "\<And>t. t \<noteq> p4 \<Longrightarrow> pmem s' t = pmem s t"
proof -
  obtain s1 where s1: "vm_allocate_frame s = (Some p4, s1)" and s': "s' = zero_page s1 p4"
    using new by (auto simp: new_page_table_def split: prod.splits option.splits)
  note al = vm_allocate_Some [OF wf s1]
  have ch: "child (pmem s') p4 i = None" for i
    by (simp add: s' child_def zero_page_def zero_table_def)
  then have empty: "tables (pmem s') p4 (Suc n) = {}" for n
    by (induction n) auto
  have tb: "tables (pmem s') p4 n = (if n = 0 then {p4} else {})" for n
    using empty by (cases n) (simp_all del: tables.simps(2))
  show "pt_wf p4 s'"
    unfolding pt_wf_def pt_disjoint_def pt_unshared_def tb
    using al ch by (simp add: s' zero_page_def)
  show "entry_of p4 (pmem s') v = 0"
    by (simp add: entry_of_def leaf_def page_path_def ch)
  show "p4 \<notin> taken_addrs (frames s)" using al by simp
  show "\<And>t. t \<noteq> p4 \<Longrightarrow> pmem s' t = pmem s t"
    using al by (simp add: s' zero_page_def)
qed

lemma page_offset_bound: "page_offset v < 4096"
  unfolding page_offset_def FLAG_MASK by (simp only: unat_and_mask) simp

lemma add_page_offset:
  assumes "n < 4096"
  shows "physical_address (physical_address e + of_nat n) = physical_address e"
proof -
  have "of_nat n = take_bit 12 (of_nat n :: u64)"
    using assms by (simp only: take_bit_of_nat) (simp add: take_bit_nat_eq_self)
  then have low: "bit (of_nat n :: u64) k \<Longrightarrow> k < 12" for k
    by (metis bit_take_bit_iff)
  then have "physical_address e + of_nat n = physical_address e OR of_nat n"
    by (intro disjunctive_add) (auto simp: bit_physical_address dest: low)
  moreover have "bit (physical_address (physical_address e OR of_nat n)) k
      = bit (physical_address e) k" for k
    using low [of k] by (auto simp: bit_physical_address bit_or_iff)
  ultimately show ?thesis
    by (intro bit_word_eqI) simp
qed

lemma translate_eq:
  "translate p4 pm v =
     (if is_present (entry_of p4 pm v) then Some (physical_address (entry_of p4 pm v)) else None)"
  by (simp only: translate_entry Let_def PhysAddr_new_eq add_page_offset [OF page_offset_bound])

text \<open>
  A state to try the operations on: the second megabyte is usable, and the first page table of
  the system has just been created.
\<close>

definition boot_vm :: vm where
  "boot_vm = \<lparr>frames = init_frames new_frame_allocator second_megabyte, pmem = (\<lambda>_. zero_table)\<rparr>"

lemma boot_vm_frames:
  "fa_wf (frames boot_vm)" "allocated (frames boot_vm) = {..<256} \<union> ({..<MAX_FRAMES} - {256..<512})"
  by (simp_all add: boot_vm_def init_frames_spec new_frame_allocator_wf second_megabyte_usable)

lemma boot_page_table:
  obtains p4 s where "new_page_table boot_vm = (Some p4, s)" "pt_wf p4 s" "3 \<le> free_count s"
    "\<And>v. entry_of p4 (pmem s) v = 0"
proof -
  have "256 \<notin> allocated (frames boot_vm)" "(256::nat) < MAX_FRAMES"
    by (simp_all add: boot_vm_frames MAX_FRAMES_def)
  then obtain a fa where al: "allocate (frames boot_vm) = (Some a, fa)"
    using allocate_None [OF boot_vm_frames(1)]
    by (cases "allocate (frames boot_vm)"; cases "fst (allocate (frames boot_vm))") auto
  with boot_vm_frames(1) obtain f where f: "allocated fa = insert f (allocated (frames boot_vm))"
    by (rule allocate_Some)
  define s where "s = zero_page (boot_vm\<lparr>frames := fa\<rparr>) a"
  have new: "new_page_table boot_vm = (Some a, s)"
    by (simp add: new_page_table_def vm_allocate_frame_def al s_def)
  have "allocated (frames boot_vm) = {..<MAX_FRAMES} - {256..<512}"
    unfolding boot_vm_frames(2) by (auto simp: MAX_FRAMES_def)
  moreover have "card ({..<MAX_FRAMES} - {256..<512}) = MAX_FRAMES - 256"
    by (subst card_Diff_subset) (auto simp: MAX_FRAMES_def)
  ultimately have "card (allocated (frames boot_vm)) = MAX_FRAMES - 256" by simp
  then have "card (allocated fa) \<le> MAX_FRAMES - 255"
    using card_insert_le_m1 [of "MAX_FRAMES - 255" "allocated (frames boot_vm)" f]
    by (simp add: f MAX_FRAMES_def)
  then have "3 \<le> free_count s" by (simp add: free_count_def s_def zero_page_def MAX_FRAMES_def)
  with that [OF new] new_page_table_outcome [OF boot_vm_frames(1) new] show ?thesis by blast
qed

text \<open>
  C2: \<^verbatim>\<open>map\<close> on a well-formed page table keeps it well-formed. When it succeeds, the
  page of \<^verbatim>\<open>virt\<close> translates to \<^verbatim>\<open>phys\<close> (for flags with \<^verbatim>\<open>PRESENT\<close>) and every other
  address translates as before; when it fails, every address does. It refuses a page that is
  mapped, and with three free frames it succeeds on one that is not.
\<close>

theorem map_page_correct:
  assumes "pt_wf p4 s" and "map_page p4 s virt phys fl = (r, s')"
  shows "pt_wf p4 s' \<and>
    (\<forall>v. translate p4 (pmem s') v =
       (if r = Inr () \<and> same_page v virt
        then if is_present fl then Some (PhysAddr_new phys) else None
        else translate p4 (pmem s) v)) \<and>
    (translate p4 (pmem s) virt \<noteq> None \<longrightarrow> isl r) \<and>
    (translate p4 (pmem s) virt = None \<and> 3 \<le> free_count s \<longrightarrow> r = Inr ())"
proof -
  have out: "map_outcome p4 s virt (set_address phys fl) (r, s')"
    and r: "r \<in> (if is_present (entry_of p4 (pmem s) virt)
      then {Inl ''Page already mapped'', Inl ''Out of memory''} else {Inr (), Inl ''Out of memory''})"
    using map_page_outcome [OF assms(1), of virt phys fl] assms(2) by simp_all
  have "r = Inr ()" if "translate p4 (pmem s) virt = None" "3 \<le> free_count s"
  proof -
    have "fa_wf (frames s)" using assms(1) by (simp add: pt_wf_def)
    from descend_succeeds [OF this that(2) get_or_create_mem(1)]
    have "\<not> isl (fst (descend get_or_create p4 s virt))" .
    with assms(2) have "r \<noteq> Inl ''Out of memory''"
      by (auto simp: map_page_descend split: prod.splits sum.splits if_splits)
    with r that show ?thesis by (auto simp: translate_eq split: if_splits)
  qed
  with out r show ?thesis
    by (auto simp: map_outcome_def translate_eq PhysAddr_new_eq split: if_splits)
qed

theorem map_page_correct_witness:
  "\<exists>p4 s s'. new_page_table boot_vm = (Some p4, s) \<and> pt_wf p4 s \<and>
     map_page p4 s 0x400123 0x5000 (PRESENT OR USER) = (Inr (), s') \<and>
     translate p4 (pmem s') 0x400000 = Some (PhysAddr_new 0x5000) \<and>
     translate p4 (pmem s') 0x401000 = None"
proof (rule boot_page_table)
  fix p4 s
  assume s: "new_page_table boot_vm = (Some p4, s)" "pt_wf p4 s" "3 \<le> free_count s"
    "\<And>v. entry_of p4 (pmem s) v = 0"
  obtain r s' where m: "map_page p4 s 0x400123 0x5000 (PRESENT OR USER) = (r, s')" by fastforce
  have "translate p4 (pmem s) v = None" for v using s(4) by (simp add: translate_eq)
  moreover have "same_page 0x400000 0x400123" "\<not> same_page 0x401000 0x400123"
    by (simp_all add: same_page_def page_path_def p4_index_def p3_index_def p2_index_def p1_index_def)
  moreover have "is_present (PRESENT OR USER)"
    by (simp add: is_present_bit PRESENT_def bit_or_iff)
  ultimately show ?thesis
    using map_page_correct [OF s(2) m] m s by auto
qed

text \<open>
  \<^verbatim>\<open>unmap\<close> undoes a mapping: on a mapped page it returns the page's frame,
  after which exactly the addresses of that page no longer translate; on a page that is not
  mapped it reports an error and changes nothing.
\<close>

theorem unmap_page_correct:
  assumes "pt_wf p4 s" and "unmap_page p4 s virt = (r, s')"
  shows "pt_wf p4 s' \<and>
    (\<forall>v. translate p4 (pmem s') v =
       (if same_page v virt then None else translate p4 (pmem s) v)) \<and>
    (case translate p4 (pmem s) virt of
       Some frame \<Rightarrow> r = Inr frame
     | None \<Rightarrow> isl r \<and> s' = s)"
proof (cases "is_present (entry_of p4 (pmem s) virt)")
  case True
  with unmap_page_outcome(1,2) [OF assms(1) True] assms(2) show ?thesis
    by (simp add: translate_eq)
next
  case False
  moreover have "entry_of p4 (pmem s) v = entry_of p4 (pmem s) virt" if "same_page v virt" for v
    using that by (simp add: same_page_def entry_of_def)
  ultimately show ?thesis
    using unmap_page_outcome(3) [OF assms(1) False] assms
    by (auto simp: translate_eq)
qed

text \<open>
  \<^verbatim>\<open>translate\<close> never returns an offset within a page: whatever address of a mapped
  page is asked for, the answer is the base of the frame. The sum of frame and offset is passed
  through \<^verbatim>\<open>PhysAddr::new\<close>, which clears the low twelve bits again.
\<close>

theorem translate_drops_offset:
  "translate p4 pm v =
     (if is_present (entry_of p4 pm v) then Some (physical_address (entry_of p4 pm v)) else None)
   \<and> (same_page v w \<longrightarrow> translate p4 pm v = translate p4 pm w)"
  by (simp add: translate_eq same_page_def entry_of_def)

text \<open>What \<^verbatim>\<open>map_mmio\<close> does on the way: mapped addresses stay mapped to the same frame.\<close>

definition mmio_page :: "u64 \<Rightarrow> nat \<Rightarrow> u64" where
  "mmio_page phys_addr i = (phys_addr AND NOT 0xFFF) + of_nat (i * PAGE_SIZE)"

lemma map_mmio_pages_Cons:
  "map_mmio_pages p4 hhdm s phys_addr (i # is) =
     (let v = mmio_page phys_addr i + hhdm
      in if translate p4 (pmem s) v \<noteq> None then map_mmio_pages p4 hhdm s phys_addr is
         else case map_page p4 s v (PhysAddr_new (mmio_page phys_addr i))
                ((((PRESENT OR WRITABLE) OR NO_CACHE) OR WRITE_THROUGH) OR NO_EXECUTE) of
                (Inl e, s) \<Rightarrow> (Inl e, s)
              | (Inr _, s) \<Rightarrow> map_mmio_pages p4 hhdm s phys_addr is)"
  by (simp only: map_mmio_pages.simps mmio_page_def Let_def)

lemma is_present_mmio_flags:
  "is_present ((((PRESENT OR WRITABLE) OR NO_CACHE) OR WRITE_THROUGH) OR NO_EXECUTE)"
  by (simp add: is_present_bit PRESENT_def bit_or_iff)

lemma map_mmio_pages_outcome:
  "pt_wf p4 s \<Longrightarrow> map_mmio_pages p4 hhdm s phys_addr is = (r, s') \<Longrightarrow>
   pt_wf p4 s' \<and>
   (\<forall>v. translate p4 (pmem s) v \<noteq> None \<longrightarrow> translate p4 (pmem s') v = translate p4 (pmem s) v) \<and>
   (r = Inr () \<longrightarrow> (\<forall>i\<in>set is. translate p4 (pmem s') (mmio_page phys_addr i + hhdm) \<noteq> None))"
proof (induction "is" arbitrary: s)
  case Nil
  then show ?case by simp
next
  case (Cons i "is")
  let ?v = "mmio_page phys_addr i + hhdm"
  show ?case
  proof (cases "translate p4 (pmem s) ?v")
    case (Some f)
    then have "map_mmio_pages p4 hhdm s phys_addr is = (r, s')"
      using Cons.prems(2) by (simp add: map_mmio_pages_Cons del: map_mmio_pages.simps)
    from Cons.IH [OF Cons.prems(1) this] Some show ?thesis by auto
  next
    case None
    let ?fl = "(((PRESENT OR WRITABLE) OR NO_CACHE) OR WRITE_THROUGH) OR NO_EXECUTE"
    obtain q t where m: "map_page p4 s ?v (PhysAddr_new (mmio_page phys_addr i)) ?fl = (q, t)"
      by fastforce
    with map_page_outcome(1) [OF Cons.prems(1)]
    have out: "map_outcome p4 s ?v (set_address (PhysAddr_new (mmio_page phys_addr i)) ?fl) (q, t)"
      by metis
    have wf: "pt_wf p4 t" using out by (simp add: map_outcome_def)
    have keep: "translate p4 (pmem t) v = translate p4 (pmem s) v"
      if "translate p4 (pmem s) v \<noteq> None" for v
    proof -
      have "\<not> same_page v ?v"
        using that None by (auto simp: translate_eq same_page_def entry_of_def split: if_splits)
      with out show ?thesis by (simp add: map_outcome_def translate_eq)
    qed
    show ?thesis
    proof (cases q)
      case (Inl e)
      with Cons.prems(2) None m have "r = Inl e" "s' = t"
        by (simp_all add: map_mmio_pages_Cons del: map_mmio_pages.simps)
      with wf keep show ?thesis by simp
    next
      case (Inr u)
      with out have now: "translate p4 (pmem t) ?v \<noteq> None"
        using is_present_mmio_flags by (simp add: map_outcome_def translate_eq same_page_def)
      from Inr Cons.prems(2) None m have "map_mmio_pages p4 hhdm t phys_addr is = (r, s')"
        by (simp add: map_mmio_pages_Cons del: map_mmio_pages.simps)
      from Cons.IH [OF wf this] keep now show ?thesis by auto
    qed
  qed
qed

text \<open>
  \<^verbatim>\<open>map_mmio\<close> makes a device region accessible without disturbing the address space:
  on success, unless rounding the size up to pages wraps around, every page of the region is mapped at its direct-map address, and, also on failure,
  every address that was mapped before keeps its frame.
\<close>

theorem map_mmio_correct:
  assumes "pt_wf p4 s" and "map_mmio p4 hhdm s phys_addr sz = (r, s')" and "sz \<le> - 0x1000"
  shows "pt_wf p4 s' \<and>
    (\<forall>v frame. translate p4 (pmem s) v = Some frame \<longrightarrow> translate p4 (pmem s') v = Some frame) \<and>
    (r = Inr () \<longrightarrow> (\<forall>i. i * PAGE_SIZE < unat sz \<longrightarrow>
       translate p4 (pmem s') (mmio_page phys_addr i + hhdm) \<noteq> None))"
proof -
  have "unat sz \<le> unat (- 0x1000 :: u64)" using assms(3) by (simp add: word_le_nat_alt)
  then have "unat (sz + 0xFFF) = unat sz + 0xFFF" by (subst unat_add_lem [THEN iffD1]) simp_all
  then have "unat ((sz + of_nat PAGE_SIZE - 1) div of_nat PAGE_SIZE) = (unat sz + 0xFFF) div 0x1000"
    by (simp add: PAGE_SIZE_def unat_div add_diff_eq [symmetric])
  then have "i \<in> set [0..<unat ((sz + of_nat PAGE_SIZE - 1) div of_nat PAGE_SIZE)]" if "i * PAGE_SIZE < unat sz" for i
    using that by (simp add: PAGE_SIZE_def)
  with map_mmio_pages_outcome [OF assms(1) assms(2) [unfolded map_mmio_def Let_def]] show ?thesis
    by auto
qed

end
