(* ===== verification/Heap.thy ===== *)
theory Heap
  imports Paging
begin

text \<open>
  \<^verbatim>\<open>kernel/src/memory/heap.rs\<close>: the kernel heap, a first-fit allocator over a free list that
  is threaded through the free memory itself. The list nodes live in an explicit store from
  addresses to \<^verbatim>\<open>FreeBlock\<close> headers, so that a write to one header is visible through every
  pointer to it. Two headers never overlap, because every block of the list is at least a header
  long (part of the invariant \<open>heap_wf\<close>). The loops of the code follow \<^verbatim>\<open>next\<close> pointers and would
  not end on a cyclic list; they are partial functions, and the lemmas show that they return.

  The lemmas relate the pointer structure to the list of free blocks it represents, show that
  this list stays sorted, disjoint and coalesced, and that live allocations never overlap.
\<close>

section \<open>Definitions\<close>

definition HEAP_START :: usize where "HEAP_START = 0xFFFF800000000000"
definition KERNEL_HEAP_SIZE :: usize where "KERNEL_HEAP_SIZE = 100 * 1024 * 1024"

text \<open>\<^verbatim>\<open>core::mem::size_of::<FreeBlock>()\<close>: two machine words.\<close>

definition FREE_BLOCK_SIZE :: usize where "FREE_BLOCK_SIZE = 16"

record free_block =
  fb_size :: usize
  fb_next :: "usize option"

record linked_list_allocator =
  free_list :: "usize option"
  heap_start :: usize
  heap_end :: usize
  heap_allocated :: usize
  store :: "usize \<Rightarrow> free_block"

record layout =
  lsize :: usize
  lalign :: usize

definition NonNull_new :: "usize \<Rightarrow> usize option" where
  "NonNull_new p = (if p = 0 then None else Some p)"

definition new_allocator :: "(usize \<Rightarrow> free_block) \<Rightarrow> linked_list_allocator" where
  "new_allocator m =
     \<lparr>free_list = None, heap_start = 0, heap_end = 0, heap_allocated = 0, store = m\<rparr>"

definition write_block :: "linked_list_allocator \<Rightarrow> usize \<Rightarrow> free_block \<Rightarrow> linked_list_allocator" where
  "write_block h p b = h\<lparr>store := (store h)(p := b)\<rparr>"

text \<open>
  \<^verbatim>\<open>init\<close>: one frame per page of the heap; the result of \<^verbatim>\<open>map\<close> is ignored, running out of
  frames is a panic.
\<close>

fun map_heap_pages :: "phys_addr \<Rightarrow> vm \<Rightarrow> nat list \<Rightarrow> vm res" where
  "map_heap_pages pt s [] = Inr s"
| "map_heap_pages pt s (off # offs) = (case vm_allocate_frame s of
     (None, s) \<Rightarrow> Inl ''Failed to allocate heap page''
   | (Some frame, s) \<Rightarrow>
       map_heap_pages pt
         (snd (map_page pt s (HEAP_START + of_nat off) frame ((PRESENT OR WRITABLE) OR NO_EXECUTE)))
         offs)"

definition init_free_list :: "linked_list_allocator \<Rightarrow> linked_list_allocator" where
  "init_free_list h =
     (write_block (h\<lparr>heap_start := HEAP_START, heap_end := HEAP_START + KERNEL_HEAP_SIZE\<rparr>)
        HEAP_START \<lparr>fb_size = KERNEL_HEAP_SIZE, fb_next = None\<rparr>)
     \<lparr>free_list := NonNull_new HEAP_START\<rparr>"

definition heap_init ::
    "linked_list_allocator \<Rightarrow> phys_addr \<Rightarrow> vm \<Rightarrow> (linked_list_allocator \<times> vm) res" where
  "heap_init h pt s =
     (case map_heap_pages pt s (map (\<lambda>i. i * PAGE_SIZE) [0..<unat KERNEL_HEAP_SIZE div PAGE_SIZE]) of
        Inl e \<Rightarrow> Inl e
      | Inr s \<Rightarrow> Inr (init_free_list h, s))"

text \<open>The size both operations work with.\<close>

definition block_size :: "layout \<Rightarrow> usize" where
  "block_size l = align_up (max (lsize l) FREE_BLOCK_SIZE) (lalign l)"

text \<open>The assignment to \<^verbatim>\<open>prev.next\<close>, or to the head of the list when there is no \<^verbatim>\<open>prev\<close>.\<close>

definition link :: "linked_list_allocator \<Rightarrow> usize option \<Rightarrow> usize option \<Rightarrow> linked_list_allocator" where
  "link h prev q = (case prev of
     Some p \<Rightarrow> write_block h p ((store h p)\<lparr>fb_next := q\<rparr>)
   | None \<Rightarrow> h\<lparr>free_list := q\<rparr>)"

definition take_block ::
    "usize \<Rightarrow> usize \<Rightarrow> linked_list_allocator \<Rightarrow> usize option \<Rightarrow> usize \<Rightarrow> usize \<times> linked_list_allocator" where
  "take_block sz align h prev node =
     (let node_ref = store h node;
          alloc_start = align_up node align;
          required_size = (alloc_start - node) + sz;
          alloc_end = alloc_start + sz;
          h = (if required_size + FREE_BLOCK_SIZE < fb_size node_ref
               then link (write_block h alloc_end
                       \<lparr>fb_size = fb_size node_ref - required_size, fb_next = fb_next node_ref\<rparr>)
                     prev (NonNull_new alloc_end)
               else link h prev (fb_next node_ref))
      in (alloc_start, h\<lparr>heap_allocated := heap_allocated h + sz\<rparr>))"

partial_function (option) alloc_loop ::
    "usize \<Rightarrow> usize \<Rightarrow> linked_list_allocator \<Rightarrow> usize option \<Rightarrow> usize option \<Rightarrow>
     (usize \<times> linked_list_allocator) option" where
  "alloc_loop sz align h prev current = (case current of
     None \<Rightarrow> Some (0, h)
   | Some node \<Rightarrow>
       if (align_up node align - node) + sz \<le> fb_size (store h node)
       then Some (take_block sz align h prev node)
       else alloc_loop sz align h current (fb_next (store h node)))"

definition alloc_impl ::
    "linked_list_allocator \<Rightarrow> layout \<Rightarrow> (usize \<times> linked_list_allocator) option" where
  "alloc_impl h l = alloc_loop (block_size l) (lalign l) h None (free_list h)"

text \<open>The search for the place of a block: the pointers \<^verbatim>\<open>prev\<close> and \<^verbatim>\<open>current\<close> around it.\<close>

partial_function (option) find_place ::
    "usize \<Rightarrow> linked_list_allocator \<Rightarrow> usize option \<Rightarrow> usize option \<Rightarrow>
     (usize option \<times> usize option) option" where
  "find_place addr h prev current = (case current of
     None \<Rightarrow> Some (prev, None)
   | Some node \<Rightarrow>
       if addr < node then Some (prev, Some node)
       else find_place addr h current (fb_next (store h node)))"

definition merge_next ::
    "linked_list_allocator \<Rightarrow> usize \<Rightarrow> usize \<Rightarrow> usize option \<Rightarrow> linked_list_allocator" where
  "merge_next h addr sz current = (case current of
     Some node \<Rightarrow>
       if node = addr + sz
       then write_block h addr
         \<lparr>fb_size = sz + fb_size (store h node), fb_next = fb_next (store h node)\<rparr>
       else write_block h addr \<lparr>fb_size = sz, fb_next = current\<rparr>
   | None \<Rightarrow> write_block h addr \<lparr>fb_size = sz, fb_next = None\<rparr>)"

definition merge_prev ::
    "linked_list_allocator \<Rightarrow> usize \<Rightarrow> usize option \<Rightarrow> linked_list_allocator" where
  "merge_prev h addr prev = (case prev of
     Some p \<Rightarrow>
       if p + fb_size (store h p) = addr
       then write_block h p
         \<lparr>fb_size = fb_size (store h p) + fb_size (store h addr), fb_next = fb_next (store h addr)\<rparr>
       else write_block h p ((store h p)\<lparr>fb_next := NonNull_new addr\<rparr>)
   | None \<Rightarrow> h\<lparr>free_list := NonNull_new addr\<rparr>)"

definition dealloc_impl ::
    "linked_list_allocator \<Rightarrow> usize \<Rightarrow> layout \<Rightarrow> linked_list_allocator option" where
  "dealloc_impl h ptr l = (let sz = block_size l in
     case find_place ptr h None (free_list h) of
       None \<Rightarrow> None
     | Some (prev, current) \<Rightarrow>
         let h = merge_prev (merge_next h ptr sz current) ptr prev
         in Some (h\<lparr>heap_allocated := heap_allocated h - sz\<rparr>))"

definition available :: "linked_list_allocator \<Rightarrow> usize" where
  "available h = (if heap_allocated h \<le> KERNEL_HEAP_SIZE then KERNEL_HEAP_SIZE - heap_allocated h else 0)"

definition heap_get_stats :: "linked_list_allocator \<Rightarrow> usize \<times> usize" where
  "heap_get_stats h = (heap_allocated h, available h)"

section \<open>The free list as a list\<close>

text \<open>\<open>seg m c xs d\<close>: following \<^verbatim>\<open>next\<close> from \<open>c\<close> visits the blocks \<open>xs\<close> and arrives at \<open>d\<close>.\<close>

type_synonym block = "usize \<times> usize"

fun seg :: "(usize \<Rightarrow> free_block) \<Rightarrow> usize option \<Rightarrow> block list \<Rightarrow> usize option \<Rightarrow> bool" where
  "seg m c [] d \<longleftrightarrow> c = d"
| "seg m c ((a, s) # xs) d \<longleftrightarrow> c = Some a \<and> fb_size (m a) = s \<and> seg m (fb_next (m a)) xs d"

lemma seg_append: "seg m c (xs @ ys) d \<longleftrightarrow> (\<exists>e. seg m c xs e \<and> seg m e ys d)"
  by (induction xs arbitrary: c) auto

lemma seg_update: "a \<notin> fst ` set xs \<Longrightarrow> seg (m(a := b)) c xs d \<longleftrightarrow> seg m c xs d"
  by (induction xs arbitrary: c) auto

definition before :: "block \<Rightarrow> block \<Rightarrow> bool" where
  "before x y \<longleftrightarrow> unat (fst x) + unat (snd x) < unat (fst y)"

definition block_ok :: "linked_list_allocator \<Rightarrow> block \<Rightarrow> bool" where
  "block_ok h x \<longleftrightarrow> unat (heap_start h) \<le> unat (fst x) \<and> 16 \<le> unat (snd x) \<and>
     unat (fst x) + unat (snd x) \<le> unat (heap_end h)"

text \<open>
  The invariant: the pointers represent the list \<open>bl\<close>; its blocks lie in the heap, hold at least a
  header, and are sorted by address with a gap between neighbours: they are disjoint, and
  adjacent free memory has always been merged.
\<close>

definition heap_wf :: "linked_list_allocator \<Rightarrow> block list \<Rightarrow> bool" where
  "heap_wf h bl \<longleftrightarrow> 16 \<le> unat (heap_start h) \<and> seg (store h) (free_list h) bl None \<and>
     sorted_wrt before bl \<and> (\<forall>x\<in>set bl. block_ok h x)"

definition bytes :: "block \<Rightarrow> nat set" where
  "bytes x = {unat (fst x)..<unat (fst x) + unat (snd x)}"

definition free_bytes :: "block list \<Rightarrow> nat set" where
  "free_bytes bl = (\<Union>x\<in>set bl. bytes x)"

lemma free_bytes_simps [simp]:
  "free_bytes [] = {}" "free_bytes (x # bl) = bytes x \<union> free_bytes bl"
  "free_bytes (bl @ bl') = free_bytes bl \<union> free_bytes bl'"
  by (simp_all add: free_bytes_def)

lemma before_distinct: "sorted_wrt before bl \<Longrightarrow> distinct (map fst bl)"
  by (induction bl) (force simp: before_def)+

text \<open>The pointer \<^verbatim>\<open>prev\<close> of a loop that has passed the blocks \<open>pre\<close>.\<close>

definition prev_of :: "block list \<Rightarrow> usize option" where
  "prev_of pre = (if pre = [] then None else Some (fst (last pre)))"

lemma prev_of_simps [simp]: "prev_of [] = None" "prev_of (pre @ [x]) = Some (fst x)"
  by (simp_all add: prev_of_def)

lemma link_fields [simp]:
  "heap_start (link h prev q) = heap_start h" "heap_end (link h prev q) = heap_end h"
  "heap_allocated (link h prev q) = heap_allocated h"
  by (simp_all add: link_def write_block_def split: option.split)

lemma write_block_fields [simp]:
  "heap_start (write_block h p b) = heap_start h" "heap_end (write_block h p b) = heap_end h"
  "heap_allocated (write_block h p b) = heap_allocated h"
  "free_list (write_block h p b) = free_list h"
  "store (write_block h p b) = (store h)(p := b)"
  by (simp_all add: write_block_def)

text \<open>Linking replaces what follows \<open>pre\<close>.\<close>

lemma link_seg:
  assumes "seg (store h) (free_list h) pre c" and "distinct (map fst (pre @ post))"
    and "seg (store h) q post None"
  shows "seg (store (link h (prev_of pre) q)) (free_list (link h (prev_of pre) q)) (pre @ post) None"
proof (cases pre rule: rev_cases)
  case Nil
  with assms show ?thesis by (simp add: link_def)
next
  case (snoc ys x)
  obtain p s where x: "x = (p, s)" by (cases x)
  have new: "p \<notin> fst ` set ys" "p \<notin> fst ` set post" using assms(2) snoc x by auto
  from assms(1) snoc x have "seg (store h) (free_list h) ys (Some p)" "fb_size (store h p) = s"
    by (auto simp: seg_append)
  with new assms(3) snoc x show ?thesis
    by (simp add: link_def seg_append seg_update)
qed

section \<open>First fit\<close>

text \<open>\<open>alloc_list\<close>: the search on the list that the pointers represent.\<close>

definition required :: "usize \<Rightarrow> usize \<Rightarrow> usize \<Rightarrow> usize" where
  "required sz align a = (align_up a align - a) + sz"

fun alloc_list :: "usize \<Rightarrow> usize \<Rightarrow> block list \<Rightarrow> (usize \<times> block list) option" where
  "alloc_list sz align [] = None"
| "alloc_list sz align ((a, s) # bl) =
     (if required sz align a \<le> s
      then Some (align_up a align,
             (if required sz align a + FREE_BLOCK_SIZE < s
              then [(align_up a align + sz, s - required sz align a)] else []) @ bl)
      else map_option (map_prod id ((#) (a, s))) (alloc_list sz align bl))"

text \<open>Alignment in modular arithmetic: the padding is smaller than the alignment.\<close>

lemma and_mask_le_mask: "(w :: 'a::len word) AND mask k \<le> mask k"
  by (metis and.commute word_and_le1 and.right_idem)

lemma padding_mask: "align_up a (2 ^ k) - a = mask k - ((a + mask k) AND mask k)"
proof -
  have "(a + mask k) AND NOT (mask k) = (a + mask k) - ((a + mask k) AND mask k)"
    by (metis and_plus_and_not add_diff_cancel_left')
  moreover have "a + 2 ^ k - 1 = a + mask k"
    by (simp only: add_diff_eq [symmetric] exp_minus_1_mask)
  ultimately show ?thesis
    by (simp only: align_up_def exp_minus_1_mask) simp
qed

lemma unat_mask_less: "unat (mask k :: 'a::len word) < 2 ^ k"
proof -
  have "unat (mask k AND mask k :: 'a word) < 2 ^ k"
    by (simp only: unat_and_mask) simp
  then show ?thesis by simp
qed

lemma unat_padding: "unat (align_up a (2 ^ k) - a) < 2 ^ k"
proof -
  have "unat (mask k - ((a + mask k) AND mask k)) \<le> unat (mask k :: u64)"
    by (meson and_mask_le_mask word_le_nat_alt word_sub_le)
  then show ?thesis
    by (simp only: padding_mask) (rule le_less_trans [OF _ unat_mask_less])
qed

text \<open>
  What \<^verbatim>\<open>Layout\<close> guarantees: the alignment is a power of two, and the size rounded up to it
  does not exceed \<^verbatim>\<open>isize::MAX\<close>.
\<close>

definition layout_ok :: "layout \<Rightarrow> bool" where
  "layout_ok l \<longleftrightarrow> (\<exists>k<63. lalign l = 2 ^ k \<and> unat (lsize l) + 2 ^ k \<le> 2 ^ 63)"

lemma div_mult_bounds:
  fixes m d :: nat
  assumes "0 < d"
  shows "m \<le> (m + d - 1) div d * d" and "(m + d - 1) div d * d \<le> m + d - 1"
proof -
  have "(m + d - 1) mod d < d" using assms by simp
  moreover have "(m + d - 1) div d * d + (m + d - 1) mod d = m + d - 1" by simp
  ultimately show "m \<le> (m + d - 1) div d * d" by linarith
  show "(m + d - 1) div d * d \<le> m + d - 1" by simp
qed

lemma block_size_bounds:
  assumes "layout_ok l"
  shows "16 \<le> unat (block_size l)" and "unat (lsize l) \<le> unat (block_size l)"
    and "unat (block_size l) \<le> 2 ^ 63"
proof -
  from assms obtain k where k: "k < 63" "lalign l = 2 ^ k" "unat (lsize l) + 2 ^ k \<le> 2 ^ 63"
    by (auto simp: layout_ok_def)
  let ?m = "max (lsize l) FREE_BLOCK_SIZE"
  have m: "unat ?m = max (unat (lsize l)) 16"
    by (simp add: FREE_BLOCK_SIZE_def max_def word_le_nat_alt)
  have "(2 :: nat) ^ k \<le> 2 ^ 62" using k by (intro power_increasing) auto
  with m k have bound: "unat ?m + 2 ^ k - 1 \<le> 2 ^ 63" by auto
  then have eq: "unat (block_size l) = (unat ?m + 2 ^ k - 1) div 2 ^ k * 2 ^ k"
    unfolding block_size_def k(2) using k by (intro unat_align_up) auto
  note b = div_mult_bounds [of "2 ^ k" "unat ?m"]
  from b m eq show "16 \<le> unat (block_size l)" and "unat (lsize l) \<le> unat (block_size l)" by simp_all
  show "unat (block_size l) \<le> 2 ^ 63"
    unfolding eq by (rule le_trans [OF b(2) bound]) simp
qed

lemma is_aligned_align_up: "is_aligned (align_up a (2 ^ k)) (2 ^ k)"
  unfolding is_aligned_def align_up_def exp_minus_1_mask
  by (rule bit_word_eqI) (auto simp: bit_simps)

lemma unat_required:
  assumes "k < 63" and "unat sz \<le> 2 ^ 63"
  shows "unat (required sz (2 ^ k) a) = unat (align_up a (2 ^ k) - a) + unat sz"
proof -
  have "(2 :: nat) ^ k \<le> 2 ^ 62" using assms by (intro power_increasing) auto
  with unat_padding [of a k] assms(2) show ?thesis
    unfolding required_def by (intro unat_plus_simple [THEN iffD1]) (simp add: no_olen_add_nat)
qed

lemma fit_arith:
  assumes ok: "block_ok h (a, s)" and k: "k < 63" and sz: "unat sz \<le> 2 ^ 63"
    and fit: "required sz (2 ^ k) a \<le> s"
  shows "unat (align_up a (2 ^ k)) = unat a + unat (align_up a (2 ^ k) - a)"
    and "unat (align_up a (2 ^ k) + sz) = unat a + unat (required sz (2 ^ k) a)"
    and "unat (s - required sz (2 ^ k) a) = unat s - unat (required sz (2 ^ k) a)"
proof -
  let ?p = "align_up a (2 ^ k)"
  note req = unat_required [OF k sz, of a]
  have le: "unat a + unat (required sz (2 ^ k) a) < 2 ^ 64"
    using ok fit unat_less_u64 [of "heap_end h"] by (simp add: block_ok_def word_le_nat_alt)
  have "unat (a + (?p - a)) = unat a + unat (?p - a)"
    using le req by (subst unat_add_lem [THEN iffD1]) simp_all
  then show p: "unat ?p = unat a + unat (?p - a)" by simp
  show "unat (?p + sz) = unat a + unat (required sz (2 ^ k) a)"
    using le req p by (subst unat_add_lem [THEN iffD1]) simp_all
  show "unat (s - required sz (2 ^ k) a) = unat s - unat (required sz (2 ^ k) a)"
    using fit by (rule unat_sub)
qed

text \<open>The invariant of the list, without the pointers.\<close>

definition blocks_ok :: "linked_list_allocator \<Rightarrow> block list \<Rightarrow> bool" where
  "blocks_ok h bl \<longleftrightarrow> sorted_wrt before bl \<and> (\<forall>x\<in>set bl. block_ok h x)"

lemma alloc_list_correct:
  assumes "16 \<le> unat (heap_start h)" and k: "k < 63" and sz: "16 \<le> unat sz" "unat sz \<le> 2 ^ 63"
  shows "blocks_ok h bl \<Longrightarrow> alloc_list sz (2 ^ k) bl = Some (p, bl') \<Longrightarrow>
    blocks_ok h bl' \<and> block_ok h (p, sz) \<and> is_aligned p (2 ^ k) \<and>
    bytes (p, sz) \<union> free_bytes bl' \<subseteq> free_bytes bl \<and> bytes (p, sz) \<inter> free_bytes bl' = {} \<and>
    (\<forall>y\<in>set bl'. \<exists>x\<in>set bl. unat (fst x) \<le> unat (fst y))"
proof (induction bl arbitrary: bl')
  case Nil
  then show ?case by simp
next
  case (Cons x bl)
  obtain a s where x: "x = (a, s)" by (cases x)
  have ok: "block_ok h (a, s)" and bl: "blocks_ok h bl" and bef: "\<forall>y\<in>set bl. before (a, s) y"
    using Cons.prems(1) x by (auto simp: blocks_ok_def)
  have out: "unat a + unat s < n" if "n \<in> free_bytes bl" for n
    using that bef by (auto simp: free_bytes_def bytes_def before_def)
  show ?case
  proof (cases "required sz (2 ^ k) a \<le> s")
    case True
    let ?req = "required sz (2 ^ k) a" and ?p = "align_up a (2 ^ k)"
    note ar = fit_arith [OF ok k sz(2) True] unat_required [OF k sz(2), of a]
    have fit: "unat ?req \<le> unat s" using True by (simp add: word_le_nat_alt)
    define rest where
      "rest = (if ?req + FREE_BLOCK_SIZE < s then [(?p + sz, s - ?req)] else [])"
    have res: "p = ?p" "bl' = rest @ bl"
      using Cons.prems(2) True x by (simp_all add: rest_def)
    have "unat (?req + FREE_BLOCK_SIZE) = unat ?req + 16"
      using fit ok assms(1) unat_less_u64 [of "heap_end h"]
      by (subst unat_add_lem [THEN iffD1]) (simp_all add: FREE_BLOCK_SIZE_def block_ok_def)
    then have rest: "y = (?p + sz, s - ?req) \<and> unat ?req + 16 < unat s" if "y \<in> set rest" for y
      using that by (simp add: rest_def word_less_nat_alt split: if_splits)
    have "length rest \<le> 1" by (simp add: rest_def)
    then have "sorted_wrt before rest" by (cases rest) simp_all
    then have "blocks_ok h bl'"
      using rest bl bef ok fit ar unfolding res(2) blocks_ok_def sorted_wrt_append
      by (force simp: before_def block_ok_def)
    moreover have "free_bytes rest \<subseteq> {unat a + unat ?req..<unat a + unat s}"
      using rest fit ar by (auto simp: free_bytes_def bytes_def)
    ultimately show ?thesis
      using ok fit ar sz out rest res x is_aligned_align_up [of a k]
      by (fastforce simp: block_ok_def bytes_def)
  next
    case False
    then obtain bl'' where rec: "alloc_list sz (2 ^ k) bl = Some (p, bl'')" "bl' = x # bl''"
      using Cons.prems(2) x by auto
    note ih = Cons.IH [OF bl rec(1)]
    then have "\<forall>y\<in>set bl''. before (a, s) y" using bef by (fastforce simp: before_def)
    moreover have "bytes (p, sz) \<inter> bytes (a, s) = {}"
      using ih out by (fastforce simp: bytes_def)
    ultimately show ?thesis
      using ih ok rec(2) x by (auto simp: blocks_ok_def)
  qed
qed

text \<open>The loop over the pointers computes \<^const>\<open>alloc_list\<close>, and it returns.\<close>

definition list_step ::
    "linked_list_allocator \<Rightarrow> usize \<Rightarrow> block list \<Rightarrow> linked_list_allocator \<Rightarrow> bool" where
  "list_step h counter bl h' \<longleftrightarrow> seg (store h') (free_list h') bl None \<and> heap_start h' = heap_start h \<and>
     heap_end h' = heap_end h \<and> heap_allocated h' = counter"

lemma take_block_list:
  assumes pre: "seg (store h) (free_list h) pre (Some a)"
    and bl: "fb_size (store h a) = s" "seg (store h) (fb_next (store h a)) bl None"
    and fit: "required sz align a \<le> s"
    and res: "alloc_list sz align ((a, s) # bl) = Some (p, bl')"
    and dis: "distinct (map fst (pre @ bl'))"
    and nz: "align_up a align + sz \<noteq> 0"
  shows "fst (take_block sz align h (prev_of pre) a) = p \<and>
    list_step h (heap_allocated h + sz) (pre @ bl') (snd (take_block sz align h (prev_of pre) a))"
proof (cases "required sz align a + FREE_BLOCK_SIZE < s")
  case True
  let ?e = "align_up a align + sz" and ?r = "s - required sz align a"
  let ?h = "write_block h ?e \<lparr>fb_size = ?r, fb_next = fb_next (store h a)\<rparr>"
  have eq: "p = align_up a align" "bl' = (?e, ?r) # bl" using res fit True by auto
  with dis have new: "?e \<notin> fst ` set pre" "?e \<notin> fst ` set bl" by auto
  have "seg (store ?h) (free_list ?h) pre (Some a)" and "seg (store ?h) (Some ?e) bl' None"
    using pre bl new eq by (simp_all add: seg_update)
  from link_seg [OF this(1) dis this(2)] show ?thesis
    using eq bl True nz
    by (simp add: take_block_def Let_def required_def list_step_def NonNull_new_def)
next
  case False
  with res fit have eq: "p = align_up a align" "bl' = bl" by simp_all
  from link_seg [OF pre dis] bl(2) eq have
    "seg (store (link h (prev_of pre) (fb_next (store h a))))
       (free_list (link h (prev_of pre) (fb_next (store h a)))) (pre @ bl') None" by simp
  with eq bl False show ?thesis
    by (simp add: take_block_def Let_def required_def list_step_def)
qed

lemma alloc_loop_list:
  assumes bounds: "16 \<le> unat (heap_start h)" and k: "k < 63"
    and sz: "16 \<le> unat sz" "unat sz \<le> 2 ^ 63"
  shows "seg (store h) (free_list h) pre cur \<Longrightarrow> seg (store h) cur bl None \<Longrightarrow>
    blocks_ok h (pre @ bl) \<Longrightarrow>
    alloc_list sz (2 ^ k) (pre @ bl) = map_option (map_prod id ((@) pre)) (alloc_list sz (2 ^ k) bl) \<Longrightarrow>
    (case alloc_list sz (2 ^ k) bl of
       None \<Rightarrow> alloc_loop sz (2 ^ k) h (prev_of pre) cur = Some (0, h)
     | Some (p, bl') \<Rightarrow> \<exists>h'. alloc_loop sz (2 ^ k) h (prev_of pre) cur = Some (p, h') \<and>
         list_step h (heap_allocated h + sz) (pre @ bl') h')"
proof (induction bl arbitrary: pre cur)
  case Nil
  then show ?case by (subst alloc_loop.simps) simp
next
  case (Cons x bl)
  obtain a s where x: "x = (a, s)" by (cases x)
  from Cons.prems(2) x have a: "cur = Some a" "fb_size (store h a) = s"
    "seg (store h) (fb_next (store h a)) bl None" by auto
  show ?case
  proof (cases "required sz (2 ^ k) a \<le> s")
    case True
    then obtain p bl' where res: "alloc_list sz (2 ^ k) ((a, s) # bl) = Some (p, bl')" by simp
    with Cons.prems(4) x have "alloc_list sz (2 ^ k) (pre @ x # bl) = Some (p, pre @ bl')" by simp
    from alloc_list_correct [OF bounds k sz Cons.prems(3) this]
    have dis: "distinct (map fst (pre @ bl'))"
      by (intro before_distinct) (simp add: blocks_ok_def)
    have "block_ok h (a, s)" using Cons.prems(3) x by (simp add: blocks_ok_def)
    from fit_arith(2) [OF this k sz(2) True] this bounds have nz: "align_up a (2 ^ k) + sz \<noteq> 0"
      by (auto simp: block_ok_def)
    obtain q h' where tk: "take_block sz (2 ^ k) h (prev_of pre) a = (q, h')" by fastforce
    then have "alloc_loop sz (2 ^ k) h (prev_of pre) cur = Some (q, h')"
      using a True by (subst alloc_loop.simps) (simp add: required_def)
    with take_block_list [OF Cons.prems(1) [unfolded a(1)] a(2,3) True res dis nz] tk x res
    show ?thesis by (simp del: alloc_list.simps)
  next
    case False
    with a have step: "alloc_loop sz (2 ^ k) h (prev_of pre) cur =
        alloc_loop sz (2 ^ k) h (prev_of (pre @ [x])) (fb_next (store h a))"
      using x by (subst alloc_loop.simps) (simp add: required_def)
    have "seg (store h) (free_list h) (pre @ [x]) (fb_next (store h a))"
      using Cons.prems(1) a x by (auto simp: seg_append)
    moreover have "alloc_list sz (2 ^ k) ((pre @ [x]) @ bl) =
        map_option (map_prod id ((@) (pre @ [x]))) (alloc_list sz (2 ^ k) bl)"
      using Cons.prems(4) False x by (cases "alloc_list sz (2 ^ k) bl") auto
    ultimately show ?thesis
      using Cons.IH [of "pre @ [x]"] Cons.prems(3) a False x step by (auto split: option.splits)
  qed
qed

section \<open>Insertion with merging\<close>

definition head_of :: "block list \<Rightarrow> usize option" where
  "head_of bl = (case bl of [] \<Rightarrow> None | x # _ \<Rightarrow> Some (fst x))"

definition join_next :: "usize \<Rightarrow> usize \<Rightarrow> block list \<Rightarrow> block list" where
  "join_next addr sz post = (case post of
     [] \<Rightarrow> [(addr, sz)]
   | (q, t) # r \<Rightarrow> if q = addr + sz then (addr, sz + t) # r else (addr, sz) # post)"

definition join_prev :: "block list \<Rightarrow> block list \<Rightarrow> block list" where
  "join_prev pre nb =
     (if pre = [] then nb
      else let (p, s) = last pre
           in if p + s = fst (hd nb) then butlast pre @ (p, s + snd (hd nb)) # tl nb else pre @ nb)"

definition dealloc_list :: "usize \<Rightarrow> usize \<Rightarrow> block list \<Rightarrow> block list" where
  "dealloc_list addr sz bl =
     join_prev (takeWhile (\<lambda>x. fst x \<le> addr) bl) (join_next addr sz (dropWhile (\<lambda>x. fst x \<le> addr) bl))"

lemma seg_head: "seg m c bl None \<Longrightarrow> c = head_of bl"
  by (cases bl) (auto simp: head_of_def)

lemma find_place_list:
  "seg (store h) c bl None \<Longrightarrow>
   find_place addr h (prev_of pre) c =
     Some (prev_of (pre @ takeWhile (\<lambda>x. fst x \<le> addr) bl), head_of (dropWhile (\<lambda>x. fst x \<le> addr) bl))"
proof (induction bl arbitrary: pre c)
  case Nil
  then show ?case by (subst find_place.simps) (simp add: head_of_def)
next
  case (Cons x bl)
  obtain a s where x: "x = (a, s)" by (cases x)
  with Cons.prems have a: "c = Some a" "seg (store h) (fb_next (store h a)) bl None" by auto
  show ?case
  proof (cases "a \<le> addr")
    case True
    then have "\<not> addr < a" by simp
    then have "find_place addr h (prev_of pre) c =
        find_place addr h (prev_of (pre @ [x])) (fb_next (store h a))"
      using a x by (subst find_place.simps) simp
    with Cons.IH [OF a(2), of "pre @ [x]"] True x show ?thesis by simp
  next
    case False
    then have "addr < a" by simp
    with False a x show ?thesis by (subst find_place.simps) (simp add: head_of_def)
  qed
qed

lemma merge_next_list:
  assumes "seg (store h) (free_list h) pre c" and "seg (store h) c post None"
    and "addr \<notin> fst ` set (pre @ post)"
  shows "seg (store (merge_next h addr sz c)) (free_list (merge_next h addr sz c)) pre c"
    and "seg (store (merge_next h addr sz c)) (Some addr) (join_next addr sz post) None"
    and "heap_start (merge_next h addr sz c) = heap_start h"
      "heap_end (merge_next h addr sz c) = heap_end h"
      "heap_allocated (merge_next h addr sz c) = heap_allocated h"
proof -
  define b where "b = (case c of
      Some node \<Rightarrow> if node = addr + sz
        then \<lparr>fb_size = sz + fb_size (store h node), fb_next = fb_next (store h node)\<rparr>
        else \<lparr>fb_size = sz, fb_next = c\<rparr>
    | None \<Rightarrow> \<lparr>fb_size = sz, fb_next = None\<rparr>)"
  have eq: "merge_next h addr sz c = write_block h addr b"
    by (simp add: merge_next_def b_def split: option.split)
  show "seg (store (merge_next h addr sz c)) (free_list (merge_next h addr sz c)) pre c"
    using assms(1,3) by (simp add: eq seg_update image_Un)
  obtain r where r: "join_next addr sz post = (addr, fb_size b) # r" "set r \<subseteq> set post"
    "seg (store h) (fb_next b) r None"
  proof (cases post)
    case Nil
    with assms(2) show ?thesis by (intro that [of "[]"]) (simp_all add: b_def join_next_def)
  next
    case (Cons y ys)
    obtain q t where y: "y = (q, t)" by (cases y)
    with assms(2) Cons have q: "c = Some q" "fb_size (store h q) = t"
      "seg (store h) (fb_next (store h q)) ys None" by auto
    show ?thesis
    proof (cases "q = addr + sz")
      case True
      with q y Cons show ?thesis by (intro that [of ys]) (auto simp: b_def join_next_def)
    next
      case False
      with q y Cons show ?thesis by (intro that [of post]) (simp_all add: b_def join_next_def)
    qed
  qed
  with assms(3) have "addr \<notin> fst ` set r" by auto
  with r show "seg (store (merge_next h addr sz c)) (Some addr) (join_next addr sz post) None"
    by (simp add: eq seg_update)
qed (simp_all add: merge_next_def split: option.split)

lemma merge_prev_list:
  assumes pre: "seg (store h) (free_list h) pre c" and nb: "seg (store h) (Some addr) nb None"
    and dis: "distinct (map fst (pre @ nb))" and "addr \<noteq> 0"
  shows "seg (store (merge_prev h addr (prev_of pre))) (free_list (merge_prev h addr (prev_of pre)))
      (join_prev pre nb) None"
    and "heap_start (merge_prev h addr (prev_of pre)) = heap_start h"
      "heap_end (merge_prev h addr (prev_of pre)) = heap_end h"
      "heap_allocated (merge_prev h addr (prev_of pre)) = heap_allocated h"
proof -
  show "heap_start (merge_prev h addr (prev_of pre)) = heap_start h"
    "heap_end (merge_prev h addr (prev_of pre)) = heap_end h"
    "heap_allocated (merge_prev h addr (prev_of pre)) = heap_allocated h"
    by (simp_all add: merge_prev_def split: option.split)
  from nb obtain n r where r: "nb = (addr, n) # r" "fb_size (store h addr) = n"
    "seg (store h) (fb_next (store h addr)) r None" by (cases nb) auto
  show "seg (store (merge_prev h addr (prev_of pre))) (free_list (merge_prev h addr (prev_of pre)))
      (join_prev pre nb) None"
  proof (cases pre rule: rev_cases)
    case Nil
    with nb assms(4) show ?thesis by (simp add: merge_prev_def join_prev_def NonNull_new_def)
  next
    case (snoc ys x)
    obtain p s where x: "x = (p, s)" by (cases x)
    have new: "p \<notin> fst ` set ys" "p \<notin> fst ` set nb" "p \<notin> fst ` set r" "addr \<noteq> p"
      using dis snoc x r by auto
    from pre snoc x have ys: "seg (store h) (free_list h) ys (Some p)" "fb_size (store h p) = s"
      by (auto simp: seg_append)
    show ?thesis
    proof (cases "p + s = addr")
      case True
      define b where "b = \<lparr>fb_size = s + n, fb_next = fb_next (store h addr)\<rparr>"
      have "merge_prev h addr (prev_of pre) = write_block h p b"
        using True ys(2) r(2) unfolding snoc x by (simp add: merge_prev_def b_def)
      moreover have "join_prev pre nb = ys @ (p, s + n) # r"
        using True r(1) unfolding snoc x by (simp add: join_prev_def)
      moreover have "seg ((store h)(p := b)) (free_list h) (ys @ (p, s + n) # r) None"
        unfolding seg_append
        by (rule exI [of _ "Some p"]) (simp add: seg_update new ys(1) r(3) b_def)
      ultimately show ?thesis by simp
    next
      case False
      define b where "b = (store h p)\<lparr>fb_next := Some addr\<rparr>"
      have "merge_prev h addr (prev_of pre) = write_block h p b"
        using False ys(2) assms(4) unfolding snoc x by (simp add: merge_prev_def b_def NonNull_new_def)
      moreover have "join_prev pre nb = ys @ (p, s) # nb"
        using False r(1) unfolding snoc x by (simp add: join_prev_def)
      moreover have "seg ((store h)(p := b)) (free_list h) (ys @ (p, s) # nb) None"
        unfolding seg_append
        by (rule exI [of _ "Some p"]) (simp add: seg_update new ys nb b_def)
      ultimately show ?thesis by simp
    qed
  qed
qed

text \<open>
  On blocks inside the heap, word addition is addition, so the merged list is again sorted,
  separated and holds exactly the old bytes and the new ones.
\<close>

lemma block_end:
  assumes "block_ok h (a, s)"
  shows "unat (a + s) = unat a + unat s"
  using assms unat_less_u64 [of "heap_end h"]
  by (subst unat_add_lem [THEN iffD1]) (simp_all add: block_ok_def)

lemma join_ok:
  assumes "block_ok h (a, s)" and "block_ok h (b, t)" and "unat b = unat a + unat s"
  shows "block_ok h (a, s + t)" and "unat (s + t) = unat s + unat t"
    and "bytes (a, s + t) = bytes (a, s) \<union> bytes (b, t)"
proof -
  show st: "unat (s + t) = unat s + unat t"
    using assms unat_less_u64 [of "heap_end h"]
    by (subst unat_add_lem [THEN iffD1]) (simp_all add: block_ok_def)
  with assms show "block_ok h (a, s + t)" and "bytes (a, s + t) = bytes (a, s) \<union> bytes (b, t)"
    by (auto simp: block_ok_def bytes_def)
qed

lemma join_next_ok:
  assumes new: "block_ok h (addr, sz)" and post: "blocks_ok h post"
    and far: "\<forall>y\<in>set post. unat addr + unat sz \<le> unat (fst y)"
  shows "blocks_ok h (join_next addr sz post)"
    and "free_bytes (join_next addr sz post) = bytes (addr, sz) \<union> free_bytes post"
    and "\<forall>y\<in>set (join_next addr sz post). unat addr \<le> unat (fst y)"
    and "\<exists>n. hd (join_next addr sz post) = (addr, n)" and "join_next addr sz post \<noteq> []"
proof -
  show "\<forall>y\<in>set (join_next addr sz post). unat addr \<le> unat (fst y)"
    using far by (fastforce simp: join_next_def split: list.splits if_splits)
  show "\<exists>n. hd (join_next addr sz post) = (addr, n)" and "join_next addr sz post \<noteq> []"
    by (simp_all add: join_next_def split: list.split)
  have "blocks_ok h (join_next addr sz post) \<and>
      free_bytes (join_next addr sz post) = bytes (addr, sz) \<union> free_bytes post"
  proof (cases post)
    case Nil
    with new show ?thesis by (simp add: join_next_def blocks_ok_def)
  next
    case (Cons y r)
    obtain q t where y: "y = (q, t)" by (cases y)
    have q: "block_ok h (q, t)" "\<forall>z\<in>set r. before (q, t) z" "blocks_ok h r"
      using post Cons y by (auto simp: blocks_ok_def)
    show ?thesis
    proof (cases "q = addr + sz")
      case True
      then have u: "unat q = unat addr + unat sz" using block_end [OF new] by simp
      note j = join_ok [OF new q(1) u]
      have "\<forall>z\<in>set r. before (addr, sz + t) z" using q(2) j(2) u by (auto simp: before_def)
      with j q True Cons y show ?thesis by (auto simp: join_next_def blocks_ok_def)
    next
      case False
      then have "unat q \<noteq> unat addr + unat sz"
        using block_end [OF new] by (metis word_unat_eq_iff)
      with far Cons y have "unat addr + unat sz < unat q" by fastforce
      with q(2) have "\<forall>z\<in>set post. before (addr, sz) z" using Cons y by (fastforce simp: before_def)
      with post new False Cons y show ?thesis by (auto simp: join_next_def blocks_ok_def)
    qed
  qed
  then show "blocks_ok h (join_next addr sz post)"
    and "free_bytes (join_next addr sz post) = bytes (addr, sz) \<union> free_bytes post" by simp_all
qed

lemma join_prev_ok:
  assumes pre: "blocks_ok h pre" and nb: "blocks_ok h nb" "nb \<noteq> []" "hd nb = (addr, n)"
    and near: "\<forall>x\<in>set pre. unat (fst x) + unat (snd x) \<le> unat addr"
    and far: "\<forall>y\<in>set nb. unat addr \<le> unat (fst y)"
  shows "blocks_ok h (join_prev pre nb)" and "free_bytes (join_prev pre nb) = free_bytes pre \<union> free_bytes nb"
proof -
  obtain r where r: "nb = (addr, n) # r" using nb by (cases nb) auto
  have "blocks_ok h (join_prev pre nb) \<and> free_bytes (join_prev pre nb) = free_bytes pre \<union> free_bytes nb"
  proof (cases pre rule: rev_cases)
    case Nil
    with nb show ?thesis by (simp add: join_prev_def)
  next
    case (snoc ys x)
    obtain p s where x: "x = (p, s)" by (cases x)
    have p: "block_ok h (p, s)" "\<forall>z\<in>set ys. before z (p, s)" "blocks_ok h ys"
      using pre snoc x by (auto simp: blocks_ok_def sorted_wrt_append)
    have a: "block_ok h (addr, n)" "\<forall>z\<in>set r. before (addr, n) z" "blocks_ok h r"
      using nb(1) r by (auto simp: blocks_ok_def)
    show ?thesis
    proof (cases "p + s = addr")
      case True
      then have u: "unat addr = unat p + unat s" using block_end [OF p(1)] by simp
      note j = join_ok [OF p(1) a(1) u]
      have "\<forall>z\<in>set r. before (p, s + n) z" using a(2) j(2) u by (auto simp: before_def)
      moreover have "before y z" if "y \<in> set ys" "z \<in> set ((p, s + n) # r)" for y z
        using that p(2) a(2) u by (fastforce simp: before_def)
      ultimately show ?thesis
        using j p a r True snoc x by (auto simp: join_prev_def blocks_ok_def sorted_wrt_append)
    next
      case False
      then have "unat p + unat s \<noteq> unat addr"
        using block_end [OF p(1)] by (metis word_unat_eq_iff)
      then have "before (p, s) z" if "z \<in> set nb" for z
        using that near far snoc x by (fastforce simp: before_def)
      then have "before y z" if "y \<in> set pre" "z \<in> set nb" for y z
        using that p(2) snoc x by (fastforce simp: before_def)
      with pre nb False snoc x r show ?thesis
        by (auto simp: join_prev_def blocks_ok_def sorted_wrt_append)
    qed
  qed
  then show "blocks_ok h (join_prev pre nb)"
    and "free_bytes (join_prev pre nb) = free_bytes pre \<union> free_bytes nb" by simp_all
qed

lemma dealloc_list_ok:
  assumes bl: "blocks_ok h bl" and new: "block_ok h (addr, sz)"
    and dis: "bytes (addr, sz) \<inter> free_bytes bl = {}"
  shows "blocks_ok h (dealloc_list addr sz bl)"
    and "free_bytes (dealloc_list addr sz bl) = free_bytes bl \<union> bytes (addr, sz)"
    and "distinct (map fst (takeWhile (\<lambda>x. fst x \<le> addr) bl @
           join_next addr sz (dropWhile (\<lambda>x. fst x \<le> addr) bl)))"
    and "addr \<notin> fst ` set bl"
proof -
  define pre post where "pre = takeWhile (\<lambda>x. fst x \<le> addr) bl"
    and "post = dropWhile (\<lambda>x. fst x \<le> addr) bl"
  have split: "bl = pre @ post" by (simp add: pre_def post_def)
  with bl have pp: "blocks_ok h pre" "blocks_ok h post" "\<forall>x\<in>set pre. \<forall>y\<in>set post. before x y"
    by (auto simp: blocks_ok_def sorted_wrt_append)
  have sep: "unat (fst x) + unat (snd x) \<le> unat addr \<or> unat addr + unat sz \<le> unat (fst x)"
    if "x \<in> set bl" for x
  proof (rule ccontr)
    assume *: "\<not> ?thesis"
    have "16 \<le> unat sz" "16 \<le> unat (snd x)"
      using new bl that by (auto simp: block_ok_def blocks_ok_def)
    with * have "max (unat addr) (unat (fst x)) \<in> bytes (addr, sz) \<inter> bytes x"
      by (auto simp: bytes_def)
    moreover have "bytes x \<subseteq> free_bytes bl" using that by (auto simp: free_bytes_def)
    ultimately show False using dis by blast
  qed
  have sz: "16 \<le> unat sz" using new by (simp add: block_ok_def)
  have near: "unat (fst x) + unat (snd x) \<le> unat addr" if "x \<in> set pre" for x
  proof -
    have "x \<in> set bl" "unat (fst x) \<le> unat addr"
      using that set_takeWhileD [of x "\<lambda>x. fst x \<le> addr" bl]
      by (simp_all add: pre_def word_le_nat_alt)
    with sep [of x] sz show ?thesis by linarith
  qed
  have "addr < fst (hd post)" if "post \<noteq> []"
    using that hd_dropWhile [of "\<lambda>x. fst x \<le> addr" bl] by (simp add: post_def not_le)
  then have above: "unat addr < unat (fst y)" if "y \<in> set post" for y
    using that pp(2) by (cases post) (fastforce simp: blocks_ok_def before_def word_less_nat_alt)+
  have far: "unat addr + unat sz \<le> unat (fst y)" if "y \<in> set post" for y
    using sep [of y] above [OF that] that unfolding split by auto
  have noteq: "fst x \<noteq> addr" if "x \<in> set bl" for x
    using sep [OF that] bl that sz by (auto simp: blocks_ok_def block_ok_def)
  then show "addr \<notin> fst ` set bl" by auto
  note nx = join_next_ok [OF new pp(2)]
  have fr: "\<forall>y\<in>set post. unat addr + unat sz \<le> unat (fst y)" using far by blast
  obtain n where n: "hd (join_next addr sz post) = (addr, n)" using nx(4) [OF fr] by blast
  have nr: "\<forall>x\<in>set pre. unat (fst x) + unat (snd x) \<le> unat addr" using near by blast
  note jp = join_prev_ok [OF pp(1) nx(1) [OF fr] nx(5) [OF fr] n nr nx(3) [OF fr]]
  have eq: "dealloc_list addr sz bl = join_prev pre (join_next addr sz post)"
    by (simp add: dealloc_list_def pre_def post_def)
  show "blocks_ok h (dealloc_list addr sz bl)" using jp(1) eq by simp
  show "free_bytes (dealloc_list addr sz bl) = free_bytes bl \<union> bytes (addr, sz)"
    using jp(2) nx(2) [OF fr] eq split by auto
  have "distinct (map fst pre)" "distinct (map fst (join_next addr sz post))"
    using pp(1) nx(1) [OF fr] by (auto simp: blocks_ok_def intro: before_distinct)
  moreover have "fst x \<noteq> fst y" if "x \<in> set pre" "y \<in> set (join_next addr sz post)" for x y
  proof -
    have "16 \<le> unat (snd x)" using pp(1) that by (auto simp: blocks_ok_def block_ok_def)
    with near [OF that(1)] nx(3) [OF fr] that(2) show ?thesis by fastforce
  qed
  ultimately show "distinct (map fst (takeWhile (\<lambda>x. fst x \<le> addr) bl @
      join_next addr sz (dropWhile (\<lambda>x. fst x \<le> addr) bl)))"
    by (auto simp flip: pre_def post_def)
qed

section \<open>Allocation and release\<close>

lemma heap_wf_blocks: "heap_wf h bl \<Longrightarrow> blocks_ok h bl"
  by (simp add: heap_wf_def blocks_ok_def)

lemma list_step_wf:
  assumes "heap_wf h bl" and "list_step h n bl' h'" and "blocks_ok h bl'"
  shows "heap_wf h' bl'"
  using assms by (simp add: heap_wf_def list_step_def blocks_ok_def block_ok_def)

lemma alloc_impl_list:
  assumes wf: "heap_wf h bl" and l: "layout_ok l"
  shows "case alloc_list (block_size l) (lalign l) bl of
      None \<Rightarrow> alloc_impl h l = Some (0, h)
    | Some (p, bl') \<Rightarrow> \<exists>h'. alloc_impl h l = Some (p, h') \<and>
        list_step h (heap_allocated h + block_size l) bl' h' \<and> heap_wf h' bl' \<and>
        block_ok h (p, block_size l) \<and> is_aligned p (lalign l) \<and>
        bytes (p, block_size l) \<union> free_bytes bl' \<subseteq> free_bytes bl \<and>
        bytes (p, block_size l) \<inter> free_bytes bl' = {}"
proof -
  from l obtain k where k: "k < 63" "lalign l = 2 ^ k" by (auto simp: layout_ok_def)
  note sz = block_size_bounds(1,3) [OF l]
  have st: "16 \<le> unat (heap_start h)" "seg (store h) (free_list h) bl None"
    using wf by (simp_all add: heap_wf_def)
  have "alloc_list (block_size l) (2 ^ k) ([] @ bl) =
      map_option (map_prod id ((@) [])) (alloc_list (block_size l) (2 ^ k) bl)"
    by (cases "alloc_list (block_size l) (2 ^ k) bl") auto
  with alloc_loop_list [OF st(1) k(1) sz, where pre = "[]" and cur = "free_list h" and bl = bl]
    st(2) heap_wf_blocks [OF wf]
  have *: "case alloc_list (block_size l) (2 ^ k) bl of
      None \<Rightarrow> alloc_impl h l = Some (0, h)
    | Some (p, bl') \<Rightarrow> \<exists>h'. alloc_impl h l = Some (p, h') \<and>
        list_step h (heap_allocated h + block_size l) bl' h'"
    by (cases "alloc_list (block_size l) (2 ^ k) bl") (auto simp: alloc_impl_def k(2))
  show ?thesis
  proof (cases "alloc_list (block_size l) (2 ^ k) bl")
    case None
    with * show ?thesis by (simp add: k(2))
  next
    case (Some r)
    obtain p bl' where r: "r = (p, bl')" by (cases r)
    with * Some obtain h' where h': "alloc_impl h l = Some (p, h')"
      "list_step h (heap_allocated h + block_size l) bl' h'" by auto
    note ok = alloc_list_correct [OF st(1) k(1) sz heap_wf_blocks [OF wf] Some [unfolded r]]
    with h' list_step_wf [OF wf h'(2)] Some r show ?thesis by (simp add: k(2))
  qed
qed

lemma dealloc_impl_list:
  assumes wf: "heap_wf h bl" and ok: "block_ok h (ptr, block_size l)"
    and dis: "bytes (ptr, block_size l) \<inter> free_bytes bl = {}"
  shows "\<exists>h'. dealloc_impl h ptr l = Some h' \<and> heap_wf h' (dealloc_list ptr (block_size l) bl) \<and>
     list_step h (heap_allocated h - block_size l) (dealloc_list ptr (block_size l) bl) h'"
proof -
  let ?P = "\<lambda>x. fst x \<le> ptr" and ?sz = "block_size l"
  define pre post where "pre = takeWhile ?P bl" and "post = dropWhile ?P bl"
  note dl = dealloc_list_ok [OF heap_wf_blocks [OF wf] ok dis]
  have sg: "seg (store h) (free_list h) bl None" using wf by (simp add: heap_wf_def)
  have split: "bl = pre @ post" by (simp add: pre_def post_def)
  obtain c where c: "seg (store h) (free_list h) pre c" "seg (store h) c post None"
    using sg unfolding split seg_append by blast
  have fp: "find_place ptr h None (free_list h) = Some (prev_of pre, c)"
    using find_place_list [OF sg, of ptr "[]"] seg_head [OF c(2)] by (simp add: pre_def post_def)
  have "ptr \<notin> fst ` set (pre @ post)" using dl(4) split by simp
  note mn = merge_next_list [OF c this, of ?sz]
  have "ptr \<noteq> 0" using ok wf by (auto simp: block_ok_def heap_wf_def)
  note mp = merge_prev_list [OF mn(1,2) dl(3) [folded pre_def post_def] this]
  have eq: "dealloc_list ptr ?sz bl = join_prev pre (join_next ptr ?sz post)"
    by (simp add: dealloc_list_def pre_def post_def)
  define h' where "h' = (let h = merge_prev (merge_next h ptr ?sz c) ptr (prev_of pre)
    in h\<lparr>heap_allocated := heap_allocated h - ?sz\<rparr>)"
  have "dealloc_impl h ptr l = Some h'"
    by (simp add: dealloc_impl_def fp h'_def Let_def)
  moreover have ls: "list_step h (heap_allocated h - ?sz) (dealloc_list ptr ?sz bl) h'"
    using mp mn(3-5) by (simp add: list_step_def h'_def Let_def eq)
  ultimately show ?thesis using list_step_wf [OF wf ls dl(1)] by blast
qed

text \<open>The heap after boot is one free block.\<close>

lemma init_free_list_wf:
  "heap_wf (init_free_list h) [(HEAP_START, KERNEL_HEAP_SIZE)]"
  "heap_start (init_free_list h) = HEAP_START"
  "heap_end (init_free_list h) = HEAP_START + KERNEL_HEAP_SIZE"
  "heap_allocated (init_free_list h) = heap_allocated h"
  by (simp_all add: heap_wf_def init_free_list_def write_block_def NonNull_new_def HEAP_START_def
      KERNEL_HEAP_SIZE_def block_ok_def)

section \<open>Histories\<close>

text \<open>
  A run of the heap: allocations of any layout and releases of live allocations with the layout
  they were made with, as \<^verbatim>\<open>GlobalAlloc\<close> requires of its callers. \<open>live\<close> holds the allocations
  that were handed out and not released.
\<close>

inductive heap_run :: "linked_list_allocator \<Rightarrow> (usize \<times> layout) set \<Rightarrow> bool" where
  boot: "heap_run (init_free_list (new_allocator m)) {}"
| alloc: "heap_run h live \<Longrightarrow> layout_ok l \<Longrightarrow> alloc_impl h l = Some (p, h') \<Longrightarrow> p \<noteq> 0 \<Longrightarrow>
    heap_run h' (insert (p, l) live)"
| alloc_null: "heap_run h live \<Longrightarrow> layout_ok l \<Longrightarrow> alloc_impl h l = Some (0, h') \<Longrightarrow>
    heap_run h' live"
| dealloc: "heap_run h live \<Longrightarrow> (p, l) \<in> live \<Longrightarrow> dealloc_impl h p l = Some h' \<Longrightarrow>
    heap_run h' (live - {(p, l)})"

definition live_block :: "usize \<times> layout \<Rightarrow> block" where
  "live_block x = (fst x, block_size (snd x))"

definition live_ok :: "linked_list_allocator \<Rightarrow> block list \<Rightarrow> (usize \<times> layout) set \<Rightarrow> bool" where
  "live_ok h bl live \<longleftrightarrow> finite live \<and>
     (\<forall>x\<in>live. layout_ok (snd x) \<and> block_ok h (live_block x) \<and> is_aligned (fst x) (lalign (snd x)) \<and>
        bytes (live_block x) \<inter> free_bytes bl = {}) \<and>
     (\<forall>x\<in>live. \<forall>y\<in>live. x \<noteq> y \<longrightarrow> bytes (live_block x) \<inter> bytes (live_block y) = {}) \<and>
     heap_allocated h = (\<Sum>x\<in>live. block_size (snd x))"

definition heap_inv :: "linked_list_allocator \<Rightarrow> (usize \<times> layout) set \<Rightarrow> bool" where
  "heap_inv h live \<longleftrightarrow> heap_start h = HEAP_START \<and> heap_end h = HEAP_START + KERNEL_HEAP_SIZE \<and>
     (\<exists>bl. heap_wf h bl \<and> live_ok h bl live)"

lemma block_ok_cong:
  "heap_start h' = heap_start h \<Longrightarrow> heap_end h' = heap_end h \<Longrightarrow> block_ok h' x = block_ok h x"
  by (simp add: block_ok_def)

lemma bytes_nonempty: "block_ok h x \<Longrightarrow> bytes x \<noteq> {}"
  by (auto simp: block_ok_def bytes_def)

lemma heap_inv_alloc:
  assumes inv: "heap_inv h live" and l: "layout_ok l"
  shows "\<exists>p h'. alloc_impl h l = Some (p, h') \<and>
    (if p = 0 then h' = h else heap_inv h' (insert (p, l) live))"
proof -
  obtain bl where wf: "heap_wf h bl" and lv: "live_ok h bl live" using inv by (auto simp: heap_inv_def)
  show ?thesis
  proof (cases "alloc_list (block_size l) (lalign l) bl")
    case None
    with alloc_impl_list [OF wf l] show ?thesis by simp
  next
    case (Some r)
    then obtain p bl' h' where h': "alloc_impl h l = Some (p, h')"
      and ls: "list_step h (heap_allocated h + block_size l) bl' h'" and wf': "heap_wf h' bl'"
      and ok: "block_ok h (p, block_size l)" "is_aligned p (lalign l)"
      and sub: "bytes (p, block_size l) \<union> free_bytes bl' \<subseteq> free_bytes bl"
      and dis: "bytes (p, block_size l) \<inter> free_bytes bl' = {}"
      using alloc_impl_list [OF wf l] by (cases r) auto
    have fields: "heap_start h' = heap_start h" "heap_end h' = heap_end h"
      "heap_allocated h' = heap_allocated h + block_size l" using ls by (simp_all add: list_step_def)
    have old: "bytes (live_block x) \<inter> bytes (p, block_size l) = {}"
      "bytes (live_block x) \<inter> free_bytes bl' = {}" if "x \<in> live" for x
      using lv that sub by (auto simp: live_ok_def)
    have "(p, l) \<notin> live"
      using old(1) [of "(p, l)"] bytes_nonempty [OF ok(1)] by (auto simp: live_block_def)
    with lv ok l dis old have "live_ok h' bl' (insert (p, l) live)"
      unfolding live_ok_def by (auto simp: block_ok_cong [OF fields(1,2)] fields(3) live_block_def)
    moreover have "p \<noteq> 0" using ok(1) wf by (auto simp: block_ok_def heap_wf_def)
    ultimately show ?thesis using h' wf' inv fields by (auto simp: heap_inv_def)
  qed
qed

lemma heap_inv_dealloc:
  assumes inv: "heap_inv h live" and x: "(p, l) \<in> live"
  shows "\<exists>h'. dealloc_impl h p l = Some h' \<and> heap_inv h' (live - {(p, l)})"
proof -
  obtain bl where wf: "heap_wf h bl" and lv: "live_ok h bl live" using inv by (auto simp: heap_inv_def)
  have "block_ok h (live_block (p, l))" "bytes (live_block (p, l)) \<inter> free_bytes bl = {}"
    and fin: "finite live"
    using lv x unfolding live_ok_def by blast+
  then have ok: "block_ok h (p, block_size l)" "bytes (p, block_size l) \<inter> free_bytes bl = {}"
    by (simp_all add: live_block_def)
  let ?bl = "dealloc_list p (block_size l) bl"
  obtain h' where h': "dealloc_impl h p l = Some h'" "heap_wf h' ?bl"
    and ls: "list_step h (heap_allocated h - block_size l) ?bl h'"
    using dealloc_impl_list [OF wf ok] by auto
  have fields: "heap_start h' = heap_start h" "heap_end h' = heap_end h"
    "heap_allocated h' = heap_allocated h - block_size l" using ls by (simp_all add: list_step_def)
  have free: "free_bytes ?bl = free_bytes bl \<union> bytes (live_block (p, l))"
    using dealloc_list_ok(2) [OF heap_wf_blocks [OF wf] ok] by (simp add: live_block_def)
  have "bytes (live_block y) \<inter> free_bytes ?bl = {}" if "y \<in> live" "y \<noteq> (p, l)" for y
    using lv that x unfolding free live_ok_def by blast
  moreover have "heap_allocated h' = (\<Sum>y\<in>live - {(p, l)}. block_size (snd y))"
    using lv sum.remove [OF fin x, of "\<lambda>y. block_size (snd y)"] by (simp add: live_ok_def fields(3))
  ultimately have "live_ok h' ?bl (live - {(p, l)})"
    using lv unfolding live_ok_def by (auto simp: block_ok_cong [OF fields(1,2)])
  with h' inv fields show ?thesis by (auto simp: heap_inv_def)
qed

lemma heap_run_inv: "heap_run h live \<Longrightarrow> heap_inv h live"
proof (induction rule: heap_run.induct)
  case (boot m)
  have "live_ok (init_free_list (new_allocator m)) [(HEAP_START, KERNEL_HEAP_SIZE)] {}"
    by (simp add: live_ok_def init_free_list_wf new_allocator_def)
  then show ?case using init_free_list_wf by (auto simp: heap_inv_def)
next
  case (alloc h live l p h')
  with heap_inv_alloc [OF alloc.IH alloc.hyps(2)] show ?case by auto
next
  case (alloc_null h live l h')
  with heap_inv_alloc [OF alloc_null.IH alloc_null.hyps(2)] show ?case by auto
next
  case (dealloc h live p l h')
  with heap_inv_dealloc [OF dealloc.IH dealloc.hyps(2)] show ?case by auto
qed

text \<open>A request that cannot be met: no free block holds an aligned range of the size.\<close>

lemma unat_add_mod:
  fixes a b :: u64
  assumes "k < 64"
  shows "unat (a + b) mod 2 ^ k = (unat a + unat b) mod 2 ^ k"
proof -
  have "(2 :: nat) ^ k dvd 18446744073709551616"
    using le_imp_power_dvd [of k 64 "2 :: nat"] assms by simp
  then show ?thesis by (simp add: unat_word_ariths mod_mod_cancel)
qed

lemma mod_add_lcancel: "(a + b) mod n = (a + c) mod n \<Longrightarrow> b mod n = c mod (n :: nat)"
  unfolding nat_mod_eq_iff by auto

lemma padding_least:
  assumes k: "k < 64" and q: "unat q mod 2 ^ k = 0" "unat a \<le> unat q"
  shows "unat (align_up a (2 ^ k) - a) \<le> unat q - unat a"
proof -
  let ?d = "align_up a (2 ^ k) - a"
  have "(unat a + unat ?d) mod 2 ^ k = unat (align_up a (2 ^ k)) mod 2 ^ k"
    using unat_add_mod [OF k, of a ?d] by simp
  also have "\<dots> = unat (align_up a (2 ^ k) AND mask k)"
    by (simp only: unat_and_mask)
  also have "\<dots> = 0"
    using is_aligned_align_up [of a k] by (simp only: is_aligned_def exp_minus_1_mask) simp
  finally have "(unat a + unat ?d) mod 2 ^ k = (unat a + (unat q - unat a)) mod 2 ^ k"
    using q by simp
  then have "unat ?d mod 2 ^ k = (unat q - unat a) mod 2 ^ k" by (rule mod_add_lcancel)
  with unat_padding [of a k] have "unat ?d = (unat q - unat a) mod 2 ^ k" by simp
  then show ?thesis by simp
qed

lemma alloc_list_None:
  "alloc_list sz align bl = None \<Longrightarrow> (a, s) \<in> set bl \<Longrightarrow> s < required sz align a"
  by (induction bl) (auto split: if_splits)

lemma no_fit:
  assumes none: "alloc_list (block_size l) (lalign l) bl = None" and l: "layout_ok l"
    and x: "x \<in> set bl" "bytes (q, block_size l) \<subseteq> bytes x" and al: "is_aligned q (lalign l)"
  shows False
proof -
  from l obtain k where k: "k < 63" "lalign l = 2 ^ k" by (auto simp: layout_ok_def)
  note sz = block_size_bounds(1,3) [OF l]
  obtain a s where as: "x = (a, s)" by (cases x)
  have "unat (q AND mask k) = 0"
    using al by (simp only: k(2) is_aligned_def exp_minus_1_mask) simp
  then have q0: "unat q mod 2 ^ k = 0" by (simp only: unat_and_mask)
  have "unat q \<in> bytes x" "unat q + unat (block_size l) - 1 \<in> bytes x"
    using x(2) sz by (auto simp: bytes_def)
  then have q: "unat a \<le> unat q" "unat q + unat (block_size l) \<le> unat a + unat s"
    using sz by (auto simp: as bytes_def)
  have "unat (required (block_size l) (2 ^ k) a) \<le> unat s"
    using padding_least [OF _ q0 q(1)] unat_required [OF k(1) sz(2), of a] k(1) q by simp
  then show False
    using alloc_list_None [OF none x(1) [unfolded as]] k(2) by (simp add: word_less_nat_alt)
qed

section \<open>Properties\<close>

text \<open>
  \<^verbatim>\<open>alloc\<close> always returns. A non-null result is aligned as requested, lies in free
  memory and at least \<^verbatim>\<open>layout.size()\<close> long, and is no longer free afterwards; a null result
  leaves the heap unchanged and means that no free block contains an aligned range of the size.
\<close>

theorem heap_alloc_correct:
  assumes wf: "heap_wf h bl" and l: "layout_ok l"
  shows "\<exists>p h'. alloc_impl h l = Some (p, h') \<and>
    (if p = 0
     then h' = h \<and> \<not> (\<exists>x\<in>set bl. \<exists>q. is_aligned q (lalign l) \<and> bytes (q, block_size l) \<subseteq> bytes x)
     else \<exists>bl'. heap_wf h' bl' \<and> is_aligned p (lalign l) \<and> unat (lsize l) \<le> unat (block_size l) \<and>
       bytes (p, block_size l) \<subseteq> free_bytes bl - free_bytes bl' \<and> free_bytes bl' \<subseteq> free_bytes bl)"
proof (cases "alloc_list (block_size l) (lalign l) bl")
  case None
  with alloc_impl_list [OF wf l] have "alloc_impl h l = Some (0, h)" by simp
  with no_fit [OF None l] show ?thesis by auto
next
  case (Some r)
  then obtain p bl' h' where h': "alloc_impl h l = Some (p, h')" "heap_wf h' bl'"
    "block_ok h (p, block_size l)" "is_aligned p (lalign l)"
    "bytes (p, block_size l) \<union> free_bytes bl' \<subseteq> free_bytes bl"
    "bytes (p, block_size l) \<inter> free_bytes bl' = {}"
    using alloc_impl_list [OF wf l] by (cases r) auto
  moreover from this have "p \<noteq> 0" using wf by (auto simp: block_ok_def heap_wf_def)
  moreover note block_size_bounds(2) [OF l]
  ultimately show ?thesis by auto
qed

definition sample_heap :: linked_list_allocator where
  "sample_heap = init_free_list (new_allocator (\<lambda>_. \<lparr>fb_size = 0, fb_next = None\<rparr>))"

lemma sample_layout_ok: "layout_ok \<lparr>lsize = 24, lalign = 8\<rparr>"
  unfolding layout_ok_def by (rule exI [of _ 3]) simp

text \<open>
  \<^verbatim>\<open>dealloc\<close> of memory that is not free always returns, and the free memory becomes
  exactly what it was together with the released block. The list is sorted and coalesced again:
  no two free blocks touch.
\<close>

theorem heap_dealloc_correct:
  assumes "heap_wf h bl" and "block_ok h (ptr, block_size l)"
    and "bytes (ptr, block_size l) \<inter> free_bytes bl = {}"
  shows "\<exists>h' bl'. dealloc_impl h ptr l = Some h' \<and> heap_wf h' bl' \<and>
    free_bytes bl' = free_bytes bl \<union> bytes (ptr, block_size l) \<and>
    heap_allocated h' = heap_allocated h - block_size l"
  using dealloc_impl_list [OF assms] dealloc_list_ok(2) [OF heap_wf_blocks [OF assms(1)] assms(2,3)]
  by (auto simp: list_step_def)

text \<open>
  C1: Over every history of allocations and releases, live allocations lie in the heap,
  are aligned, never overlap one another, and the counter \<^verbatim>\<open>allocated\<close> is the sum of their
  block sizes; every further allocation and every release of a live block returns.
\<close>

theorem heap_history_sound:
  assumes "heap_run h live"
  shows "(\<forall>(p, l)\<in>live. is_aligned p (lalign l) \<and>
        unat HEAP_START \<le> unat p \<and> unat p + unat (lsize l) \<le> unat (HEAP_START + KERNEL_HEAP_SIZE)) \<and>
    (\<forall>(p, l)\<in>live. \<forall>(q, m)\<in>live. (p, l) \<noteq> (q, m) \<longrightarrow>
        {unat p..<unat p + unat (lsize l)} \<inter> {unat q..<unat q + unat (lsize m)} = {}) \<and>
    heap_allocated h = (\<Sum>(p, l)\<in>live. block_size l) \<and>
    (\<forall>l. layout_ok l \<longrightarrow> alloc_impl h l \<noteq> None) \<and>
    (\<forall>(p, l)\<in>live. dealloc_impl h p l \<noteq> None)"
proof -
  have inv: "heap_inv h live" using heap_run_inv [OF assms] .
  then obtain bl where lv: "live_ok h bl live"
    and b: "heap_start h = HEAP_START" "heap_end h = HEAP_START + KERNEL_HEAP_SIZE"
    by (auto simp: heap_inv_def)
  have sz: "unat (lsize l) \<le> unat (block_size l)" if "(p, l) \<in> live" for p l
    using lv that block_size_bounds(2) [of l] by (force simp: live_ok_def)
  have sub: "{unat p..<unat p + unat (lsize l)} \<subseteq> bytes (live_block (p, l))" if "(p, l) \<in> live" for p l
    using sz [OF that] by (auto simp: bytes_def live_block_def)
  have "is_aligned p (lalign l) \<and> unat HEAP_START \<le> unat p \<and>
      unat p + unat (lsize l) \<le> unat (HEAP_START + KERNEL_HEAP_SIZE)" if "(p, l) \<in> live" for p l
    using lv that sz [OF that] b by (force simp: live_ok_def live_block_def block_ok_def)
  moreover have "{unat p..<unat p + unat (lsize l)} \<inter> {unat q..<unat q + unat (lsize m)} = {}"
    if "(p, l) \<in> live" "(q, m) \<in> live" "(p, l) \<noteq> (q, m)" for p l q m
  proof -
    have "bytes (live_block (p, l)) \<inter> bytes (live_block (q, m)) = {}"
      using lv that unfolding live_ok_def by blast
    with sub [OF that(1)] sub [OF that(2)] show ?thesis by blast
  qed
  moreover have "heap_allocated h = (\<Sum>(p, l)\<in>live. block_size l)"
    using lv by (simp add: live_ok_def case_prod_beta)
  moreover have "alloc_impl h l \<noteq> None" if "layout_ok l" for l
    using heap_inv_alloc [OF inv that] by auto
  moreover have "dealloc_impl h p l \<noteq> None" if "(p, l) \<in> live" for p l
    using heap_inv_dealloc [OF inv that] by auto
  ultimately show ?thesis
    unfolding Ball_def split_paired_All prod.case by blast
qed

theorem heap_history_sound_witness:
  "heap_run sample_heap {} \<and> heap_allocated sample_heap = 0 \<and>
   alloc_impl sample_heap \<lparr>lsize = 24, lalign = 8\<rparr> \<noteq> None"
  using heap_history_sound [OF heap_run.boot, of "\<lambda>_. \<lparr>fb_size = 0, fb_next = None\<rparr>"]
    heap_run.boot [of "\<lambda>_. \<lparr>fb_size = 0, fb_next = None\<rparr>"] sample_layout_ok
  by (simp add: sample_heap_def)

end
