(* ===== verification/Process.thy ===== *)
theory Process
  imports Prelude
begin

text \<open>
  \<^verbatim>\<open>kernel/src/process/mod.rs\<close>: process descriptors and the process table. The table is an array of
  slots that is searched linearly; the lemmas show that it implements a finite map from process
  identifiers to descriptors, and that its counter is the number of occupied slots. The global
  \<^verbatim>\<open>PROCESS_TABLE\<close>, \<^verbatim>\<open>CURRENT_PID\<close> and \<^verbatim>\<open>NEXT_PID\<close> are fields of the states of the theories that use
  them; the lock around the table is not part of the model.
\<close>

section \<open>Definitions\<close>

type_synonym pid = u64

datatype process_state = Ready | Running | Blocked | Zombie

record registers =
  reg_r15 :: u64
  reg_r14 :: u64
  reg_r13 :: u64
  reg_r12 :: u64
  reg_rbx :: u64
  reg_rbp :: u64
  reg_r11 :: u64
  reg_r10 :: u64
  reg_r9 :: u64
  reg_r8 :: u64
  reg_rsi :: u64
  reg_rdi :: u64
  reg_rdx :: u64
  reg_rcx :: u64
  reg_rax :: u64
  reg_rip :: u64
  reg_cs :: u64
  reg_rflags :: u64
  reg_rsp :: u64
  reg_ss :: u64

definition new_registers :: registers where
  "new_registers =
     \<lparr>reg_r15 = 0, reg_r14 = 0, reg_r13 = 0, reg_r12 = 0, reg_rbx = 0, reg_rbp = 0, reg_r11 = 0, reg_r10 = 0, reg_r9 = 0, reg_r8 = 0,
      reg_rsi = 0, reg_rdi = 0, reg_rdx = 0, reg_rcx = 0, reg_rax = 0, reg_rip = 0, reg_cs = 0x08, reg_rflags = 0x202, reg_rsp = 0,
      reg_ss = 0x10\<rparr>"

datatype priority_class = RealTime | Interactive | Normal | Background | Dream

text \<open>\<^verbatim>\<open>priority as usize\<close> and its inverse \<^verbatim>\<open>TryFrom<u8>\<close>.\<close>

fun prio_index :: "priority_class \<Rightarrow> nat" where
  "prio_index RealTime = 0"
| "prio_index Interactive = 1"
| "prio_index Normal = 2"
| "prio_index Background = 3"
| "prio_index Dream = 4"

definition prio_try_from :: "nat \<Rightarrow> priority_class option" where
  "prio_try_from n =
     (if n = 0 then Some RealTime else if n = 1 then Some Interactive else if n = 2 then Some Normal
      else if n = 3 then Some Background else if n = 4 then Some Dream else None)"

datatype process_intent =
    NoIntent | Compute | IoWait | MemoryIntensive | Network | Graphics | FileSystem | RealityBranch
  | InteractiveIntent

text \<open>\<^verbatim>\<open>PriorityClass\<close> derives \<^verbatim>\<open>Ord\<close>: the order of the discriminants.\<close>

instantiation priority_class :: linorder
begin

definition less_eq_priority_class :: "priority_class \<Rightarrow> priority_class \<Rightarrow> bool" where
  "less_eq_priority_class a b \<longleftrightarrow> prio_index a \<le> prio_index b"

definition less_priority_class :: "priority_class \<Rightarrow> priority_class \<Rightarrow> bool" where
  "less_priority_class a b \<longleftrightarrow> prio_index a < prio_index b"

instance
proof
  fix a b :: priority_class
  show "a \<le> b \<Longrightarrow> b \<le> a \<Longrightarrow> a = b"
    by (cases a; cases b) (simp_all add: less_eq_priority_class_def)
qed (auto simp: less_eq_priority_class_def less_priority_class_def)

end

record process =
  p_pid :: pid
  uid :: u32
  p_state :: process_state
  regs :: registers
  p_page_table :: u64
  kernel_stack :: u64
  user_stack :: u64
  is_user_process :: bool
  p_heap_start :: u64
  p_heap_end :: u64
  mmap_base :: u64
  priority :: priority_class
  intent :: process_intent
  reality_id :: u64
  cpu_affinity :: u64
  p_time_slice :: u64
  total_runtime :: u64
  last_scheduled :: u64
  wait_reason :: u64

definition new_process :: "pid \<Rightarrow> process" where
  "new_process p =
     \<lparr>p_pid = p, uid = 0, p_state = Ready, regs = new_registers, p_page_table = 0, kernel_stack = 0,
      user_stack = 0, is_user_process = False, p_heap_start = 0, p_heap_end = 0, mmap_base = 0,
      priority = Normal, intent = NoIntent, reality_id = 0, cpu_affinity = 0, p_time_slice = 10,
      total_runtime = 0, last_scheduled = 0, wait_reason = 0\<rparr>"

fun time_slice_for_priority :: "priority_class \<Rightarrow> u64" where
  "time_slice_for_priority RealTime = 20"
| "time_slice_for_priority Interactive = 5"
| "time_slice_for_priority Normal = 10"
| "time_slice_for_priority Background = 15"
| "time_slice_for_priority Dream = 50"

definition with_priority :: "pid \<Rightarrow> priority_class \<Rightarrow> process" where
  "with_priority p c = (new_process p)\<lparr>priority := c, p_time_slice := time_slice_for_priority c\<rparr>"

definition proc_set_intent :: "process \<Rightarrow> process_intent \<Rightarrow> process" where
  "proc_set_intent p i =
     (let p = p\<lparr>intent := i\<rparr>
      in case i of
           Graphics \<Rightarrow> if Interactive < priority p then p\<lparr>priority := Interactive\<rparr> else p
         | InteractiveIntent \<Rightarrow> if Interactive < priority p then p\<lparr>priority := Interactive\<rparr> else p
         | _ \<Rightarrow> p)"

definition MAX_PROCESSES :: nat where
  "MAX_PROCESSES = 256"

record process_table =
  processes :: "process option list"
  pt_count :: usize

definition new_process_table :: process_table where
  "new_process_table = \<lparr>processes = replicate MAX_PROCESSES None, pt_count = 0\<rparr>"

fun add_slot :: "process option list \<Rightarrow> process \<Rightarrow> process option list option" where
  "add_slot [] p = None"
| "add_slot (None # xs) p = Some (Some p # xs)"
| "add_slot (Some q # xs) p = map_option ((#) (Some q)) (add_slot xs p)"

definition pt_add :: "process_table \<Rightarrow> process \<Rightarrow> process_table res" where
  "pt_add t p = (case add_slot (processes t) p of
     Some xs \<Rightarrow> Inr (t\<lparr>processes := xs, pt_count := pt_count t + 1\<rparr>)
   | None \<Rightarrow> Inl ''Process table full'')"

fun remove_slot :: "process option list \<Rightarrow> pid \<Rightarrow> (process \<times> process option list) option" where
  "remove_slot [] k = None"
| "remove_slot (None # xs) k = map_option (map_prod id ((#) None)) (remove_slot xs k)"
| "remove_slot (Some q # xs) k =
     (if p_pid q = k then Some (q, None # xs)
      else map_option (map_prod id ((#) (Some q))) (remove_slot xs k))"

definition pt_remove :: "process_table \<Rightarrow> pid \<Rightarrow> process option \<times> process_table" where
  "pt_remove t k = (case remove_slot (processes t) k of
     Some (p, xs) \<Rightarrow>
       (Some p, t\<lparr>processes := xs, pt_count := (if pt_count t = 0 then 0 else pt_count t - 1)\<rparr>)
   | None \<Rightarrow> (None, t))"

text \<open>\<^verbatim>\<open>iter().flatten()\<close>: the occupied slots in order.\<close>

fun occupied :: "process option list \<Rightarrow> process list" where
  "occupied [] = []"
| "occupied (None # xs) = occupied xs"
| "occupied (Some p # xs) = p # occupied xs"

definition pt_iter :: "process_table \<Rightarrow> process list" where
  "pt_iter t = occupied (processes t)"

definition pt_get :: "process_table \<Rightarrow> pid \<Rightarrow> process option" where
  "pt_get t k = List.find (\<lambda>p. p_pid p = k) (pt_iter t)"

text \<open>
  \<^verbatim>\<open>get_mut\<close> hands out a reference to the first match; the model takes the update that the caller
  makes through it.
\<close>

fun modify_slot :: "process option list \<Rightarrow> pid \<Rightarrow> (process \<Rightarrow> process) \<Rightarrow> process option list" where
  "modify_slot [] k f = []"
| "modify_slot (None # xs) k f = None # modify_slot xs k f"
| "modify_slot (Some q # xs) k f =
     (if p_pid q = k then Some (f q) # xs else Some q # modify_slot xs k f)"

definition pt_modify :: "process_table \<Rightarrow> pid \<Rightarrow> (process \<Rightarrow> process) \<Rightarrow> process_table" where
  "pt_modify t k f = t\<lparr>processes := modify_slot (processes t) k f\<rparr>"

text \<open>\<^verbatim>\<open>Pid::new\<close> on the counter \<^verbatim>\<open>NEXT_PID\<close>, and \<^verbatim>\<open>get_current_pid\<close> on the value of \<^verbatim>\<open>CURRENT_PID\<close>.\<close>

definition new_pid :: "u64 \<Rightarrow> pid \<times> u64" where
  "new_pid next_pid = (next_pid, next_pid + 1)"

definition get_current_pid :: "u64 \<Rightarrow> pid option" where
  "get_current_pid val = (if val = 0 then None else Some val)"

section \<open>The table as a map\<close>

text \<open>
  What the clients of the table (scheduler, channels, system calls) rely on: a lookup after an
  update through \<^verbatim>\<open>get_mut\<close> sees that update and nothing else, as long as the update keeps the
  key.
\<close>

locale keyed_table =
  fixes lookup :: "'t \<Rightarrow> 'k \<Rightarrow> 'v option"
    and modify :: "'t \<Rightarrow> 'k \<Rightarrow> ('v \<Rightarrow> 'v) \<Rightarrow> 't"
    and key :: "'v \<Rightarrow> 'k"
    and inv :: "'t \<Rightarrow> bool"
  assumes lookup_key: "inv t \<Longrightarrow> lookup t k = Some v \<Longrightarrow> key v = k"
    and modify_inv: "inv t \<Longrightarrow> (\<And>v. key (f v) = key v) \<Longrightarrow> inv (modify t k f)"
    and lookup_modify: "inv t \<Longrightarrow> (\<And>v. key (f v) = key v) \<Longrightarrow>
      lookup (modify t k f) j = (if j = k then map_option f (lookup t j) else lookup t j)"
begin

text \<open>Updating several keys one after the other, as waking a whole queue does.\<close>

lemma fold_modify:
  assumes "\<And>v. key (f v) = key v" and idem: "\<And>v. f (f v) = f v"
  shows "inv t \<Longrightarrow> inv (fold (\<lambda>k t. modify t k f) ks t) \<and>
    lookup (fold (\<lambda>k t. modify t k f) ks t) j = (if j \<in> set ks then map_option f (lookup t j) else lookup t j)"
proof (induction ks arbitrary: t)
  case Nil
  then show ?case by simp
next
  case (Cons k ks)
  from Cons.IH [OF modify_inv [OF Cons.prems assms(1), of k]] show ?case
    by (simp add: lookup_modify [OF Cons.prems assms(1)] option.map_comp comp_def idem)
qed

end

definition pt_inv :: "process_table \<Rightarrow> bool" where
  "pt_inv t \<longleftrightarrow> length (processes t) = MAX_PROCESSES \<and> distinct (map p_pid (pt_iter t)) \<and>
     pt_count t = of_nat (length (pt_iter t))"

lemma length_modify_slot [simp]: "length (modify_slot xs k f) = length xs"
  by (induction xs k f rule: modify_slot.induct) simp_all

lemma modify_slot_occupied:
  assumes "\<And>p. p_pid (f p) = p_pid p"
  shows "map p_pid (occupied (modify_slot xs k f)) = map p_pid (occupied xs)"
  using assms by (induction xs k f rule: modify_slot.induct) simp_all

lemma modify_slot_find:
  assumes "\<And>p. p_pid (f p) = p_pid p"
  shows "List.find (\<lambda>p. p_pid p = j) (occupied (modify_slot xs k f)) =
    (if j = k then map_option f (List.find (\<lambda>p. p_pid p = j) (occupied xs))
     else List.find (\<lambda>p. p_pid p = j) (occupied xs))"
  using assms by (induction xs k f rule: modify_slot.induct) auto

lemma length_occupied_modify [simp]: "length (occupied (modify_slot xs k f)) = length (occupied xs)"
  by (induction xs k f rule: modify_slot.induct) simp_all

interpretation ptab: keyed_table pt_get pt_modify p_pid pt_inv
proof
  fix t k v assume "pt_inv t" and "pt_get t k = Some v"
  then show "p_pid v = k" by (auto simp: pt_get_def find_Some_iff)
next
  fix t k and f :: "process \<Rightarrow> process" assume "pt_inv t" and "\<And>p. p_pid (f p) = p_pid p"
  then show "pt_inv (pt_modify t k f)"
    by (simp add: pt_inv_def pt_modify_def pt_iter_def modify_slot_occupied)
next
  fix t k j and f :: "process \<Rightarrow> process" assume "pt_inv t" and "\<And>p. p_pid (f p) = p_pid p"
  then show "pt_get (pt_modify t k f) j = (if j = k then map_option f (pt_get t j) else pt_get t j)"
    by (simp add: pt_get_def pt_modify_def pt_iter_def modify_slot_find)
qed

section \<open>Insertion and removal\<close>

lemma add_slot_Some:
  "add_slot xs p = Some ys \<Longrightarrow> length ys = length xs \<and>
     (\<exists>us vs. occupied xs = us @ vs \<and> occupied ys = us @ p # vs)"
proof (induction xs p arbitrary: ys rule: add_slot.induct)
  case (2 xs p)
  then show ?case by (auto intro: exI [of _ "[]"])
next
  case (3 q xs p)
  then obtain zs where zs: "add_slot xs p = Some zs" "ys = Some q # zs" by auto
  with 3(1) obtain us vs where "length zs = length xs" "occupied xs = us @ vs" "occupied zs = us @ p # vs"
    by blast
  with zs show ?case by (auto intro: exI [of _ "q # us"])
qed simp

lemma length_occupied: "length (occupied xs) \<le> length xs"
  by (induction xs rule: occupied.induct) simp_all

lemma add_slot_None: "add_slot xs p = None \<longleftrightarrow> length (occupied xs) = length xs"
proof (induction xs p rule: add_slot.induct)
  case (2 xs p)
  with length_occupied [of xs] show ?case by simp
qed simp_all

lemma remove_slot_Some:
  "remove_slot xs k = Some (p, ys) \<Longrightarrow> length ys = length xs \<and> p_pid p = k \<and>
     (\<exists>us vs. occupied xs = us @ p # vs \<and> occupied ys = us @ vs \<and> k \<notin> p_pid ` set us)"
proof (induction xs k arbitrary: ys rule: remove_slot.induct)
  case (2 xs k)
  then show ?case by auto
next
  case (3 q xs k)
  show ?case
  proof (cases "p_pid q = k")
    case True
    with 3(2) show ?thesis by (auto intro: exI [of _ "[]"])
  next
    case False
    with 3(2) obtain zs where zs: "remove_slot xs k = Some (p, zs)" "ys = Some q # zs" by auto
    from 3(1) [OF False zs(1)] obtain us vs where "length zs = length xs" "p_pid p = k"
      "occupied xs = us @ p # vs" "occupied zs = us @ vs" "k \<notin> p_pid ` set us" by blast
    with zs False show ?thesis
      by simp (rule exI [of _ "q # us"], rule exI [of _ vs], simp)
  qed
qed simp

lemma remove_slot_None: "remove_slot xs k = None \<longleftrightarrow> k \<notin> p_pid ` set (occupied xs)"
  by (induction xs k rule: remove_slot.induct) auto

lemma pt_get_iff:
  assumes "pt_inv t"
  shows "pt_get t k = Some p \<longleftrightarrow> p \<in> set (pt_iter t) \<and> p_pid p = k"
proof -
  have "List.find (\<lambda>p. p_pid p = k) xs = Some p \<longleftrightarrow> p \<in> set xs \<and> p_pid p = k"
    if "distinct (map p_pid xs)" for xs
    using that by (induction xs) auto
  with assms show ?thesis by (simp add: pt_get_def pt_inv_def)
qed

lemma pt_get_None: "pt_get t k = None \<longleftrightarrow> k \<notin> p_pid ` set (pt_iter t)"
  by (auto simp: pt_get_def find_None_iff)

lemma find_pid_None: "k \<notin> p_pid ` set us \<Longrightarrow> List.find (\<lambda>q. p_pid q = k) us = None"
  by (auto simp: find_None_iff)

lemma unat_pt_count: "pt_inv t \<Longrightarrow> unat (pt_count t) = length (pt_iter t)"
  using length_occupied [of "processes t"]
  by (simp add: pt_inv_def pt_iter_def MAX_PROCESSES_def unat_of_nat_u64)

lemma pt_add_correct:
  assumes inv: "pt_inv t" and new: "pt_get t (p_pid p) = None"
  shows "case pt_add t p of
       Inl e \<Rightarrow> pt_count t = of_nat MAX_PROCESSES
     | Inr t' \<Rightarrow> pt_inv t' \<and> pt_count t' = pt_count t + 1 \<and>
         (\<forall>k. pt_get t' k = (if k = p_pid p then Some p else pt_get t k))"
proof (cases "add_slot (processes t) p")
  case None
  then have "pt_count t = of_nat MAX_PROCESSES"
    using inv by (simp add: add_slot_None pt_inv_def pt_iter_def)
  with None show ?thesis by (simp add: pt_add_def)
next
  case (Some xs)
  let ?t = "t\<lparr>processes := xs, pt_count := pt_count t + 1\<rparr>"
  obtain us vs where uv: "length xs = length (processes t)" "pt_iter t = us @ vs"
    "pt_iter ?t = us @ p # vs" using add_slot_Some [OF Some] by (auto simp: pt_iter_def)
  have fresh: "p_pid p \<notin> p_pid ` set (us @ vs)" using new uv by (simp add: pt_get_None)
  then have none: "List.find (\<lambda>q. p_pid q = p_pid p) us = None" by (intro find_pid_None) auto
  have inv': "pt_inv ?t" using inv uv fresh by (auto simp: pt_inv_def)
  have "pt_get ?t k = (if k = p_pid p then Some p else pt_get t k)" for k
    by (auto simp: pt_get_def uv find_append none split: option.split)
  with Some inv' show ?thesis by (simp add: pt_add_def)
qed

lemma pt_remove_correct:
  assumes inv: "pt_inv t"
  shows "case pt_remove t k of
       (r, t') \<Rightarrow> r = pt_get t k \<and> pt_inv t' \<and>
         (\<forall>j. pt_get t' j = (if j = k then None else pt_get t j))"
proof (cases "remove_slot (processes t) k")
  case None
  then have "pt_get t k = None" by (simp add: remove_slot_None pt_get_None pt_iter_def)
  with None inv show ?thesis by (auto simp: pt_remove_def)
next
  case (Some r)
  obtain q xs where r: "r = (q, xs)" by (cases r)
  let ?t = "t\<lparr>processes := xs, pt_count := (if pt_count t = 0 then 0 else pt_count t - 1)\<rparr>"
  obtain us vs where uv: "length xs = length (processes t)" "p_pid q = k" "pt_iter t = us @ q # vs"
    "pt_iter ?t = us @ vs" using remove_slot_Some [OF Some [unfolded r]] by (auto simp: pt_iter_def)
  have "pt_count t \<noteq> 0" using unat_pt_count [OF inv] uv by auto
  then have inv': "pt_inv ?t" using inv uv by (auto simp: pt_inv_def)
  have out: "k \<notin> p_pid ` set (us @ vs)" using inv uv by (auto simp: pt_inv_def)
  then have "pt_get t k = Some q" and "pt_get ?t k = None"
    using uv by (simp_all add: pt_get_iff [OF inv] pt_get_None)
  moreover have "pt_get ?t j = pt_get t j" if "j \<noteq> k" for j
    using that uv by (auto simp: pt_get_def find_append split: option.split)
  ultimately show ?thesis using Some r inv' by (auto simp: pt_remove_def)
qed

lemma occupied_filter: "map Some (occupied xs) = filter (\<lambda>x. x \<noteq> None) xs"
  by (induction xs rule: occupied.induct) simp_all

text \<open>
  C5: The process table implements a finite map from identifiers to processes with an exact
  counter. A lookup finds exactly the process in a slot with that identifier, and iteration visits
  the processes of the occupied slots in the order of the slots, each identifier once, as many as the
  counter says. \<^verbatim>\<open>add\<close> of a new identifier succeeds unless all slots are taken and then only that
  lookup changes; \<^verbatim>\<open>remove\<close> returns the process and only its lookup disappears; a change through
  \<^verbatim>\<open>get_mut\<close> that keeps the identifier changes exactly the process looked up. All keep the invariant.
\<close>

theorem process_table_correct:
  assumes inv: "pt_inv t" and new: "pt_get t (p_pid p) = None" and keeps: "\<And>q. p_pid (f q) = p_pid q"
  shows "(pt_get t k = Some q \<longleftrightarrow> Some q \<in> set (processes t) \<and> p_pid q = k) \<and>
    map Some (pt_iter t) = filter (\<lambda>x. x \<noteq> None) (processes t) \<and> distinct (map p_pid (pt_iter t)) \<and>
    unat (pt_count t) = length (pt_iter t) \<and>
    (case pt_add t p of
       Inl e \<Rightarrow> pt_count t = of_nat MAX_PROCESSES
     | Inr t' \<Rightarrow> pt_inv t' \<and> pt_count t' = pt_count t + 1 \<and>
         (\<forall>k. pt_get t' k = (if k = p_pid p then Some p else pt_get t k))) \<and>
    (case pt_remove t k of
       (r, t') \<Rightarrow> r = pt_get t k \<and> pt_inv t' \<and>
         (\<forall>j. pt_get t' j = (if j = k then None else pt_get t j))) \<and>
    pt_inv (pt_modify t k f) \<and> pt_count (pt_modify t k f) = pt_count t \<and>
    (\<forall>j. pt_get (pt_modify t k f) j = (if j = k then map_option f (pt_get t j) else pt_get t j))"
proof -
  have iter: "map Some (pt_iter t) = filter (\<lambda>x. x \<noteq> None) (processes t)"
    by (simp add: pt_iter_def occupied_filter)
  then have "Some ` set (pt_iter t) = {x \<in> set (processes t). x \<noteq> None}"
    by (metis list.set_map set_filter)
  then have "q \<in> set (pt_iter t) \<longleftrightarrow> Some q \<in> set (processes t)" by auto
  then have "pt_get t k = Some q \<longleftrightarrow> Some q \<in> set (processes t) \<and> p_pid q = k" by (simp add: pt_get_iff [OF inv])
  moreover have "distinct (map p_pid (pt_iter t))" using inv by (simp add: pt_inv_def)
  moreover have "pt_count (pt_modify t k f) = pt_count t" by (simp add: pt_modify_def)
  ultimately show ?thesis
    using iter unat_pt_count [OF inv] pt_add_correct [OF inv new] pt_remove_correct [OF inv]
      ptab.modify_inv [OF inv keeps] ptab.lookup_modify [OF inv keeps] by simp
qed

theorem process_table_correct_witness:
  "pt_inv new_process_table \<and>
   (\<exists>t. pt_add new_process_table (new_process 7) = Inr t \<and> pt_get t 7 = Some (new_process 7))"
proof -
  have it: "pt_iter new_process_table = []"
  proof -
    have "occupied (replicate n None) = []" for n by (induction n) simp_all
    then show ?thesis by (simp add: pt_iter_def new_process_table_def)
  qed
  then have inv: "pt_inv new_process_table"
    by (simp add: pt_inv_def new_process_table_def)
  have "pt_get new_process_table (p_pid (new_process 7)) = None"
    by (simp add: pt_get_def it)
  from process_table_correct [OF inv this, of "\<lambda>q. q\<lparr>p_state := Blocked\<rparr>" 7 "new_process 7"]
  have "case pt_add new_process_table (new_process 7) of
       Inl e \<Rightarrow> pt_count new_process_table = of_nat MAX_PROCESSES
     | Inr t' \<Rightarrow> pt_inv t' \<and> pt_count t' = pt_count new_process_table + 1 \<and>
         (\<forall>k. pt_get t' k = (if k = p_pid (new_process 7) then Some (new_process 7) else pt_get new_process_table k))"
    by simp
  with inv show ?thesis
    by (auto simp: new_process_table_def new_process_def MAX_PROCESSES_def split: sum.splits)
qed

end
