(* ===== verification/Scheduler.thy ===== *)
theory Scheduler
  imports Process
begin

text \<open>
  \<^verbatim>\<open>kernel/src/process/scheduler.rs\<close>, with \<^verbatim>\<open>exit_process\<close> of \<^verbatim>\<open>process/mod.rs\<close>, the state part of
  \<^verbatim>\<open>switch_to_process\<close> of \<^verbatim>\<open>process/context.rs\<close> and the timer handler that drives them: per-CPU
  run queues in five priority classes with a bitmap of the classes that are not empty. The
  functions that ask for the executing CPU take its number as an argument. Locks are not part of
  the model: each function runs atomically.

  The lemmas show that the bitmap always agrees with the queues, that the bit search picks the
  head of the best non-empty class, that no runnable process is lost by scheduling, and what
  load balancing keeps. Two further results show that an exiting process stays schedulable.
\<close>

section \<open>Definitions\<close>

definition NUM_PRIORITIES :: nat where
  "NUM_PRIORITIES = 5"

record priority_queue =
  pq_queue :: "pid list"
  pq_active :: bool

definition new_priority_queue :: priority_queue where
  "new_priority_queue = \<lparr>pq_queue = [], pq_active = False\<rparr>"

definition pq_push :: "priority_queue \<Rightarrow> pid \<Rightarrow> priority_queue" where
  "pq_push q p =
     (if p \<notin> set (pq_queue q) then q\<lparr>pq_queue := pq_queue q @ [p], pq_active := True\<rparr> else q)"

definition pq_pop :: "priority_queue \<Rightarrow> pid option \<times> priority_queue" where
  "pq_pop q =
     (let (result, rest) = (case pq_queue q of [] \<Rightarrow> (None, []) | p # ps \<Rightarrow> (Some p, ps));
          q = q\<lparr>pq_queue := rest\<rparr>
      in (result, if rest = [] then q\<lparr>pq_active := False\<rparr> else q))"

definition pq_remove :: "priority_queue \<Rightarrow> pid \<Rightarrow> priority_queue" where
  "pq_remove q p =
     (let q = q\<lparr>pq_queue := filter (\<lambda>x. x \<noteq> p) (pq_queue q)\<rparr>
      in if pq_queue q = [] then q\<lparr>pq_active := False\<rparr> else q)"

record cpu_scheduler =
  queues :: "priority_queue list"
  active_bitmap :: u8
  cs_current :: "pid option"
  cs_time_slice :: u64
  context_switches :: u64
  cs_idle_ticks :: u64

definition new_cpu_scheduler :: cpu_scheduler where
  "new_cpu_scheduler =
     \<lparr>queues = replicate NUM_PRIORITIES new_priority_queue, active_bitmap = 0, cs_current = None,
      cs_time_slice = 0, context_switches = 0, cs_idle_ticks = 0\<rparr>"

definition enqueue :: "cpu_scheduler \<Rightarrow> pid \<Rightarrow> priority_class \<Rightarrow> cpu_scheduler" where
  "enqueue cs p c =
     (let idx = prio_index c
      in cs\<lparr>queues := (queues cs)[idx := pq_push (queues cs ! idx) p],
            active_bitmap := active_bitmap cs OR push_bit idx 1\<rparr>)"

definition dequeue_class :: "pid \<Rightarrow> nat \<Rightarrow> cpu_scheduler \<Rightarrow> cpu_scheduler" where
  "dequeue_class p idx cs =
     (let q = pq_remove (queues cs ! idx) p;
          cs = cs\<lparr>queues := (queues cs)[idx := q]\<rparr>
      in if pq_queue q = [] then cs\<lparr>active_bitmap := active_bitmap cs AND NOT (push_bit idx 1)\<rparr>
         else cs)"

definition dequeue :: "cpu_scheduler \<Rightarrow> pid \<Rightarrow> cpu_scheduler" where
  "dequeue cs p = fold (dequeue_class p) [0..<length (queues cs)] cs"

definition trailing_zeros :: "u8 \<Rightarrow> nat" where
  "trailing_zeros w = (case List.find (bit w) [0..<8] of None \<Rightarrow> 8 | Some i \<Rightarrow> i)"

text \<open>The pop of \<^verbatim>\<open>pick_next\<close> and of \<^verbatim>\<open>balance_load\<close>, with the update of the bitmap.\<close>

definition pop_class :: "nat \<Rightarrow> cpu_scheduler \<Rightarrow> pid option \<times> cpu_scheduler" where
  "pop_class idx cs =
     (case pq_pop (queues cs ! idx) of
        (None, q) \<Rightarrow> (None, cs\<lparr>queues := (queues cs)[idx := q]\<rparr>)
      | (Some p, q) \<Rightarrow>
          let cs = cs\<lparr>queues := (queues cs)[idx := q]\<rparr>
          in (Some p, if pq_queue q = []
                      then cs\<lparr>active_bitmap := active_bitmap cs AND NOT (push_bit idx 1)\<rparr>
                      else cs))"

definition pick_next :: "bool \<Rightarrow> cpu_scheduler \<Rightarrow> pid option \<times> cpu_scheduler" where
  "pick_next idle cs =
     (if active_bitmap cs = 0 then (None, cs)
      else let highest_priority = trailing_zeros (active_bitmap cs)
           in if NUM_PRIORITIES \<le> highest_priority then (None, cs)
              else if highest_priority = prio_index Dream \<and> \<not> idle then (None, cs)
              else pop_class highest_priority cs)"

definition total_load :: "cpu_scheduler \<Rightarrow> nat" where
  "total_load cs = sum_list (map (\<lambda>q. length (pq_queue q)) (queues cs))"

text \<open>
  The global state: the schedulers, the process table, \<^verbatim>\<open>CURRENT_PID\<close>, the idle detection, and
  the number of CPUs that \<^verbatim>\<open>get_cpu_count\<close> reports (a byte).
\<close>

record sched_state =
  cpus :: "cpu_scheduler list"
  table :: process_table
  current_pid :: u64
  system_idle :: bool
  idle_ticks :: u64
  total_context_switches :: u64
  cpu_count :: nat

definition set_cpu :: "sched_state \<Rightarrow> nat \<Rightarrow> cpu_scheduler \<Rightarrow> sched_state" where
  "set_cpu s cpu cs = s\<lparr>cpus := (cpus s)[cpu := cs]\<rparr>"

definition USIZE_MAX :: nat where
  "USIZE_MAX = 2 ^ 64 - 1"

text \<open>The scan for the least loaded CPU, over the CPUs given.\<close>

definition least_loaded :: "sched_state \<Rightarrow> nat list \<Rightarrow> nat" where
  "least_loaded s cs =
     snd (fold (\<lambda>cpu (min_load, target).
            let load = total_load (cpus s ! cpu)
            in if load < min_load then (load, cpu) else (min_load, target)) cs (USIZE_MAX, 0))"

definition preferred_cpu :: "sched_state \<Rightarrow> pid \<Rightarrow> nat option" where
  "preferred_cpu s p = (case pt_get (table s) p of
     Some proc \<Rightarrow>
       if cpu_affinity proc \<noteq> 0
       then List.find (\<lambda>cpu. cpu_affinity proc AND push_bit (cpu mod 64) 1 \<noteq> 0) [0..<cpu_count s]
       else None
   | None \<Rightarrow> None)"

definition add_to_scheduler_with_priority :: "sched_state \<Rightarrow> pid \<Rightarrow> priority_class \<Rightarrow> sched_state" where
  "add_to_scheduler_with_priority s p c =
     (let target_cpu = (case preferred_cpu s p of
            Some cpu \<Rightarrow> cpu | None \<Rightarrow> least_loaded s [0..<cpu_count s])
      in set_cpu s target_cpu (enqueue (cpus s ! target_cpu) p c))"

definition add_to_scheduler :: "sched_state \<Rightarrow> pid \<Rightarrow> sched_state" where
  "add_to_scheduler s p = add_to_scheduler_with_priority s p Normal"

definition remove_from_scheduler :: "sched_state \<Rightarrow> pid \<Rightarrow> sched_state" where
  "remove_from_scheduler s p =
     fold (\<lambda>cpu s. set_cpu s cpu (dequeue (cpus s ! cpu) p)) [0..<cpu_count s] s"

text \<open>\<^verbatim>\<open>schedule\<close> in three parts: the current process keeps its slice; it is queued again; idle.\<close>

definition slice_left :: "sched_state \<Rightarrow> cpu_scheduler \<Rightarrow> pid option" where
  "slice_left s cs =
     (if 0 < cs_time_slice cs
      then case cs_current cs of
             Some c \<Rightarrow> (case pt_get (table s) c of
                 Some proc \<Rightarrow> if p_state proc = Running then Some c else None
               | None \<Rightarrow> None)
           | None \<Rightarrow> None
      else None)"

definition requeue_current :: "sched_state \<Rightarrow> cpu_scheduler \<Rightarrow> cpu_scheduler" where
  "requeue_current s cs = (case cs_current cs of
     Some c \<Rightarrow> (case pt_get (table s) c of
         Some proc \<Rightarrow>
           if p_state proc = Running \<or> p_state proc = Ready then enqueue cs c (priority proc) else cs
       | None \<Rightarrow> cs)
   | None \<Rightarrow> cs)"

definition no_process :: "nat \<Rightarrow> sched_state \<Rightarrow> cpu_scheduler \<Rightarrow> pid option \<times> sched_state" where
  "no_process cpu s cs =
     (None, (set_cpu s cpu (cs\<lparr>cs_idle_ticks := cs_idle_ticks cs + 1, cs_current := None\<rparr>))
        \<lparr>idle_ticks := idle_ticks s + 1,
         system_idle := (if 100 < idle_ticks s then True else system_idle s)\<rparr>)"

definition schedule :: "nat \<Rightarrow> sched_state \<Rightarrow> pid option \<times> sched_state" where
  "schedule cpu s =
     (let cs = cpus s ! cpu;
          ticked = (if 0 < cs_time_slice cs then cs\<lparr>cs_time_slice := cs_time_slice cs - 1\<rparr> else cs)
      in case slice_left s ticked of
           Some c \<Rightarrow> (Some c, set_cpu s cpu ticked)
         | None \<Rightarrow> (case pick_next (system_idle s) (requeue_current s ticked) of
             (Some next_pid, cs) \<Rightarrow> (case pt_get (table s) next_pid of
                 Some proc \<Rightarrow>
                   (Some next_pid,
                    (set_cpu s cpu (cs\<lparr>cs_current := Some next_pid, cs_time_slice := p_time_slice proc,
                                      context_switches := context_switches cs + 1\<rparr>))
                      \<lparr>total_context_switches := total_context_switches s + 1,
                       idle_ticks := 0, system_idle := False\<rparr>)
               | None \<Rightarrow> no_process cpu s cs)
           | (None, cs) \<Rightarrow> no_process cpu s cs))"

definition yield_cpu :: "nat \<Rightarrow> sched_state \<Rightarrow> sched_state" where
  "yield_cpu cpu s = (case get_current_pid (current_pid s) of
     None \<Rightarrow> s
   | Some c \<Rightarrow>
       let cs = (cpus s ! cpu)\<lparr>cs_time_slice := 0\<rparr>
       in set_cpu s cpu (case pt_get (table s) c of
            Some proc \<Rightarrow> enqueue cs c (priority proc) | None \<Rightarrow> cs))"

definition set_priority :: "sched_state \<Rightarrow> pid \<Rightarrow> priority_class \<Rightarrow> sched_state" where
  "set_priority s p c =
     (let s = remove_from_scheduler s p;
          s = s\<lparr>table := pt_modify (table s) p
                 (\<lambda>proc. proc\<lparr>priority := c, p_time_slice := time_slice_for_priority c\<rparr>)\<rparr>
      in add_to_scheduler_with_priority s p c)"

definition set_intent :: "sched_state \<Rightarrow> pid \<Rightarrow> process_intent \<Rightarrow> sched_state" where
  "set_intent s p i = s\<lparr>table := pt_modify (table s) p (\<lambda>proc. proc_set_intent proc i)\<rparr>"

text \<open>
  \<^verbatim>\<open>balance_load\<close>: the inner \<^verbatim>\<open>while\<close> tests a load that its body never updates, so it empties the
  queue; it is a partial function because it would run forever if the target were the CPU itself.
\<close>

definition migrate_one :: "nat \<Rightarrow> nat \<Rightarrow> sched_state \<Rightarrow> sched_state" where
  "migrate_one cpu idx s = (case pop_class idx (cpus s ! cpu) of
     (None, cs) \<Rightarrow> set_cpu s cpu cs
   | (Some p, cs) \<Rightarrow>
       let s = set_cpu s cpu cs;
           target_cpu = least_loaded s (filter (\<lambda>other. other \<noteq> cpu) [0..<cpu_count s]);
           c = (case prio_try_from idx of Some c \<Rightarrow> c | None \<Rightarrow> Normal)
       in set_cpu s target_cpu (enqueue (cpus s ! target_cpu) p c))"

partial_function (option) drain_class ::
    "nat \<Rightarrow> nat \<Rightarrow> nat \<Rightarrow> nat \<Rightarrow> sched_state \<Rightarrow> sched_state option" where
  "drain_class load avg_load cpu idx s =
     (if 0 < length (pq_queue (queues (cpus s ! cpu) ! idx)) \<and> avg_load < load
      then drain_class load avg_load cpu idx (migrate_one cpu idx s)
      else Some s)"

definition balance_cpu :: "nat \<Rightarrow> nat \<Rightarrow> sched_state \<Rightarrow> sched_state option" where
  "balance_cpu avg_load cpu s =
     (let load = total_load (cpus s ! cpu)
      in if avg_load + 1 < load
         then ofold (drain_class load avg_load cpu) (rev [0..<NUM_PRIORITIES]) s
         else Some s)"

definition balance_load :: "sched_state \<Rightarrow> sched_state option" where
  "balance_load s =
     (if cpu_count s \<le> 1 then Some s
      else let total = sum_list (map (\<lambda>cpu. total_load (cpus s ! cpu)) [0..<cpu_count s])
           in if total = 0 then Some s
              else ofold (balance_cpu (total div cpu_count s)) [0..<cpu_count s] s)"

definition get_cpu_stats :: "sched_state \<Rightarrow> nat \<Rightarrow> nat \<times> u64 \<times> u64" where
  "get_cpu_stats s cpu =
     (let cs = cpus s ! cpu in (total_load cs, context_switches cs, cs_idle_ticks cs))"

record scheduler_stats =
  total_processes :: nat
  st_context_switches :: u64
  st_idle_ticks :: u64
  is_idle :: bool

definition get_global_stats :: "sched_state \<Rightarrow> scheduler_stats" where
  "get_global_stats s =
     (let cs = map ((!) (cpus s)) [0..<cpu_count s]
      in \<lparr>total_processes = sum_list (map total_load cs),
          st_context_switches = sum_list (map context_switches cs),
          st_idle_ticks = sum_list (map cs_idle_ticks cs), is_idle = system_idle s\<rparr>)"

text \<open>\<^verbatim>\<open>exit_process\<close> of \<^verbatim>\<open>process/mod.rs\<close>.\<close>

definition exit_process :: "nat \<Rightarrow> sched_state \<Rightarrow> sched_state" where
  "exit_process cpu s = (case get_current_pid (current_pid s) of
     None \<Rightarrow> s
   | Some c \<Rightarrow>
       let s = (case pt_get (table s) c of
             Some _ \<Rightarrow> remove_from_scheduler
               (s\<lparr>table := pt_modify (table s) c (\<lambda>proc. proc\<lparr>p_state := Zombie\<rparr>)\<rparr>) c
           | None \<Rightarrow> s)
       in yield_cpu cpu s)"

text \<open>
  \<^verbatim>\<open>switch_to_process\<close> of \<^verbatim>\<open>process/context.rs\<close> up to the change of \<^verbatim>\<open>CURRENT_PID\<close>; the exchange of the
  machine registers that follows is assembly. \<^verbatim>\<open>expect\<close> panics when the process is missing.
\<close>

definition switch_to_process :: "pid \<Rightarrow> sched_state \<Rightarrow> sched_state res" where
  "switch_to_process new s =
     (if get_current_pid (current_pid s) = Some new then Inr s
      else let t = (case get_current_pid (current_pid s) of
                 Some c \<Rightarrow> pt_modify (table s) c (\<lambda>proc. proc\<lparr>p_state := Ready\<rparr>)
               | None \<Rightarrow> table s)
           in case pt_get t new of
                None \<Rightarrow> Inl ''Process not found''
              | Some _ \<Rightarrow>
                  Inr (s\<lparr>table := pt_modify t new (\<lambda>proc. proc\<lparr>p_state := Running\<rparr>),
                         current_pid := new\<rparr>))"

definition timer_interrupt_handler :: "nat \<Rightarrow> sched_state \<Rightarrow> sched_state res" where
  "timer_interrupt_handler cpu s = (case schedule cpu s of
     (Some next_pid, s) \<Rightarrow> switch_to_process next_pid s
   | (None, s) \<Rightarrow> Inr s)"

section \<open>The run queues of one CPU\<close>

abbreviation runq :: "cpu_scheduler \<Rightarrow> nat \<Rightarrow> pid list" where
  "runq cs i \<equiv> pq_queue (queues cs ! i)"

text \<open>The bitmap and the flags agree with the queues, and no queue holds a process twice.\<close>

definition cs_wf :: "cpu_scheduler \<Rightarrow> bool" where
  "cs_wf cs \<longleftrightarrow> length (queues cs) = NUM_PRIORITIES \<and>
     (\<forall>i. bit (active_bitmap cs) i \<longleftrightarrow> i < NUM_PRIORITIES \<and> runq cs i \<noteq> []) \<and>
     (\<forall>i<NUM_PRIORITIES. (pq_active (queues cs ! i) \<longleftrightarrow> runq cs i \<noteq> []) \<and> distinct (runq cs i))"

lemma prio_index_bound [simp]: "prio_index c < NUM_PRIORITIES"
  by (cases c) (simp_all add: NUM_PRIORITIES_def)

lemma prio_index_inj [simp]: "prio_index c = prio_index d \<longleftrightarrow> c = d"
  by (cases c; cases d) simp_all

lemma prio_try_from_index [simp]: "prio_try_from (prio_index c) = Some c"
  by (cases c) (simp_all add: prio_try_from_def)

lemma prio_index_surj: "i < NUM_PRIORITIES \<Longrightarrow> \<exists>c. i = prio_index c"
proof -
  assume "i < NUM_PRIORITIES"
  then have "i \<in> {0, 1, 2, 3, 4}" by (auto simp: NUM_PRIORITIES_def)
  moreover have "prio_index RealTime = 0" "prio_index Interactive = 1" "prio_index Normal = 2"
    "prio_index Background = 3" "prio_index Dream = 4" by simp_all
  ultimately show ?thesis by (metis insertE singletonD)
qed

lemma new_cpu_scheduler_wf: "cs_wf new_cpu_scheduler"
  by (auto simp: cs_wf_def new_cpu_scheduler_def new_priority_queue_def)

text \<open>Every operation replaces one queue together with its bit.\<close>

definition set_class :: "nat \<Rightarrow> priority_queue \<Rightarrow> cpu_scheduler \<Rightarrow> cpu_scheduler" where
  "set_class i q cs = cs\<lparr>queues := (queues cs)[i := q],
     active_bitmap := (if pq_queue q = [] then active_bitmap cs AND NOT (push_bit i 1)
                       else active_bitmap cs OR push_bit i 1)\<rparr>"

definition pq_ok :: "priority_queue \<Rightarrow> bool" where
  "pq_ok q \<longleftrightarrow> (pq_active q \<longleftrightarrow> pq_queue q \<noteq> []) \<and> distinct (pq_queue q)"

lemma cs_wf_pq_ok: "cs_wf cs \<Longrightarrow> i < NUM_PRIORITIES \<Longrightarrow> pq_ok (queues cs ! i)"
  by (simp add: cs_wf_def pq_ok_def)

lemma pq_ok_ops:
  assumes "pq_ok q"
  shows "pq_ok (pq_push q p)" and "pq_ok (snd (pq_pop q))" and "pq_ok (pq_remove q p)"
  using assms
  by (auto simp: pq_ok_def pq_push_def pq_pop_def pq_remove_def Let_def distinct_tl
      split: list.splits)

lemma set_class_runq:
  "cs_wf cs \<Longrightarrow> j < NUM_PRIORITIES \<Longrightarrow>
   runq (set_class i q cs) j = (if j = i then pq_queue q else runq cs j)"
  by (simp add: set_class_def cs_wf_def nth_list_update)

lemma set_class_wf:
  assumes wf: "cs_wf cs" and i: "i < NUM_PRIORITIES" and q: "pq_ok q"
  shows "cs_wf (set_class i q cs)"
proof -
  have "i < 8" using i by (simp add: NUM_PRIORITIES_def)
  then have "bit (active_bitmap (set_class i q cs)) j \<longleftrightarrow>
      (if j = i then pq_queue q \<noteq> [] else bit (active_bitmap cs) j)" for j
    by (auto simp: set_class_def bit_or_iff bit_and_iff bit_not_iff bit_exp_word
        dest: bit_imp_le_length)
  moreover have "length (queues (set_class i q cs)) = NUM_PRIORITIES"
    using wf by (simp add: set_class_def cs_wf_def)
  moreover have "pq_active (queues (set_class i q cs) ! j) = pq_active (if j = i then q else queues cs ! j)"
    if "j < NUM_PRIORITIES" for j
    using wf that by (simp add: set_class_def cs_wf_def nth_list_update)
  ultimately show ?thesis
    using wf i q set_class_runq [OF wf, of _ i q] by (auto simp: cs_wf_def pq_ok_def)
qed

lemma bit_or_same: "bit (w :: u8) i \<Longrightarrow> w OR 2 ^ i = w"
  by (rule bit_word_eqI) (auto simp: bit_or_iff bit_exp_word)

lemma and_not_same: "\<not> bit (w :: u8) i \<Longrightarrow> w AND NOT (2 ^ i) = w"
  by (rule bit_word_eqI) (auto simp: bit_and_iff bit_not_iff bit_exp_word)

lemma enqueue_set_class:
  assumes "cs_wf cs"
  shows "enqueue cs p c = set_class (prio_index c) (pq_push (queues cs ! prio_index c) p) cs"
  using assms by (auto simp: enqueue_def set_class_def pq_push_def Let_def)

lemma pop_class_set_class:
  assumes "cs_wf cs" and "i < NUM_PRIORITIES"
  shows "pop_class i cs = (fst (pq_pop (queues cs ! i)), set_class i (snd (pq_pop (queues cs ! i))) cs)"
proof (cases "runq cs i")
  case Nil
  with assms have "\<not> bit (active_bitmap cs) i" by (simp add: cs_wf_def)
  with Nil show ?thesis by (simp add: pop_class_def set_class_def pq_pop_def and_not_same)
next
  case (Cons p ps)
  with assms have "bit (active_bitmap cs) i" by (simp add: cs_wf_def)
  with Cons show ?thesis
    by (simp add: pop_class_def set_class_def pq_pop_def Let_def bit_or_same)
qed

lemma dequeue_class_set_class:
  assumes "cs_wf cs" and "i < NUM_PRIORITIES"
  shows "dequeue_class p i cs = set_class i (pq_remove (queues cs ! i) p) cs"
proof (cases "pq_queue (pq_remove (queues cs ! i) p) = []")
  case True
  then show ?thesis by (simp add: dequeue_class_def set_class_def Let_def)
next
  case False
  then have "runq cs i \<noteq> []" by (auto simp: pq_remove_def Let_def)
  with assms have "bit (active_bitmap cs) i" by (simp add: cs_wf_def)
  with False show ?thesis by (simp add: dequeue_class_def set_class_def Let_def bit_or_same)
qed

lemma enqueue_runq:
  assumes "cs_wf cs" and "i < NUM_PRIORITIES"
  shows "runq (enqueue cs p c) i =
    (if i = prio_index c \<and> p \<notin> set (runq cs i) then runq cs i @ [p] else runq cs i)"
  using assms by (simp add: enqueue_set_class set_class_runq pq_push_def)

lemma enqueue_wf: "cs_wf cs \<Longrightarrow> cs_wf (enqueue cs p c)"
  by (simp add: enqueue_set_class set_class_wf pq_ok_ops cs_wf_pq_ok)

lemma pop_class_wf:
  assumes "cs_wf cs" and "i < NUM_PRIORITIES"
  shows "cs_wf (snd (pop_class i cs))"
    and "fst (pop_class i cs) = (case runq cs i of [] \<Rightarrow> None | p # _ \<Rightarrow> Some p)"
    and "j < NUM_PRIORITIES \<Longrightarrow> runq (snd (pop_class i cs)) j = (if j = i then tl (runq cs i) else runq cs j)"
  using assms
  by (simp_all add: pop_class_set_class set_class_wf pq_ok_ops cs_wf_pq_ok set_class_runq)
    (simp_all add: pq_pop_def Let_def split: list.split)

lemma dequeue_fold:
  assumes "cs_wf cs" and "n \<le> NUM_PRIORITIES"
  shows "cs_wf (fold (dequeue_class p) [0..<n] cs) \<and>
    (\<forall>j<NUM_PRIORITIES. runq (fold (dequeue_class p) [0..<n] cs) j =
       (if j < n then filter (\<lambda>x. x \<noteq> p) (runq cs j) else runq cs j))"
  using assms(2)
proof (induction n)
  case 0
  with assms(1) show ?case by simp
next
  case (Suc n)
  let ?cs = "fold (dequeue_class p) [0..<n] cs"
  have ih: "cs_wf ?cs" "\<forall>j<NUM_PRIORITIES. runq ?cs j =
      (if j < n then filter (\<lambda>x. x \<noteq> p) (runq cs j) else runq cs j)" and n: "n < NUM_PRIORITIES"
    using Suc by auto
  have eq: "fold (dequeue_class p) [0..<Suc n] cs = set_class n (pq_remove (queues ?cs ! n) p) ?cs"
    using dequeue_class_set_class [OF ih(1) n] by simp
  have q: "pq_queue (pq_remove (queues ?cs ! n) p) = filter (\<lambda>x. x \<noteq> p) (runq cs n)"
    using ih(2) n by (simp add: pq_remove_def Let_def)
  show ?case
    unfolding eq using ih n set_class_wf [OF ih(1) n pq_ok_ops(3) [OF cs_wf_pq_ok [OF ih(1) n]]]
    by (auto simp: set_class_runq [OF ih(1)] q less_Suc_eq)
qed

lemma dequeue_wf:
  assumes "cs_wf cs"
  shows "cs_wf (dequeue cs p)"
    and "j < NUM_PRIORITIES \<Longrightarrow> runq (dequeue cs p) j = filter (\<lambda>x. x \<noteq> p) (runq cs j)"
  using dequeue_fold [OF assms order_refl, of p] assms by (simp_all add: dequeue_def cs_wf_def)

text \<open>
  The bit search: the lowest set bit is the first class with a non-empty queue.
\<close>

definition first_class :: "cpu_scheduler \<Rightarrow> nat option" where
  "first_class cs = List.find (\<lambda>i. runq cs i \<noteq> []) [0..<NUM_PRIORITIES]"

lemma find_upt_Some_iff:
  "List.find P [0..<n] = Some i \<longleftrightarrow> i < n \<and> P i \<and> (\<forall>j<i. \<not> P j)"
  using find_Some_least [of P 0 n i] find_upt_Some [of 0 i n P] by auto

lemma trailing_zeros_first_class:
  assumes "cs_wf cs"
  shows "(case first_class cs of None \<Rightarrow> active_bitmap cs = 0
    | Some i \<Rightarrow> i < NUM_PRIORITIES \<and> active_bitmap cs \<noteq> 0 \<and> trailing_zeros (active_bitmap cs) = i)"
proof -
  have bits: "bit (active_bitmap cs) i \<longleftrightarrow> i < NUM_PRIORITIES \<and> runq cs i \<noteq> []" for i
    using assms by (simp add: cs_wf_def)
  show ?thesis
  proof (cases "first_class cs")
    case None
    then have "\<forall>i<NUM_PRIORITIES. runq cs i = []" by (auto simp: first_class_def find_None_iff)
    then have "active_bitmap cs = 0" by (intro bit_word_eqI) (simp add: bits)
    with None show ?thesis by simp
  next
    case (Some i)
    then have i: "i < NUM_PRIORITIES" "runq cs i \<noteq> []" "\<forall>j<i. runq cs j = []"
      by (simp_all add: first_class_def find_upt_Some_iff)
    have "List.find (bit (active_bitmap cs)) [0..<8] = Some i"
      unfolding find_upt_Some_iff using i by (simp add: bits NUM_PRIORITIES_def)
    then have "trailing_zeros (active_bitmap cs) = i" by (simp add: trailing_zeros_def)
    moreover have "active_bitmap cs \<noteq> 0" using bits [of i] i by auto
    ultimately show ?thesis using Some i by simp
  qed
qed

lemma pick_next_wf:
  assumes wf: "cs_wf cs"
  shows "cs_wf (snd (pick_next idle cs))"
    and "fst (pick_next idle cs) = (case first_class cs of None \<Rightarrow> None
      | Some i \<Rightarrow> if i = prio_index Dream \<and> \<not> idle then None else Some (hd (runq cs i)))"
    and "j < NUM_PRIORITIES \<Longrightarrow> runq (snd (pick_next idle cs)) j =
      (if fst (pick_next idle cs) \<noteq> None \<and> first_class cs = Some j then tl (runq cs j) else runq cs j)"
proof -
  have "cs_wf (snd (pick_next idle cs)) \<and>
    fst (pick_next idle cs) = (case first_class cs of None \<Rightarrow> None
      | Some i \<Rightarrow> if i = prio_index Dream \<and> \<not> idle then None else Some (hd (runq cs i))) \<and>
    (\<forall>j<NUM_PRIORITIES. runq (snd (pick_next idle cs)) j =
      (if fst (pick_next idle cs) \<noteq> None \<and> first_class cs = Some j then tl (runq cs j) else runq cs j))"
  proof (cases "first_class cs")
    case None
    with trailing_zeros_first_class [OF wf] wf show ?thesis by (simp add: pick_next_def)
  next
    case (Some i)
    with trailing_zeros_first_class [OF wf]
    have i: "i < NUM_PRIORITIES" "active_bitmap cs \<noteq> 0" "trailing_zeros (active_bitmap cs) = i"
      by simp_all
    have ne: "runq cs i \<noteq> []" using Some by (simp add: first_class_def find_upt_Some_iff)
    have eq: "pick_next idle cs =
        (if i = prio_index Dream \<and> \<not> idle then (None, cs) else pop_class i cs)"
      using i by (simp add: pick_next_def Let_def)
    show ?thesis
      using wf Some i ne pop_class_wf [OF wf i(1)] unfolding eq
      by (cases "runq cs i") auto
  qed
  then show "cs_wf (snd (pick_next idle cs))"
    and "fst (pick_next idle cs) = (case first_class cs of None \<Rightarrow> None
      | Some i \<Rightarrow> if i = prio_index Dream \<and> \<not> idle then None else Some (hd (runq cs i)))"
    and "j < NUM_PRIORITIES \<Longrightarrow> runq (snd (pick_next idle cs)) j =
      (if fst (pick_next idle cs) \<noteq> None \<and> first_class cs = Some j then tl (runq cs j) else runq cs j)"
    by simp_all
qed

text \<open>The processes queued on a CPU; no queue operation but the pop loses one.\<close>

definition queued :: "cpu_scheduler \<Rightarrow> pid set" where
  "queued cs = (\<Union>i<NUM_PRIORITIES. set (runq cs i))"

lemma queued_enqueue:
  assumes "cs_wf cs"
  shows "queued (enqueue cs p c) = insert p (queued cs)"
proof -
  have *: "set (runq (enqueue cs p c) i) = (if i = prio_index c then {p} else {}) \<union> set (runq cs i)"
    if "i < NUM_PRIORITIES" for i
    using enqueue_runq [OF assms that, of p c] by auto
  have "queued (enqueue cs p c) = (\<Union>i<NUM_PRIORITIES. if i = prio_index c then {p} else {}) \<union> queued cs"
    by (simp add: queued_def * UN_Un_distrib)
  also have "(\<Union>i<NUM_PRIORITIES. if i = prio_index c then {p} else {}) = {p}"
    using prio_index_bound [of c] by (auto split: if_splits)
  finally show ?thesis by simp
qed

lemma queued_pick_next:
  assumes wf: "cs_wf cs"
  shows "queued cs \<subseteq> queued (snd (pick_next idle cs)) \<union> set_option (fst (pick_next idle cs))"
proof
  fix p assume "p \<in> queued cs"
  then obtain j where j: "j < NUM_PRIORITIES" "p \<in> set (runq cs j)" by (auto simp: queued_def)
  show "p \<in> queued (snd (pick_next idle cs)) \<union> set_option (fst (pick_next idle cs))"
  proof (cases "p \<in> set (runq (snd (pick_next idle cs)) j)")
    case True
    with j show ?thesis by (auto simp: queued_def)
  next
    case False
    with j pick_next_wf(3) [OF wf j(1)] have "fst (pick_next idle cs) \<noteq> None" "first_class cs = Some j"
      "p \<notin> set (tl (runq cs j))" by (auto split: if_splits)
    with pick_next_wf(2) [OF wf, of idle] j(2) have "fst (pick_next idle cs) = Some p"
      by (cases "runq cs j") (auto split: if_splits)
    then show ?thesis by simp
  qed
qed

text \<open>How often a process is queued on a CPU, and how often it is queued or current there.\<close>

definition times_queued :: "cpu_scheduler \<Rightarrow> pid \<Rightarrow> nat" where
  "times_queued cs p = (\<Sum>i<NUM_PRIORITIES. count_list (runq cs i) p)"

definition times_present :: "cpu_scheduler \<Rightarrow> pid \<Rightarrow> nat" where
  "times_present cs p = times_queued cs p + (if cs_current cs = Some p then 1 else 0)"

lemma times_queued_pos: "0 < times_queued cs p \<longleftrightarrow> p \<in> queued cs"
proof -
  have "times_queued cs p = 0 \<longleftrightarrow> p \<notin> queued cs"
    by (simp add: times_queued_def queued_def count_list_0_iff)
  then show ?thesis by auto
qed

lemma times_queued_enqueue:
  assumes "cs_wf cs"
  shows "times_queued (enqueue cs x c) p \<le> times_queued cs p + (if p = x then 1 else 0)"
proof -
  have "times_queued (enqueue cs x c) p \<le>
      (\<Sum>i<NUM_PRIORITIES. count_list (runq cs i) p + (if i = prio_index c \<and> p = x then 1 else 0))"
    unfolding times_queued_def by (intro sum_mono) (simp add: enqueue_runq [OF assms])
  also have "\<dots> = times_queued cs p + (if p = x then 1 else 0)"
    using prio_index_bound [of c] by (simp add: times_queued_def sum.distrib)
  finally show ?thesis .
qed

lemma times_queued_pick_next:
  assumes wf: "cs_wf cs"
  shows "times_queued (snd (pick_next idle cs)) p + (if fst (pick_next idle cs) = Some p then 1 else 0) = times_queued cs p"
proof (cases "fst (pick_next idle cs)")
  case None
  then show ?thesis using pick_next_wf(3) [OF wf] by (simp add: times_queued_def)
next
  case (Some q)
  with pick_next_wf(2) [OF wf, of idle] obtain j where j: "first_class cs = Some j" "q = hd (runq cs j)"
    by (auto split: option.splits if_splits)
  then have jn: "j < NUM_PRIORITIES" "runq cs j \<noteq> []" by (simp_all add: first_class_def find_upt_Some_iff)
  have "times_queued cs p = (\<Sum>i<NUM_PRIORITIES. count_list (runq (snd (pick_next idle cs)) i) p + (if i = j \<and> p = q then 1 else 0))"
    unfolding times_queued_def
  proof (intro sum.cong refl)
    fix i assume "i \<in> {..<NUM_PRIORITIES}"
    with pick_next_wf(3) [OF wf, of i idle] Some j jn show "count_list (runq cs i) p =
        count_list (runq (snd (pick_next idle cs)) i) p + (if i = j \<and> p = q then 1 else 0)"
      by (cases "runq cs j") auto
  qed
  also have "\<dots> = times_queued (snd (pick_next idle cs)) p + (if p = q then 1 else 0)"
    using jn(1) by (simp add: times_queued_def sum.distrib)
  finally show ?thesis using Some by simp
qed

section \<open>The whole scheduler\<close>

definition MAX_CPUS :: nat where
  "MAX_CPUS = 256"

definition sys_wf :: "sched_state \<Rightarrow> bool" where
  "sys_wf s \<longleftrightarrow> length (cpus s) = MAX_CPUS \<and> cpu_count s < MAX_CPUS \<and>
     (\<forall>cpu<MAX_CPUS. cs_wf (cpus s ! cpu)) \<and> pt_inv (table s)"

lemma cs_wf_fields [simp]:
  "cs_wf (cs\<lparr>cs_current := x\<rparr>) = cs_wf cs" "cs_wf (cs\<lparr>cs_time_slice := n\<rparr>) = cs_wf cs"
  "cs_wf (cs\<lparr>context_switches := n\<rparr>) = cs_wf cs" "cs_wf (cs\<lparr>cs_idle_ticks := n\<rparr>) = cs_wf cs"
  by (simp_all add: cs_wf_def)

lemma sys_wf_fields [simp]:
  "sys_wf (s\<lparr>current_pid := n\<rparr>) = sys_wf s" "sys_wf (s\<lparr>system_idle := b\<rparr>) = sys_wf s"
  "sys_wf (s\<lparr>idle_ticks := n\<rparr>) = sys_wf s" "sys_wf (s\<lparr>total_context_switches := n\<rparr>) = sys_wf s"
  by (simp_all add: sys_wf_def)

lemma sys_wf_cpu: "sys_wf s \<Longrightarrow> cpu < MAX_CPUS \<Longrightarrow> cs_wf (cpus s ! cpu)"
  by (simp add: sys_wf_def)

lemma sys_wf_table: "sys_wf s \<Longrightarrow> pt_inv t \<Longrightarrow> sys_wf (s\<lparr>table := t\<rparr>)"
  by (simp add: sys_wf_def)

lemma set_cpu_wf: "sys_wf s \<Longrightarrow> cs_wf cs \<Longrightarrow> sys_wf (set_cpu s cpu cs)"
  by (cases "cpu < MAX_CPUS") (auto simp: sys_wf_def set_cpu_def nth_list_update)

lemma set_cpu_simps [simp]:
  "table (set_cpu s cpu cs) = table s" "cpu_count (set_cpu s cpu cs) = cpu_count s"
  "current_pid (set_cpu s cpu cs) = current_pid s"
  by (simp_all add: set_cpu_def)

lemma cpus_set_cpu:
  "sys_wf s \<Longrightarrow> cpu < MAX_CPUS \<Longrightarrow>
   cpus (set_cpu s cpu cs) ! other = (if other = cpu then cs else cpus s ! other)"
  by (simp add: set_cpu_def sys_wf_def nth_list_update)

lemma least_loaded_fold:
  fixes load :: "nat \<Rightarrow> nat"
  defines "step \<equiv> \<lambda>cpu (m, t). if load cpu < m then (load cpu, cpu) else (m, t)"
  assumes "fold step cs (m, t) = (m', t')"
  shows "(m' = m \<and> t' = t \<and> (\<forall>c\<in>set cs. m \<le> load c)) \<or>
    (t' \<in> set cs \<and> m' = load t' \<and> m' < m \<and> (\<forall>c\<in>set cs. m' \<le> load c))"
  using assms(2)
proof (induction cs arbitrary: m t)
  case (Cons c cs)
  show ?case
  proof (cases "load c < m")
    case True
    with Cons.prems have "fold step cs (load c, c) = (m', t')" by (simp add: step_def)
    from Cons.IH [OF this] True show ?thesis by auto
  next
    case False
    with Cons.prems have "fold step cs (m, t) = (m', t')" by (simp add: step_def)
    from Cons.IH [OF this] False show ?thesis by auto
  qed
qed simp

lemma least_loaded_min:
  assumes "cs \<noteq> []" and "\<And>c. c \<in> set cs \<Longrightarrow> total_load (cpus s ! c) < USIZE_MAX"
  shows "least_loaded s cs \<in> set cs \<and>
    (\<forall>c\<in>set cs. total_load (cpus s ! least_loaded s cs) \<le> total_load (cpus s ! c))"
proof -
  let ?load = "\<lambda>c. total_load (cpus s ! c)"
  let ?step = "\<lambda>cpu (m, t). if ?load cpu < m then (?load cpu, cpu) else (m, t)"
  obtain m' t' where r: "fold ?step cs (USIZE_MAX, 0) = (m', t')" by fastforce
  then have "least_loaded s cs = t'" by (simp add: least_loaded_def Let_def)
  moreover from assms obtain c where "c \<in> set cs" "?load c < USIZE_MAX" by (cases cs) auto
  ultimately show ?thesis using least_loaded_fold [of ?load cs USIZE_MAX 0, OF r] by auto
qed

lemma least_loaded_bound: "least_loaded s cs \<in> insert 0 (set cs)"
proof -
  let ?load = "\<lambda>c. total_load (cpus s ! c)"
  let ?step = "\<lambda>cpu (m, t). if ?load cpu < m then (?load cpu, cpu) else (m, t)"
  obtain m' t' where r: "fold ?step cs (USIZE_MAX, 0) = (m', t')" by fastforce
  then have "least_loaded s cs = t'" by (simp add: least_loaded_def Let_def)
  with least_loaded_fold [of ?load cs USIZE_MAX 0, OF r] show ?thesis by auto
qed

lemma least_loaded_cpu:
  assumes "sys_wf s" and "set cs \<subseteq> {..<cpu_count s}"
  shows "least_loaded s cs < MAX_CPUS"
  using least_loaded_bound [of s cs] assms by (auto simp: sys_wf_def MAX_CPUS_def)

lemma preferred_cpu_bound: "preferred_cpu s p = Some cpu \<Longrightarrow> cpu < cpu_count s"
  by (auto simp: preferred_cpu_def find_upt_Some_iff split: option.splits if_splits)

text \<open>Every operation keeps the invariant.\<close>

lemma add_target_bound:
  assumes "sys_wf s"
  shows "(case preferred_cpu s p of Some cpu \<Rightarrow> cpu | None \<Rightarrow> least_loaded s [0..<cpu_count s]) < MAX_CPUS"
proof (cases "preferred_cpu s p")
  case None
  with least_loaded_cpu [OF assms, of "[0..<cpu_count s]"] show ?thesis
    by (simp add: atLeast0LessThan)
next
  case (Some cpu)
  with preferred_cpu_bound [OF Some] assms show ?thesis by (simp add: sys_wf_def)
qed

lemma add_wf: "sys_wf s \<Longrightarrow> sys_wf (add_to_scheduler_with_priority s p c)"
  unfolding add_to_scheduler_with_priority_def Let_def
  by (intro set_cpu_wf enqueue_wf sys_wf_cpu add_target_bound)

lemma remove_fold:
  fixes p :: pid
  assumes "sys_wf s" and "n \<le> MAX_CPUS"
  defines "s' \<equiv> fold (\<lambda>cpu s. set_cpu s cpu (dequeue (cpus s ! cpu) p)) [0..<n] s"
  shows "sys_wf s' \<and> table s' = table s \<and> cpu_count s' = cpu_count s \<and> current_pid s' = current_pid s \<and>
    (\<forall>cpu<MAX_CPUS. cpus s' ! cpu = (if cpu < n then dequeue (cpus s ! cpu) p else cpus s ! cpu))"
  using assms(2) unfolding s'_def
proof (induction n)
  case 0
  with assms(1) show ?case by simp
next
  case (Suc n)
  let ?s = "fold (\<lambda>cpu s. set_cpu s cpu (dequeue (cpus s ! cpu) p)) [0..<n] s"
  have ih: "sys_wf ?s" "table ?s = table s" "cpu_count ?s = cpu_count s"
    "current_pid ?s = current_pid s"
    "\<forall>cpu<MAX_CPUS. cpus ?s ! cpu = (if cpu < n then dequeue (cpus s ! cpu) p else cpus s ! cpu)"
    and n: "n < MAX_CPUS" using Suc by auto
  have "cs_wf (dequeue (cpus ?s ! n) p)" using dequeue_wf(1) sys_wf_cpu [OF ih(1) n] .
  from set_cpu_wf [OF ih(1) this, of n] ih n show ?case
    by (auto simp: cpus_set_cpu less_Suc_eq)
qed

lemma remove_wf:
  assumes "sys_wf s"
  shows "sys_wf (remove_from_scheduler s p)" "table (remove_from_scheduler s p) = table s"
    "cpu_count (remove_from_scheduler s p) = cpu_count s"
    "current_pid (remove_from_scheduler s p) = current_pid s"
    "cpu < MAX_CPUS \<Longrightarrow> cpus (remove_from_scheduler s p) ! cpu =
      (if cpu < cpu_count s then dequeue (cpus s ! cpu) p else cpus s ! cpu)"
proof -
  have "cpu_count s \<le> MAX_CPUS" using assms by (simp add: sys_wf_def)
  note f = remove_fold [OF assms this, of p]
  show "sys_wf (remove_from_scheduler s p)" "table (remove_from_scheduler s p) = table s"
    "cpu_count (remove_from_scheduler s p) = cpu_count s"
    "current_pid (remove_from_scheduler s p) = current_pid s"
    "cpu < MAX_CPUS \<Longrightarrow> cpus (remove_from_scheduler s p) ! cpu =
      (if cpu < cpu_count s then dequeue (cpus s ! cpu) p else cpus s ! cpu)"
    using f by (simp_all add: remove_from_scheduler_def)
qed

lemma yield_wf: "sys_wf s \<Longrightarrow> cpu < MAX_CPUS \<Longrightarrow> sys_wf (yield_cpu cpu s)"
  by (auto simp: yield_cpu_def Let_def sys_wf_cpu intro!: set_cpu_wf enqueue_wf split: option.split)

lemma set_priority_wf: "sys_wf s \<Longrightarrow> sys_wf (set_priority s p c)"
  unfolding set_priority_def Let_def
  by (intro add_wf sys_wf_table remove_wf ptab.modify_inv) (simp_all add: remove_wf sys_wf_def [of s])

lemma set_intent_wf: "sys_wf s \<Longrightarrow> sys_wf (set_intent s p i)"
  unfolding set_intent_def
  by (intro sys_wf_table ptab.modify_inv)
    (simp_all add: sys_wf_def proc_set_intent_def Let_def split: process_intent.split)

lemma requeue_wf:
  assumes "cs_wf cs"
  shows "cs_wf (requeue_current s cs)" and "queued cs \<subseteq> queued (requeue_current s cs)"
    and "cs_current cs = Some p \<Longrightarrow> pt_get (table s) p = Some proc \<Longrightarrow>
      p_state proc = Running \<or> p_state proc = Ready \<Longrightarrow> p \<in> queued (requeue_current s cs)"
  using assms
  by (auto simp: requeue_current_def enqueue_wf queued_enqueue split: option.split)

lemma times_queued_requeue: "cs_wf cs \<Longrightarrow> times_queued (requeue_current s cs) p \<le> times_present cs p"
proof (cases "cs_current cs")
  case (Some c)
  assume "cs_wf cs"
  note enq = times_queued_enqueue [OF this, of c _ p]
  show ?thesis
  proof (cases "pt_get (table s) c")
    case (Some proc)
    with \<open>cs_current cs = Some c\<close> enq [of "priority proc"] show ?thesis
      by (cases "p = c") (simp_all add: requeue_current_def times_present_def)
  qed (simp add: requeue_current_def times_present_def \<open>cs_current cs = Some c\<close>)
qed (simp add: requeue_current_def times_present_def)

lemma no_process_wf:
  "sys_wf s \<Longrightarrow> cs_wf cs \<Longrightarrow> sys_wf (snd (no_process cpu s cs))"
  by (simp add: no_process_def set_cpu_wf)

text \<open>
  The three ways \<^verbatim>\<open>schedule\<close> ends, as one description of the new state of the CPU: \<open>cs'\<close> are the run
  queues afterwards and \<open>r\<close> is the process that runs.
\<close>

lemma schedule_cases:
  assumes "schedule cpu s = (r, s')"
  defines "ticked \<equiv> (if 0 < cs_time_slice (cpus s ! cpu)
    then (cpus s ! cpu)\<lparr>cs_time_slice := cs_time_slice (cpus s ! cpu) - 1\<rparr> else cpus s ! cpu)"
  obtains
    (keep) c where "r = Some c" "slice_left s ticked = Some c" "s' = set_cpu s cpu ticked"
  | (switch) p cs proc where "r = Some p" "pick_next (system_idle s) (requeue_current s ticked) = (Some p, cs)"
      "pt_get (table s) p = Some proc"
      "s' = (set_cpu s cpu (cs\<lparr>cs_current := Some p, cs_time_slice := p_time_slice proc,
               context_switches := context_switches cs + 1\<rparr>))
             \<lparr>total_context_switches := total_context_switches s + 1, idle_ticks := 0, system_idle := False\<rparr>"
  | (idle) q cs where "r = None" "pick_next (system_idle s) (requeue_current s ticked) = (q, cs)"
      "\<forall>p. q = Some p \<longrightarrow> pt_get (table s) p = None" "s' = snd (no_process cpu s cs)"
proof (cases "slice_left s ticked")
  case (Some c)
  with assms(1) show ?thesis
    by (intro keep [of c]) (auto simp: schedule_def Let_def simp flip: ticked_def)
next
  case None
  obtain q cs where pk: "pick_next (system_idle s) (requeue_current s ticked) = (q, cs)" by fastforce
  show ?thesis
  proof (cases "\<exists>p proc. q = Some p \<and> pt_get (table s) p = Some proc")
    case True
    then obtain p proc where "q = Some p" "pt_get (table s) p = Some proc" by blast
    with assms(1) None pk show ?thesis
      by (intro switch [of p cs proc]) (auto simp: schedule_def Let_def simp flip: ticked_def)
  next
    case False
    with assms(1) None pk show ?thesis
      by (intro idle [of q cs])
        (auto simp: schedule_def Let_def no_process_def simp flip: ticked_def split: option.splits)
  qed
qed

lemma schedule_wf:
  assumes wf: "sys_wf s" and cpu: "cpu < MAX_CPUS" and r: "schedule cpu s = (r, s')"
  shows "sys_wf s'" and "table s' = table s" and "current_pid s' = current_pid s"
    and "r = Some p \<Longrightarrow> pt_get (table s) p \<noteq> None"
proof -
  let ?t = "if 0 < cs_time_slice (cpus s ! cpu)
    then (cpus s ! cpu)\<lparr>cs_time_slice := cs_time_slice (cpus s ! cpu) - 1\<rparr> else cpus s ! cpu"
  have t: "cs_wf ?t" using sys_wf_cpu [OF wf cpu] by simp
  note pk = pick_next_wf(1) [OF requeue_wf(1) [OF t, of s], of "system_idle s"]
  from r have "sys_wf s' \<and> table s' = table s \<and> current_pid s' = current_pid s \<and>
    (r = Some p \<longrightarrow> pt_get (table s) p \<noteq> None)"
  proof (cases rule: schedule_cases)
    case (keep c)
    then show ?thesis
      using set_cpu_wf [OF wf t] by (auto simp: slice_left_def split: if_splits option.splits)
  next
    case (switch q cs proc)
    with pk have "cs_wf cs" by simp
    with switch wf show ?thesis by (auto simp: set_cpu_wf)
  next
    case (idle q cs)
    with pk have "cs_wf cs" by simp
    with idle no_process_wf [OF wf] show ?thesis by (simp add: no_process_def)
  qed
  then show "sys_wf s'" and "table s' = table s" and "current_pid s' = current_pid s"
    and "r = Some p \<Longrightarrow> pt_get (table s) p \<noteq> None" by simp_all
qed

lemma switch_wf:
  assumes wf: "sys_wf s" and r: "switch_to_process p s = Inr s'"
  shows "sys_wf s'" and "cpus s' = cpus s"
proof -
  have inv: "pt_inv (pt_modify t k (\<lambda>proc. proc\<lparr>p_state := st\<rparr>))" if "pt_inv t" for t k st
    using that by (rule ptab.modify_inv) simp
  have "pt_inv (table s)" using wf by (simp add: sys_wf_def)
  with r wf show "sys_wf s'"
    by (auto simp: switch_to_process_def Let_def inv intro!: sys_wf_table split: if_splits option.splits)
  show "cpus s' = cpus s"
    using r by (auto simp: switch_to_process_def Let_def split: if_splits option.splits)
qed

lemma exit_wf:
  assumes wf: "sys_wf s" and cpu: "cpu < MAX_CPUS"
  shows "sys_wf (exit_process cpu s)"
proof -
  have "pt_inv (pt_modify (table s) k (\<lambda>proc. proc\<lparr>p_state := Zombie\<rparr>))" for k
    using wf by (intro ptab.modify_inv) (simp_all add: sys_wf_def)
  then have "sys_wf (remove_from_scheduler
      (s\<lparr>table := pt_modify (table s) k (\<lambda>proc. proc\<lparr>p_state := Zombie\<rparr>)\<rparr>) k)" for k
    using wf by (intro remove_wf sys_wf_table)
  with wf cpu show ?thesis
    by (auto simp: exit_process_def Let_def intro!: yield_wf split: option.split)
qed

section \<open>Load balancing\<close>

definition sys_load :: "sched_state \<Rightarrow> nat" where
  "sys_load s = sum_list (map total_load (cpus s))"

text \<open>How often a process is queued in a class, on the CPUs in use.\<close>

definition class_count :: "sched_state \<Rightarrow> pid \<Rightarrow> nat \<Rightarrow> nat" where
  "class_count s p i = (\<Sum>cpu<cpu_count s. count_list (runq (cpus s ! cpu) i) p)"

text \<open>No process is queued more often in a class than before, and none disappears from one.\<close>

definition conserved :: "(pid \<Rightarrow> nat \<Rightarrow> nat) \<Rightarrow> (pid \<Rightarrow> nat \<Rightarrow> nat) \<Rightarrow> bool" where
  "conserved Q Q' \<longleftrightarrow> (\<forall>p. \<forall>i<NUM_PRIORITIES. Q' p i \<le> Q p i \<and> (0 < Q p i \<longrightarrow> 0 < Q' p i))"

lemma conserved_trans: "conserved Q Q' \<Longrightarrow> conserved Q' Q'' \<Longrightarrow> conserved Q Q''"
  unfolding conserved_def by (meson le_trans)

lemma total_load_sum:
  "cs_wf cs \<Longrightarrow> total_load cs = (\<Sum>i<NUM_PRIORITIES. length (runq cs i))"
  by (simp add: total_load_def cs_wf_def sum_list_sum_nth atLeast0LessThan)

lemma total_load_enqueue: "cs_wf cs \<Longrightarrow> total_load (enqueue cs p c) \<le> Suc (total_load cs)"
proof -
  assume wf: "cs_wf cs"
  have "(\<Sum>i<NUM_PRIORITIES. length (runq (enqueue cs p c) i))
      \<le> (\<Sum>i<NUM_PRIORITIES. length (runq cs i) + (if i = prio_index c then 1 else 0))"
    by (intro sum_mono) (simp add: enqueue_runq [OF wf])
  also have "\<dots> = Suc (\<Sum>i<NUM_PRIORITIES. length (runq cs i))"
    using prio_index_bound [of c] by (simp add: sum.distrib)
  finally show ?thesis by (simp add: total_load_sum wf enqueue_wf)
qed

lemma total_load_pop:
  assumes wf: "cs_wf cs" and i: "i < NUM_PRIORITIES" and ne: "runq cs i \<noteq> []"
  shows "Suc (total_load (snd (pop_class i cs))) = total_load cs"
proof -
  have "(\<Sum>j<NUM_PRIORITIES. length (runq cs j)) =
      (\<Sum>j<NUM_PRIORITIES. length (runq (snd (pop_class i cs)) j) + (if j = i then 1 else 0))"
    using ne by (intro sum.cong) (auto simp: pop_class_wf(3) [OF wf i])
  also have "\<dots> = Suc (\<Sum>j<NUM_PRIORITIES. length (runq (snd (pop_class i cs)) j))"
    using i by (simp add: sum.distrib)
  finally show ?thesis by (simp add: total_load_sum wf pop_class_wf(1) [OF wf i])
qed

lemma sys_load_set_cpu:
  assumes "sys_wf s" and "cpu < MAX_CPUS"
  shows "sys_load (set_cpu s cpu cs) + total_load (cpus s ! cpu) = sys_load s + total_load cs"
  using assms elem_le_sum_list [of cpu "map total_load (cpus s)"]
  by (simp add: sys_load_def set_cpu_def sys_wf_def map_update sum_list_update)

lemma load_le_sys: "sys_wf s \<Longrightarrow> cpu < MAX_CPUS \<Longrightarrow> total_load (cpus s ! cpu) \<le> sys_load s"
  using elem_le_sum_list [of cpu "map total_load (cpus s)"] by (simp add: sys_load_def sys_wf_def)

definition bal_inv :: "(pid \<Rightarrow> nat \<Rightarrow> nat) \<Rightarrow> nat \<Rightarrow> sched_state \<Rightarrow> bool" where
  "bal_inv Q n s \<longleftrightarrow> sys_wf s \<and> conserved Q (class_count s) \<and> cpu_count s = n \<and> sys_load s < USIZE_MAX"

text \<open>One migration moves the head of a queue to the same class of another CPU, where it is
  appended unless it is queued there already.\<close>

lemma migrate_one_step:
  assumes inv: "bal_inv Q n s" and n: "1 < n" and cpu: "cpu < n" and i: "i < NUM_PRIORITIES"
    and q: "runq (cpus s ! cpu) i = p # ps"
  obtains t where "t < n" "t \<noteq> cpu" "sys_wf (migrate_one cpu i s)" "cpu_count (migrate_one cpu i s) = n"
    "sys_load (migrate_one cpu i s) \<le> sys_load s"
    "\<And>o' j. j < NUM_PRIORITIES \<Longrightarrow> runq (cpus (migrate_one cpu i s) ! o') j =
      (if o' = t \<and> j = i \<and> p \<notin> set (runq (cpus s ! t) i) then runq (cpus s ! t) i @ [p]
       else if o' = cpu \<and> j = i then ps else runq (cpus s ! o') j)"
proof -
  have wf: "sys_wf s" and count: "cpu_count s = n" using inv by (simp_all add: bal_inv_def)
  have nM: "n < MAX_CPUS" using wf count by (simp add: sys_wf_def)
  then have cM: "cpu < MAX_CPUS" using cpu by simp
  note cw = sys_wf_cpu [OF wf cM]
  obtain cs where pop: "pop_class i (cpus s ! cpu) = (Some p, cs)"
    using pop_class_wf(2) [OF cw i] q by (cases "pop_class i (cpus s ! cpu)") auto
  have cs: "cs_wf cs" "\<And>j. j < NUM_PRIORITIES \<Longrightarrow> runq cs j = (if j = i then ps else runq (cpus s ! cpu) j)"
    using pop_class_wf(1,3) [OF cw i] pop q by auto
  obtain c where c: "i = prio_index c" using prio_index_surj [OF i] by blast
  define s1 where "s1 = set_cpu s cpu cs"
  have wf1: "sys_wf s1" unfolding s1_def by (rule set_cpu_wf [OF wf cs(1)])
  have load1: "Suc (sys_load s1) = sys_load s"
    using sys_load_set_cpu [OF wf cM, of cs] total_load_pop [OF cw i] q pop by (simp add: s1_def)
  define others where "others = filter (\<lambda>o'. o' \<noteq> cpu) [0..<n]"
  define t where "t = least_loaded s1 others"
  have "(if cpu = 0 then 1 else 0) \<in> set others" using n by (simp add: others_def)
  then have "others \<noteq> []" by auto
  moreover have "total_load (cpus s1 ! o') < USIZE_MAX" if "o' \<in> set others" for o'
    using load_le_sys [OF wf1, of o'] that nM load1 inv by (auto simp: others_def bal_inv_def)
  ultimately have "t \<in> set others" using least_loaded_min [of others s1] by (simp add: t_def)
  then have t: "t < n" "t \<noteq> cpu" by (auto simp: others_def)
  then have tM: "t < MAX_CPUS" using nM by simp
  note tw = sys_wf_cpu [OF wf1 tM]
  have eq: "migrate_one cpu i s = set_cpu s1 t (enqueue (cpus s1 ! t) p c)"
    unfolding c by (simp add: migrate_one_def pop [unfolded c] Let_def s1_def t_def others_def count)
  have at: "cpus (migrate_one cpu i s) ! o' =
      (if o' = t then enqueue (cpus s ! t) p c else if o' = cpu then cs else cpus s ! o')" for o'
    using t by (simp add: eq cpus_set_cpu [OF wf1 tM]) (simp add: s1_def cpus_set_cpu [OF wf cM])
  have s1t: "cpus s1 ! t = cpus s ! t" using t by (simp add: s1_def cpus_set_cpu [OF wf cM])
  show ?thesis
  proof (rule that [OF t])
    show "sys_wf (migrate_one cpu i s)" unfolding eq by (intro set_cpu_wf wf1 enqueue_wf tw)
    show "sys_load (migrate_one cpu i s) \<le> sys_load s"
      using sys_load_set_cpu [OF wf1 tM, of "enqueue (cpus s1 ! t) p c"] load1
        total_load_enqueue [OF tw, of p c] by (simp add: eq)
    show "runq (cpus (migrate_one cpu i s) ! o') j =
      (if o' = t \<and> j = i \<and> p \<notin> set (runq (cpus s ! t) i) then runq (cpus s ! t) i @ [p]
       else if o' = cpu \<and> j = i then ps else runq (cpus s ! o') j)" if "j < NUM_PRIORITIES" for o' j
      using enqueue_runq [OF tw that, of p c, folded c, unfolded s1t] cs(2) [OF that] t by (auto simp: at)
  qed (simp add: eq s1_def count)
qed

lemma migrate_one_inv:
  assumes inv: "bal_inv Q n s" and n: "1 < n" and cpu: "cpu < n" and i: "i < NUM_PRIORITIES"
    and ne: "runq (cpus s ! cpu) i \<noteq> []"
  shows "bal_inv Q n (migrate_one cpu i s)"
    and "j < NUM_PRIORITIES \<Longrightarrow> runq (cpus (migrate_one cpu i s) ! cpu) j =
      (if j = i then tl (runq (cpus s ! cpu) i) else runq (cpus s ! cpu) j)"
proof -
  obtain p ps where q: "runq (cpus s ! cpu) i = p # ps" using ne by (cases "runq (cpus s ! cpu) i") auto
  let ?m = "migrate_one cpu i s"
  obtain t where t: "t < n" "t \<noteq> cpu" "sys_wf ?m" "cpu_count ?m = n" "sys_load ?m \<le> sys_load s"
    and run: "\<And>o' j. j < NUM_PRIORITIES \<Longrightarrow> runq (cpus ?m ! o') j =
      (if o' = t \<and> j = i \<and> p \<notin> set (runq (cpus s ! t) i) then runq (cpus s ! t) i @ [p]
       else if o' = cpu \<and> j = i then ps else runq (cpus s ! o') j)"
    using migrate_one_step [OF inv n cpu i q] by metis
  show "j < NUM_PRIORITIES \<Longrightarrow> runq (cpus ?m ! cpu) j =
      (if j = i then tl (runq (cpus s ! cpu) i) else runq (cpus s ! cpu) j)"
    using run [of j cpu] t(2) q by auto
  have "cpu_count s = n" using inv by (simp add: bal_inv_def)
  have "class_count ?m x j \<le> class_count s x j \<and> (0 < class_count s x j \<longrightarrow> 0 < class_count ?m x j)"
    if j: "j < NUM_PRIORITIES" for x j
  proof -
    let ?f = "\<lambda>s o'. count_list (runq (cpus s ! o') j) x" and ?R = "{..<n} - {cpu} - {t}"
    have split: "(\<Sum>o'<n. f o') = f cpu + (f t + sum f ?R)" for f :: "nat \<Rightarrow> nat"
      using cpu t(1,2) by (simp add: sum.remove)
    have "sum (?f ?m) ?R = sum (?f s) ?R" by (intro sum.cong) (auto simp: run [OF j])
    moreover have "?f ?m cpu + ?f ?m t \<le> ?f s cpu + ?f s t" "0 < ?f s cpu + ?f s t \<longrightarrow> 0 < ?f ?m cpu + ?f ?m t"
      using t(2) q by (auto simp: run [OF j] count_list_0_iff)
    ultimately show ?thesis unfolding class_count_def t(4) \<open>cpu_count s = n\<close> split by auto
  qed
  then have "conserved (class_count s) (class_count ?m)" by (simp add: conserved_def)
  with inv t(3-5) show "bal_inv Q n ?m" by (auto simp: bal_inv_def intro: conserved_trans)
qed

text \<open>The inner loop empties the queue of its class and leaves the other queues of the CPU alone.\<close>

lemma drain_class_inv:
  assumes "1 < n" and "cpu < n" and "i < NUM_PRIORITIES" and "avg_load < load"
  shows "bal_inv Q n s \<Longrightarrow> \<exists>s'. drain_class load avg_load cpu i s = Some s' \<and> bal_inv Q n s' \<and>
    (\<forall>j<NUM_PRIORITIES. runq (cpus s' ! cpu) j = (if j = i then [] else runq (cpus s ! cpu) j))"
proof (induction "length (runq (cpus s ! cpu) i)" arbitrary: s rule: less_induct)
  case less
  show ?case
  proof (cases "runq (cpus s ! cpu) i = []")
    case True
    with less.prems show ?thesis by (subst drain_class.simps) simp
  next
    case False
    note m = migrate_one_inv [OF less.prems assms(1-3) False]
    have "length (runq (cpus (migrate_one cpu i s) ! cpu) i) < length (runq (cpus s ! cpu) i)"
      using m(2) [OF assms(3)] False by simp
    from less.hyps [OF this m(1)] obtain s' where
      "drain_class load avg_load cpu i (migrate_one cpu i s) = Some s'" "bal_inv Q n s'"
      "\<forall>j<NUM_PRIORITIES. runq (cpus s' ! cpu) j = (if j = i then [] else runq (cpus (migrate_one cpu i s) ! cpu) j)"
      by blast
    with m(2) False assms(4) show ?thesis by (subst drain_class.simps) (auto intro!: exI [of _ s'])
  qed
qed

lemma drain_classes:
  assumes "1 < n" and "cpu < n" and "avg_load < load" and "set is \<subseteq> {..<NUM_PRIORITIES}" and "bal_inv Q n s"
  shows "\<exists>s'. ofold (drain_class load avg_load cpu) is s = Some s' \<and> bal_inv Q n s' \<and>
    (\<forall>j<NUM_PRIORITIES. runq (cpus s' ! cpu) j = (if j \<in> set is then [] else runq (cpus s ! cpu) j))"
  using assms(4,5)
proof (induction "is" arbitrary: s)
  case (Cons i "is")
  then obtain s1 where s1: "drain_class load avg_load cpu i s = Some s1" "bal_inv Q n s1"
      "\<forall>j<NUM_PRIORITIES. runq (cpus s1 ! cpu) j = (if j = i then [] else runq (cpus s ! cpu) j)"
    using drain_class_inv [OF assms(1,2) _ assms(3), of i Q s] by auto
  from Cons.IH [OF _ s1(2)] Cons.prems(1) s1 show ?case by auto
qed simp

lemma balance_cpu_drains:
  assumes "1 < n" and "cpu < n" and "bal_inv Q n s" and "avg_load + 1 < total_load (cpus s ! cpu)"
  shows "\<exists>s'. balance_cpu avg_load cpu s = Some s' \<and> bal_inv Q n s' \<and> total_load (cpus s' ! cpu) = 0"
proof -
  have "avg_load < total_load (cpus s ! cpu)" using assms(4) by simp
  from drain_classes [OF assms(1,2) this _ assms(3), of "rev [0..<NUM_PRIORITIES]"] obtain s' where
    s': "balance_cpu avg_load cpu s = Some s'" "bal_inv Q n s'" "\<forall>j<NUM_PRIORITIES. runq (cpus s' ! cpu) j = []"
    using assms(4) by (auto simp: balance_cpu_def atLeast0LessThan)
  then have "cs_wf (cpus s' ! cpu)" using assms(2) by (intro sys_wf_cpu) (auto simp: bal_inv_def sys_wf_def)
  with s' show ?thesis by (auto simp: total_load_sum)
qed

lemma balance_cpu_inv:
  assumes "1 < n" and "cpu < n" and "bal_inv Q n s"
  shows "\<exists>s'. balance_cpu avg_load cpu s = Some s' \<and> bal_inv Q n s'"
proof (cases "avg_load + 1 < total_load (cpus s ! cpu)")
  case True
  then show ?thesis using balance_cpu_drains [OF assms] by blast
next
  case False
  with assms show ?thesis by (simp add: balance_cpu_def)
qed

lemma bal_inv_start: "sys_wf s \<Longrightarrow> sys_load s < USIZE_MAX \<Longrightarrow> bal_inv (class_count s) (cpu_count s) s"
  by (simp add: bal_inv_def conserved_def)

lemma balance_load_inv:
  assumes "sys_wf s" and "sys_load s < USIZE_MAX"
  shows "\<exists>s'. balance_load s = Some s' \<and> bal_inv (class_count s) (cpu_count s) s'"
proof -
  note inv = bal_inv_start [OF assms]
  then have "\<exists>s'. ofold (balance_cpu avg) [0..<cpu_count s] s = Some s' \<and>
      bal_inv (class_count s) (cpu_count s) s'" if "1 < cpu_count s" for avg
    using that by (intro ofold_inv balance_cpu_inv) auto
  with inv show ?thesis by (auto simp: balance_load_def Let_def)
qed

section \<open>Histories\<close>

text \<open>
  Everything that changes the scheduler: processes are created, queued, removed, reprioritised,
  preempted by the timer, yield, exit, and are migrated.
\<close>

definition boot_sched :: "nat \<Rightarrow> sched_state" where
  "boot_sched n = \<lparr>cpus = replicate MAX_CPUS new_cpu_scheduler, table = new_process_table, current_pid = 0,
     system_idle = False, idle_ticks = 0, total_context_switches = 0, cpu_count = n\<rparr>"

inductive sched_run :: "nat \<Rightarrow> sched_state \<Rightarrow> bool" for n where
  boot: "sched_run n (boot_sched n)"
| create: "sched_run n s \<Longrightarrow> pt_get (table s) (p_pid p) = None \<Longrightarrow> pt_add (table s) p = Inr t \<Longrightarrow>
    sched_run n (s\<lparr>table := t\<rparr>)"
| add: "sched_run n s \<Longrightarrow> sched_run n (add_to_scheduler_with_priority s p c)"
| remove: "sched_run n s \<Longrightarrow> sched_run n (remove_from_scheduler s p)"
| tick: "sched_run n s \<Longrightarrow> cpu < MAX_CPUS \<Longrightarrow> timer_interrupt_handler cpu s = Inr s' \<Longrightarrow> sched_run n s'"
| yield: "sched_run n s \<Longrightarrow> cpu < MAX_CPUS \<Longrightarrow> sched_run n (yield_cpu cpu s)"
| exit: "sched_run n s \<Longrightarrow> cpu < MAX_CPUS \<Longrightarrow> sched_run n (exit_process cpu s)"
| reprioritise: "sched_run n s \<Longrightarrow> sched_run n (set_priority s p c)"
| intend: "sched_run n s \<Longrightarrow> sched_run n (set_intent s p i)"
| balance: "sched_run n s \<Longrightarrow> sys_load s < USIZE_MAX \<Longrightarrow> balance_load s = Some s' \<Longrightarrow> sched_run n s'"

lemma pt_add_inv: "pt_inv t \<Longrightarrow> pt_get t (p_pid p) = None \<Longrightarrow> pt_add t p = Inr t' \<Longrightarrow> pt_inv t'"
proof -
  assume inv: "pt_inv t" and new: "pt_get t (p_pid p) = None" and r: "pt_add t p = Inr t'"
  then obtain xs where xs: "add_slot (processes t) p = Some xs"
    and t': "t' = t\<lparr>processes := xs, pt_count := pt_count t + 1\<rparr>"
    by (auto simp: pt_add_def split: option.splits)
  obtain us vs where uv: "length xs = length (processes t)" "pt_iter t = us @ vs" "pt_iter t' = us @ p # vs"
    using add_slot_Some [OF xs] by (auto simp: pt_iter_def t')
  have "p_pid p \<notin> p_pid ` set (us @ vs)" using new uv by (simp add: pt_get_None)
  with inv uv show ?thesis by (auto simp: pt_inv_def t')
qed

lemma new_process_table_inv: "pt_inv new_process_table" "pt_iter new_process_table = []"
proof -
  have "occupied (replicate n None) = []" for n by (induction n) simp_all
  then show "pt_iter new_process_table = []" by (simp add: pt_iter_def new_process_table_def)
  then show "pt_inv new_process_table" by (simp add: pt_inv_def new_process_table_def)
qed

lemma boot_sched_wf: "n < MAX_CPUS \<Longrightarrow> sys_wf (boot_sched n)"
  by (simp add: sys_wf_def boot_sched_def new_cpu_scheduler_wf new_process_table_inv)

lemma sched_run_wf: "sched_run n s \<Longrightarrow> n < MAX_CPUS \<Longrightarrow> sys_wf s"
proof (induction rule: sched_run.induct)
  case boot
  then show ?case by (rule boot_sched_wf)
next
  case (create s p t)
  then show ?case using pt_add_inv [of "table s" p t] by (auto simp: sys_wf_def)
next
  case (tick s cpu s')
  obtain r s1 where r: "schedule cpu s = (r, s1)" by fastforce
  with tick schedule_wf(1) [OF _ tick.hyps(2) r] have "sys_wf s1" by simp
  with tick.hyps(3) r show ?case
    by (auto simp: timer_interrupt_handler_def dest: switch_wf split: option.splits)
next
  case (balance s s')
  then show ?case using balance_load_inv [of s] by (auto simp: bal_inv_def)
qed (simp_all add: add_wf remove_wf yield_wf exit_wf set_priority_wf set_intent_wf)

text \<open>
  C6: After every history of the scheduler, on every CPU the bitmap of active classes has
  exactly the bits of the non-empty queues, each queue's flag says whether it is empty, and no queue
  holds a process twice.
\<close>

theorem sched_bitmap_consistent:
  assumes "sched_run n s" and "n < MAX_CPUS" and "cpu < MAX_CPUS"
  shows "length (queues (cpus s ! cpu)) = NUM_PRIORITIES \<and>
    (\<forall>i. bit (active_bitmap (cpus s ! cpu)) i \<longleftrightarrow> i < NUM_PRIORITIES \<and> runq (cpus s ! cpu) i \<noteq> []) \<and>
    (\<forall>i<NUM_PRIORITIES. (pq_active (queues (cpus s ! cpu) ! i) \<longleftrightarrow> runq (cpus s ! cpu) i \<noteq> []) \<and>
       distinct (runq (cpus s ! cpu) i))"
  using sys_wf_cpu [OF sched_run_wf [OF assms(1,2)] assms(3)] by (simp add: cs_wf_def)

theorem sched_bitmap_consistent_witness:
  "sched_run 2 (add_to_scheduler (boot_sched 2) 7) \<and>
   length (queues (cpus (add_to_scheduler (boot_sched 2) 7) ! 0)) = NUM_PRIORITIES"
proof -
  have "sched_run 2 (add_to_scheduler (boot_sched 2) 7)"
    unfolding add_to_scheduler_def by (intro sched_run.add sched_run.boot)
  with sched_bitmap_consistent [OF this, of 0] show ?thesis by (simp add: MAX_CPUS_def)
qed

text \<open>
  C7: The constant-time dispatch agrees with a search of the queues in order of priority:
  it takes the head of the first non-empty class and leaves every other queue as it is; processes
  of the \<^verbatim>\<open>Dream\<close> class run only when the system is idle.
\<close>

theorem pick_next_highest:
  assumes "cs_wf cs"
  shows "fst (pick_next idle cs) =
      (case List.find (\<lambda>i. runq cs i \<noteq> []) [0..<NUM_PRIORITIES] of
         None \<Rightarrow> None
       | Some i \<Rightarrow> if i = prio_index Dream \<and> \<not> idle then None else Some (hd (runq cs i))) \<and>
    (\<forall>j<NUM_PRIORITIES. runq (snd (pick_next idle cs)) j =
       (if fst (pick_next idle cs) \<noteq> None \<and>
           List.find (\<lambda>i. runq cs i \<noteq> []) [0..<NUM_PRIORITIES] = Some j
        then tl (runq cs j) else runq cs j))"
  using pick_next_wf(2) [OF assms, of idle] pick_next_wf(3) [OF assms, of _ idle]
  by (simp add: first_class_def)

theorem pick_next_highest_witness:
  "cs_wf (enqueue (enqueue new_cpu_scheduler 7 Background) 9 Interactive) \<and>
   fst (pick_next False (enqueue (enqueue new_cpu_scheduler 7 Background) 9 Interactive)) = Some 9"
proof -
  let ?a = "enqueue new_cpu_scheduler 7 Background"
  have a: "cs_wf ?a" by (intro enqueue_wf new_cpu_scheduler_wf)
  then have wf: "cs_wf (enqueue ?a 9 Interactive)" by (rule enqueue_wf)
  have "runq (enqueue ?a 9 Interactive) 0 = []" "runq (enqueue ?a 9 Interactive) 1 = [9]"
    by (simp_all add: enqueue_def new_cpu_scheduler_def new_priority_queue_def pq_push_def
        NUM_PRIORITIES_def numeral_eq_Suc)
  then have "List.find (\<lambda>i. runq (enqueue ?a 9 Interactive) i \<noteq> []) [0..<NUM_PRIORITIES] = Some 1"
    by (simp add: find_upt_Some_iff NUM_PRIORITIES_def)
  with pick_next_highest [OF wf, of False] wf \<open>runq (enqueue ?a 9 Interactive) 1 = [9]\<close>
  show ?thesis by simp
qed

text \<open>
  C8: A scheduling decision loses no runnable process and duplicates none. On the CPU that
  schedules, no process is queued or current more often than before; a process that is queued or current
  there and still runnable is queued or current afterwards, whatever \<^verbatim>\<open>schedule\<close> decides; the
  process it returns is in the process table and has become the current one. The other CPUs do not change.
\<close>

theorem schedule_keeps_runnable:
  assumes wf: "sys_wf s" and cpu: "cpu < MAX_CPUS" and r: "schedule cpu s = (r, s')"
  shows "(\<forall>p. times_present (cpus s' ! cpu) p \<le> times_present (cpus s ! cpu) p) \<and>
    (\<forall>p proc. pt_get (table s) p = Some proc \<and> (p_state proc = Running \<or> p_state proc = Ready) \<and>
       0 < times_present (cpus s ! cpu) p \<longrightarrow> 0 < times_present (cpus s' ! cpu) p) \<and>
    (\<forall>q. r = Some q \<longrightarrow> pt_get (table s') q \<noteq> None \<and> cs_current (cpus s' ! cpu) = Some q) \<and>
    (\<forall>other. other \<noteq> cpu \<longrightarrow> cpus s' ! other = cpus s ! other)"
proof -
  define t where "t = (if 0 < cs_time_slice (cpus s ! cpu)
    then (cpus s ! cpu)\<lparr>cs_time_slice := cs_time_slice (cpus s ! cpu) - 1\<rparr> else cpus s ! cpu)"
  have t: "cs_wf t" "queued t = queued (cpus s ! cpu)" "cs_current t = cs_current (cpus s ! cpu)"
      "times_present t p = times_present (cpus s ! cpu) p" for p
    using sys_wf_cpu [OF wf cpu] by (simp_all add: t_def queued_def times_present_def times_queued_def)
  let ?rq = "requeue_current s t"
  note rq = requeue_wf(1,2) [OF t(1), of s] requeue_wf(3) [OF t(1), where s = s] and count = times_queued_requeue [OF t(1), where s = s]
  have pick: "times_queued cs p + (if q = Some p then 1 else 0) = times_queued ?rq p"
    if "pick_next (system_idle s) ?rq = (q, cs)" for q cs p
    using times_queued_pick_next [OF rq(1), of "system_idle s" p] that by simp
  have run: "0 < times_queued ?rq p" if "pt_get (table s) p = Some proc"
      "p_state proc = Running \<or> p_state proc = Ready" "0 < times_present (cpus s ! cpu) p" for p proc
  proof (cases "cs_current t = Some p")
    case True
    with rq(3) that show ?thesis by (simp add: times_queued_pos)
  next
    case False
    then have "p \<in> queued t" using that(3) t(2,3) by (simp add: times_present_def times_queued_pos)
    with rq(2) show ?thesis by (auto simp: times_queued_pos)
  qed
  from r show ?thesis
  proof (cases rule: schedule_cases)
    case (keep c)
    then have "cs_current t = Some c" "pt_get (table s) c \<noteq> None"
      by (auto simp: slice_left_def simp flip: t_def split: if_splits option.splits)
    with keep t show ?thesis by (auto simp: cpus_set_cpu [OF wf cpu] simp flip: t_def)
  next
    case (switch q cs proc')
    note pk = pick [OF switch(2) [folded t_def]]
    have at: "times_present (cpus s' ! cpu) p = times_queued ?rq p" for p
      using switch(4) pk [of p] by (simp add: cpus_set_cpu [OF wf cpu] times_present_def times_queued_def)
    show ?thesis
      unfolding at using count t(4) run switch by (auto simp: cpus_set_cpu [OF wf cpu])
  next
    case (idle q cs)
    note pk = pick [OF idle(2) [folded t_def]]
    have at: "times_present (cpus s' ! cpu) p = times_queued cs p" for p
      using idle(4) by (simp add: no_process_def cpus_set_cpu [OF wf cpu] times_present_def times_queued_def)
    have "times_queued cs p \<le> times_present (cpus s ! cpu) p" for p using pk [of p] count [of p] t(4) [of p] by simp
    moreover have "0 < times_queued cs p" if "pt_get (table s) p = Some proc"
      "p_state proc = Running \<or> p_state proc = Ready" "0 < times_present (cpus s ! cpu) p" for p proc
    proof -
      have "q \<noteq> Some p" using idle(3) that(1) by auto
      with run [OF that] pk [of p] show ?thesis by simp
    qed
    ultimately show ?thesis
      unfolding at using idle by (auto simp: no_process_def cpus_set_cpu [OF wf cpu])
  qed
qed

lemma runq_new [simp]: "i < NUM_PRIORITIES \<Longrightarrow> runq new_cpu_scheduler i = []"
  by (simp add: new_cpu_scheduler_def new_priority_queue_def)

lemma times_queued_first: "times_queued (enqueue new_cpu_scheduler p c) p = 1"
proof -
  have "times_queued (enqueue new_cpu_scheduler p c) p = (\<Sum>i<NUM_PRIORITIES. if i = prio_index c then 1 else 0)"
    unfolding times_queued_def by (intro sum.cong) (simp_all add: enqueue_runq [OF new_cpu_scheduler_wf])
  then show ?thesis using prio_index_bound [of c] by simp
qed

definition one_process :: sched_state where
  "one_process = (boot_sched 1)\<lparr>table := \<lparr>processes = Some (new_process 7) # replicate 255 None,
     pt_count = 1\<rparr>\<rparr>"

lemma one_process_wf: "sys_wf one_process" "pt_get (table one_process) 7 = Some (new_process 7)"
proof -
  have none: "occupied (replicate n None) = []" for n by (induction n) simp_all
  have "sys_wf (boot_sched 1)" by (rule boot_sched_wf) (simp add: MAX_CPUS_def)
  then show "sys_wf one_process"
    unfolding one_process_def by (rule sys_wf_table) (simp add: pt_inv_def pt_iter_def none MAX_PROCESSES_def)
  show "pt_get (table one_process) 7 = Some (new_process 7)"
    by (simp add: one_process_def pt_get_def pt_iter_def new_process_def)
qed

theorem schedule_keeps_runnable_witness:
  "\<exists>r s'. schedule 0 (set_cpu one_process 0 (enqueue new_cpu_scheduler 7 Dream)) = (r, s') \<and>
     times_present (cpus s' ! 0) 7 = 1"
proof -
  let ?s = "set_cpu one_process 0 (enqueue new_cpu_scheduler 7 Dream)"
  have wf: "sys_wf ?s" by (intro set_cpu_wf one_process_wf enqueue_wf new_cpu_scheduler_wf)
  obtain r s' where r: "schedule 0 ?s = (r, s')" by fastforce
  have "cpus ?s ! 0 = enqueue new_cpu_scheduler 7 Dream"
    by (simp add: cpus_set_cpu one_process_wf MAX_CPUS_def)
  moreover have "cs_current (enqueue new_cpu_scheduler 7 Dream) = None"
    by (simp add: enqueue_def new_cpu_scheduler_def Let_def)
  ultimately have "times_present (cpus ?s ! 0) 7 = 1" by (simp add: times_present_def times_queued_first)
  note here = this
  have cpu: "0 < MAX_CPUS" by (simp add: MAX_CPUS_def)
  note k = schedule_keeps_runnable [OF wf cpu r]
  have "pt_get (table ?s) 7 = Some (new_process 7)" "p_state (new_process 7) = Ready"
    using one_process_wf(2) by (simp_all add: new_process_def)
  then have "0 < times_present (cpus s' ! 0) 7" using k here by (metis less_numeral_extra(1))
  moreover have "times_present (cpus s' ! 0) 7 \<le> 1" using k here by metis
  ultimately have "times_present (cpus s' ! 0) 7 = 1" by simp
  with r show ?thesis by blast
qed

text \<open>
  C9: \<^verbatim>\<open>balance_load\<close> always returns and only moves processes between CPUs: no process is queued
  in a class more often than before, and none disappears from a class, so that one queued exactly once stays
  queued exactly once. The turn of a CPU whose load exceeds the average by more than one does not stop at the
  average: it leaves no process queued on that CPU.
\<close>

theorem balance_load_conserves:
  assumes "sys_wf s" and "sys_load s < USIZE_MAX"
  shows "(\<exists>s'. balance_load s = Some s' \<and> sys_wf s' \<and>
      (\<forall>p. \<forall>i<NUM_PRIORITIES. class_count s' p i \<le> class_count s p i \<and>
         (0 < class_count s p i \<longrightarrow> 0 < class_count s' p i))) \<and>
    (\<forall>avg_load cpu. 1 < cpu_count s \<and> cpu < cpu_count s \<and> avg_load + 1 < total_load (cpus s ! cpu) \<longrightarrow>
      (\<exists>s'. balance_cpu avg_load cpu s = Some s' \<and> total_load (cpus s' ! cpu) = 0))"
proof
  show "\<exists>s'. balance_load s = Some s' \<and> sys_wf s' \<and>
      (\<forall>p. \<forall>i<NUM_PRIORITIES. class_count s' p i \<le> class_count s p i \<and>
         (0 < class_count s p i \<longrightarrow> 0 < class_count s' p i))"
    using balance_load_inv [OF assms] by (auto simp: bal_inv_def conserved_def)
  show "\<forall>avg_load cpu. 1 < cpu_count s \<and> cpu < cpu_count s \<and> avg_load + 1 < total_load (cpus s ! cpu) \<longrightarrow>
      (\<exists>s'. balance_cpu avg_load cpu s = Some s' \<and> total_load (cpus s' ! cpu) = 0)"
    using balance_cpu_drains [OF _ _ bal_inv_start [OF assms]] by blast
qed

text \<open>Two CPUs, one of them with three processes.\<close>

definition busy_cpu :: cpu_scheduler where
  "busy_cpu = enqueue (enqueue (enqueue new_cpu_scheduler 7 Normal) 8 Normal) 9 Normal"

theorem balance_load_conserves_witness:
  "\<exists>s s1 s2. total_load (cpus s ! 0) = 3 \<and> balance_load s = Some s1 \<and> class_count s1 8 2 = 1 \<and>
     balance_cpu 1 0 s = Some s2 \<and> total_load (cpus s2 ! 0) = 0"
proof -
  let ?s = "set_cpu (boot_sched 2) 0 busy_cpu"
  have boot: "sys_wf (boot_sched 2)" by (rule boot_sched_wf) (simp add: MAX_CPUS_def)
  have wf: "sys_wf ?s" unfolding busy_cpu_def by (intro set_cpu_wf boot enqueue_wf new_cpu_scheduler_wf)
  have runq: "runq busy_cpu 2 = [7, 8, 9]" and load: "total_load busy_cpu = 3" "total_load new_cpu_scheduler = 0"
    by code_simp+
  have at: "cpus ?s ! o' = (if o' = 0 then busy_cpu else cpus (boot_sched 2) ! o')" for o'
    by (rule cpus_set_cpu [OF boot]) (simp add: MAX_CPUS_def)
  have two: "cpu_count ?s = 2" "{..<2 :: nat} = {0, 1}" "cpus (boot_sched 2) ! 1 = new_cpu_scheduler"
      "runq new_cpu_scheduler 2 = []"
    by (auto simp: boot_sched_def MAX_CPUS_def NUM_PRIORITIES_def)
  have count: "class_count ?s 8 2 = 1" unfolding class_count_def two(1,2) by (simp add: at runq two(4) two(3) [simplified])
  have "sys_load (boot_sched 2) = 0"
    by (simp add: sys_load_def boot_sched_def load(2) sum_list_replicate)
  moreover have "cpus (boot_sched 2) ! 0 = new_cpu_scheduler" by (simp add: boot_sched_def MAX_CPUS_def)
  ultimately have sys: "sys_load ?s < USIZE_MAX"
    using sys_load_set_cpu [OF boot, of 0 busy_cpu] by (simp add: load MAX_CPUS_def USIZE_MAX_def)
  note b = balance_load_conserves [OF wf sys]
  obtain s1 where s1: "balance_load ?s = Some s1" "\<forall>p. \<forall>i<NUM_PRIORITIES. class_count s1 p i \<le> class_count ?s p i \<and>
      (0 < class_count ?s p i \<longrightarrow> 0 < class_count s1 p i)"
    using conjunct1 [OF b] by blast
  have "class_count s1 8 2 = 1" using s1(2) [rule_format, of 2 8] count by (simp add: NUM_PRIORITIES_def)
  moreover obtain s2 where "balance_cpu 1 0 ?s = Some s2" "total_load (cpus s2 ! 0) = 0"
    using conjunct2 [OF b, rule_format, of 0 1] two(1) at [of 0] load(1) by auto
  ultimately show ?thesis using s1(1) at [of 0] load(1) by (intro exI [of _ ?s] exI [of _ s1] exI [of _ s2]) simp
qed

lemma exit_queues:
  assumes wf: "sys_wf s" and cpu: "cpu < cpu_count s" and cur: "get_current_pid (current_pid s) = Some c"
    and get: "pt_get (table s) c = Some proc"
  defines "s' \<equiv> exit_process cpu s"
  shows "pt_get (table s') c = Some (proc\<lparr>p_state := Zombie\<rparr>)"
    and "cpus s' ! cpu = enqueue ((dequeue (cpus s ! cpu) c)\<lparr>cs_time_slice := 0\<rparr>) c (priority proc)"
proof -
  have cM: "cpu < MAX_CPUS" using wf cpu by (simp add: sys_wf_def)
  have inv: "pt_inv (table s)" using wf by (simp add: sys_wf_def)
  let ?z = "\<lambda>p. p\<lparr>p_state := Zombie\<rparr>"
  define s1 where "s1 = s\<lparr>table := pt_modify (table s) c ?z\<rparr>"
  have "pt_inv (table s1)" using inv by (simp add: s1_def ptab.modify_inv)
  then have wf1: "sys_wf s1" using wf unfolding s1_def by (simp add: sys_wf_table)
  note rm = remove_wf [OF wf1, where p = c]
  define s2 where "s2 = remove_from_scheduler s1 c"
  have eq: "s' = yield_cpu cpu s2" using cur get by (simp add: s'_def exit_process_def s1_def s2_def)
  have z: "pt_get (table s2) c = Some (?z proc)"
    using ptab.lookup_modify [OF inv, of ?z c c] get rm(2) by (simp add: s2_def s1_def)
  have cur2: "get_current_pid (current_pid s2) = Some c"
    using rm(4) cur by (simp add: s2_def s1_def)
  show "pt_get (table s') c = Some (proc\<lparr>p_state := Zombie\<rparr>)"
    using z cur2 by (simp add: eq yield_cpu_def Let_def)
  have "cpus s2 ! cpu = dequeue (cpus s ! cpu) c"
    using rm(5) [OF cM] cpu by (simp add: s2_def s1_def)
  then show "cpus s' ! cpu = enqueue ((dequeue (cpus s ! cpu) c)\<lparr>cs_time_slice := 0\<rparr>) c (priority proc)"
    using z cur2 rm(1) by (simp add: eq yield_cpu_def Let_def cpus_set_cpu [OF _ cM] s2_def)
qed

text \<open>
  C10: An exiting process stays schedulable. \<^verbatim>\<open>exit_process\<close> marks it as a zombie and takes it
  off the queues, but then yields, which queues it again; when nothing else is waiting, the next
  timer tick on the CPU selects the zombie.
\<close>

theorem exit_process_reschedules_zombie:
  assumes wf: "sys_wf s" and cpu: "cpu < cpu_count s" and cur: "get_current_pid (current_pid s) = Some c"
    and get: "pt_get (table s) c = Some proc" and alone: "queued (cpus s ! cpu) \<subseteq> {c}"
    and here: "cs_current (cpus s ! cpu) = Some c" and prio: "priority proc \<noteq> Dream"
  shows "pt_get (table (exit_process cpu s)) c = Some (proc\<lparr>p_state := Zombie\<rparr>) \<and>
    fst (schedule cpu (exit_process cpu s)) = Some c"
proof -
  let ?s = "exit_process cpu s" and ?i = "prio_index (priority proc)"
  note ex = exit_queues [OF wf cpu cur get]
  have cM: "cpu < MAX_CPUS" using wf cpu by (simp add: sys_wf_def)
  note cw = sys_wf_cpu [OF wf cM]
  let ?d = "(dequeue (cpus s ! cpu) c)\<lparr>cs_time_slice := 0\<rparr>"
  have d: "cs_wf ?d" using dequeue_wf(1) [OF cw] by simp
  have "runq ?d i = []" if "i < NUM_PRIORITIES" for i
    using dequeue_wf(2) [OF cw that, of c] alone that by (auto simp: queued_def filter_empty_conv)
  then have run: "runq (cpus ?s ! cpu) i = (if i = ?i then [c] else [])" if "i < NUM_PRIORITIES" for i
    using that enqueue_runq [OF d that, of c "priority proc"] unfolding ex(2) by auto
  have wf': "cs_wf (cpus ?s ! cpu)" unfolding ex(2) by (rule enqueue_wf [OF d])
  have ts: "cs_time_slice (cpus ?s ! cpu) = 0" unfolding ex(2) by (simp add: enqueue_def Let_def)
  have dq: "cs_current (dequeue cs c) = cs_current cs" for cs
    unfolding dequeue_def by (rule fold_invariant [where Q = "\<lambda>_. True"])
      (auto simp: dequeue_class_def Let_def)
  have cc: "cs_current (cpus ?s ! cpu) = Some c"
    unfolding ex(2) using here by (simp add: enqueue_def Let_def dq)
  have rq: "requeue_current ?s (cpus ?s ! cpu) = cpus ?s ! cpu"
    using cc ex(1) by (simp add: requeue_current_def)
  have "first_class (cpus ?s ! cpu) = Some ?i"
    unfolding first_class_def find_upt_Some_iff
    using run less_trans [OF _ prio_index_bound [of "priority proc"]] by simp
  then have "fst (pick_next (system_idle ?s) (cpus ?s ! cpu)) = Some c"
    using pick_next_wf(2) [OF wf', of "system_idle ?s"] prio run [of ?i]
    by (cases "priority proc") (simp_all add: NUM_PRIORITIES_def)
  then have "fst (schedule cpu ?s) = Some c"
    using ts cc ex(1) rq
    by (cases "pick_next (system_idle ?s) (cpus ?s ! cpu)") (simp add: schedule_def slice_left_def Let_def)
  with ex(1) show ?thesis by simp
qed

theorem exit_process_reschedules_zombie_witness:
  "pt_get (table (exit_process 0 ((set_cpu one_process 0 (new_cpu_scheduler\<lparr>cs_current := Some 7\<rparr>))
      \<lparr>current_pid := 7\<rparr>))) 7 = Some ((new_process 7)\<lparr>p_state := Zombie\<rparr>) \<and>
   fst (schedule 0 (exit_process 0 ((set_cpu one_process 0 (new_cpu_scheduler\<lparr>cs_current := Some 7\<rparr>))
      \<lparr>current_pid := 7\<rparr>))) = Some 7"
proof -
  let ?s = "(set_cpu one_process 0 (new_cpu_scheduler\<lparr>cs_current := Some 7\<rparr>))\<lparr>current_pid := 7\<rparr>"
  have wf: "sys_wf ?s" by (simp add: set_cpu_wf one_process_wf new_cpu_scheduler_wf)
  have at0: "cpus ?s ! 0 = new_cpu_scheduler\<lparr>cs_current := Some 7\<rparr>"
    by (simp add: cpus_set_cpu one_process_wf MAX_CPUS_def)
  have "queued (cpus ?s ! 0) \<subseteq> {7}"
    unfolding at0 by (auto simp: queued_def new_cpu_scheduler_def new_priority_queue_def)
  moreover have "pt_get (table ?s) 7 = Some (new_process 7)" using one_process_wf(2) by simp
  moreover have "0 < cpu_count ?s" by (simp add: one_process_def boot_sched_def)
  ultimately show ?thesis
    using exit_process_reschedules_zombie [OF wf, of 0 7 "new_process 7"] at0
    by (simp add: get_current_pid_def new_process_def)
qed

end
