(* ===== verification/Ipc.thy ===== *)
theory Ipc
  imports Scheduler
begin

text \<open>
  \<^verbatim>\<open>kernel/src/ipc/mod.rs\<close>: message channels between processes. A channel is a ring buffer of 64
  messages with two queues of waiting processes. The blocking operations are loops whose
  iterations are separated by \<^verbatim>\<open>WaitQueue::wait\<close>; one iteration is a \<open>turn\<close>, an atomic step of a
  history in which the turns of any processes interleave.

  The lemmas show that the ring buffer implements a bounded first-in first-out queue, stated as a
  locale and interpreted on the buffer, and that over every interleaving the messages received are
  a prefix of the messages sent, in order, with nothing lost or duplicated.
\<close>

section \<open>Definitions\<close>

definition CHANNEL_CAPACITY :: nat where
  "CHANNEL_CAPACITY = 64"

definition MESSAGE_SIZE :: nat where
  "MESSAGE_SIZE = 256"

text \<open>\<^verbatim>\<open>WaitQueue\<close>: the waiting processes, and the table and scheduler they are blocked in.\<close>

type_synonym wait_queue = "pid list"

datatype wait_reason_kind = WaitNone | IpcSend | IpcRecv | WaitMutex | WaitSleep | WaitInput

fun wait_reason_code :: "wait_reason_kind \<Rightarrow> u64" where
  "wait_reason_code WaitNone = 0"
| "wait_reason_code IpcSend = 1"
| "wait_reason_code IpcRecv = 2"
| "wait_reason_code WaitMutex = 3"
| "wait_reason_code WaitSleep = 4"
| "wait_reason_code WaitInput = 5"

definition block_process :: "process \<Rightarrow> process" where
  "block_process p = p\<lparr>p_state := Blocked, wait_reason := wait_reason_code IpcRecv\<rparr>"

definition unblock_process :: "process \<Rightarrow> process" where
  "unblock_process p = p\<lparr>p_state := Ready, wait_reason := 0\<rparr>"

definition wq_wait :: "nat \<Rightarrow> wait_queue \<Rightarrow> pid \<Rightarrow> sched_state \<Rightarrow> wait_queue \<times> sched_state" where
  "wq_wait cpu ws p s =
     (ws @ [p], yield_cpu cpu (s\<lparr>table := pt_modify (table s) p block_process\<rparr>))"

definition wake_one :: "wait_queue \<Rightarrow> sched_state \<Rightarrow> pid option \<times> wait_queue \<times> sched_state" where
  "wake_one ws s = (case ws of
     [] \<Rightarrow> (None, ws, s)
   | p # ps \<Rightarrow> (Some p, ps, s\<lparr>table := pt_modify (table s) p unblock_process\<rparr>))"

definition wake_all :: "wait_queue \<Rightarrow> sched_state \<Rightarrow> wait_queue \<times> sched_state" where
  "wake_all ws s =
     ([], s\<lparr>table := fold (\<lambda>p t. pt_modify t p unblock_process) ws (table s)\<rparr>)"

record message =
  msg_type :: u32
  msg_sender :: pid
  msg_data :: "u8 list"
  msg_len :: nat

definition Message_new :: "u32 \<Rightarrow> pid \<Rightarrow> u8 list \<Rightarrow> message" where
  "Message_new ty from bytes =
     (let n = min (length bytes) MESSAGE_SIZE
      in \<lparr>msg_type = ty, msg_sender = from,
          msg_data = take n bytes @ replicate (MESSAGE_SIZE - n) 0, msg_len = n\<rparr>)"

definition message_data :: "message \<Rightarrow> u8 list" where
  "message_data m = take (msg_len m) (msg_data m)"

record message_buffer =
  messages :: "message option list"
  buf_head :: nat
  buf_tail :: nat
  buf_count :: nat

definition new_message_buffer :: message_buffer where
  "new_message_buffer =
     \<lparr>messages = replicate CHANNEL_CAPACITY None, buf_head = 0, buf_tail = 0, buf_count = 0\<rparr>"

definition buf_push :: "message_buffer \<Rightarrow> message \<Rightarrow> bool \<times> message_buffer" where
  "buf_push b m =
     (if CHANNEL_CAPACITY \<le> buf_count b then (False, b)
      else (True, b\<lparr>messages := (messages b)[buf_tail b := Some m],
                   buf_tail := (buf_tail b + 1) mod CHANNEL_CAPACITY, buf_count := buf_count b + 1\<rparr>))"

definition buf_pop :: "message_buffer \<Rightarrow> message option \<times> message_buffer" where
  "buf_pop b =
     (if buf_count b = 0 then (None, b)
      else (messages b ! buf_head b,
            b\<lparr>messages := (messages b)[buf_head b := None],
              buf_head := (buf_head b + 1) mod CHANNEL_CAPACITY, buf_count := buf_count b - 1\<rparr>))"

definition buf_is_full :: "message_buffer \<Rightarrow> bool" where
  "buf_is_full b \<longleftrightarrow> CHANNEL_CAPACITY \<le> buf_count b"

definition buf_is_empty :: "message_buffer \<Rightarrow> bool" where
  "buf_is_empty b \<longleftrightarrow> buf_count b = 0"

record channel =
  chan_id :: u64
  buffer :: message_buffer
  send_waiters :: wait_queue
  recv_waiters :: wait_queue
  closed :: bool

datatype ipc_error = ChannelClosed | WouldBlock | InvalidChannel | PermissionDenied

definition new_channel :: "u64 \<Rightarrow> channel" where
  "new_channel i =
     \<lparr>chan_id = i, buffer = new_message_buffer, send_waiters = [], recv_waiters = [], closed = False\<rparr>"

text \<open>
  One turn of \<^verbatim>\<open>send\<close>: the test for a closed channel, which the code makes on entry and after every
  wait, the attempt to push, and the wait. \<^term>\<open>None\<close> means that the loop goes round again.
\<close>

definition send_turn ::
    "nat \<Rightarrow> message \<Rightarrow> channel \<times> sched_state \<Rightarrow> (ipc_error + unit) option \<times> channel \<times> sched_state" where
  "send_turn cpu m cs = (case cs of (ch, s) \<Rightarrow>
     if closed ch then (Some (Inl ChannelClosed), ch, s)
     else case buf_push (buffer ch) m of
       (True, b) \<Rightarrow>
         (case wake_one (recv_waiters ch) s of
            (_, ws, s) \<Rightarrow> (Some (Inr ()), ch\<lparr>buffer := b, recv_waiters := ws\<rparr>, s))
     | (False, b) \<Rightarrow>
         (case get_current_pid (current_pid s) of
            Some p \<Rightarrow> (case wq_wait cpu (send_waiters ch) p s of
                (ws, s) \<Rightarrow> (None, ch\<lparr>send_waiters := ws\<rparr>, s))
          | None \<Rightarrow> (Some (Inl WouldBlock), ch, s)))"

definition recv_turn ::
    "nat \<Rightarrow> channel \<times> sched_state \<Rightarrow> (ipc_error + message) option \<times> channel \<times> sched_state" where
  "recv_turn cpu cs = (case cs of (ch, s) \<Rightarrow>
     case buf_pop (buffer ch) of
       (Some m, b) \<Rightarrow>
         (case wake_one (send_waiters ch) s of
            (_, ws, s) \<Rightarrow> (Some (Inr m), ch\<lparr>buffer := b, send_waiters := ws\<rparr>, s))
     | (None, b) \<Rightarrow>
         if closed ch then (Some (Inl ChannelClosed), ch\<lparr>buffer := b\<rparr>, s)
         else case get_current_pid (current_pid s) of
            Some p \<Rightarrow> (case wq_wait cpu (recv_waiters ch) p s of
                (ws, s) \<Rightarrow> (None, ch\<lparr>buffer := b, recv_waiters := ws\<rparr>, s))
          | None \<Rightarrow> (Some (Inl WouldBlock), ch\<lparr>buffer := b\<rparr>, s))"

text \<open>The loops, run without interference from other processes.\<close>

partial_function (option) send ::
    "nat \<Rightarrow> message \<Rightarrow> channel \<times> sched_state \<Rightarrow> ((ipc_error + unit) \<times> channel \<times> sched_state) option" where
  "send cpu m cs = (case send_turn cpu m cs of
     (r, cs') \<Rightarrow> (case r of Some res \<Rightarrow> Some (res, cs') | None \<Rightarrow> send cpu m cs'))"

partial_function (option) recv ::
    "nat \<Rightarrow> channel \<times> sched_state \<Rightarrow> ((ipc_error + message) \<times> channel \<times> sched_state) option" where
  "recv cpu cs = (case recv_turn cpu cs of
     (r, cs') \<Rightarrow> (case r of Some res \<Rightarrow> Some (res, cs') | None \<Rightarrow> recv cpu cs'))"

definition try_recv :: "channel \<times> sched_state \<Rightarrow> (ipc_error + message) \<times> channel \<times> sched_state" where
  "try_recv cs = (case cs of (ch, s) \<Rightarrow>
     case buf_pop (buffer ch) of
       (Some m, b) \<Rightarrow>
         (case wake_one (send_waiters ch) s of
            (_, ws, s) \<Rightarrow> (Inr m, ch\<lparr>buffer := b, send_waiters := ws\<rparr>, s))
     | (None, b) \<Rightarrow> (Inl (if closed ch then ChannelClosed else WouldBlock), ch\<lparr>buffer := b\<rparr>, s))"

definition close :: "channel \<times> sched_state \<Rightarrow> channel \<times> sched_state" where
  "close cs = (case cs of (ch, s) \<Rightarrow>
     case wake_all (send_waiters ch) s of (ws, s) \<Rightarrow>
     case wake_all (recv_waiters ch) s of (ws', s) \<Rightarrow>
       (ch\<lparr>closed := True, send_waiters := ws, recv_waiters := ws'\<rparr>, s))"

text \<open>The registry of channels, \<^verbatim>\<open>CHANNELS\<close> with \<^verbatim>\<open>NEXT_CHANNEL_ID\<close>.\<close>

record ipc_state =
  next_channel_id :: u64
  channels :: "u64 \<rightharpoonup> channel"
  ipc_sched :: sched_state

definition create_channel :: "ipc_state \<Rightarrow> u64 \<times> ipc_state" where
  "create_channel st =
     (let ch = new_channel (next_channel_id st); i = chan_id ch
      in (i, st\<lparr>next_channel_id := next_channel_id st + 1, channels := (channels st)(i \<mapsto> ch)\<rparr>))"

definition channel_send :: "nat \<Rightarrow> u64 \<Rightarrow> message \<Rightarrow> ipc_state \<Rightarrow> ((ipc_error + unit) \<times> ipc_state) option" where
  "channel_send cpu i m st = (case channels st i of
     None \<Rightarrow> Some (Inl InvalidChannel, st)
   | Some ch \<Rightarrow> map_option (\<lambda>(r, ch, s). (r, st\<lparr>channels := (channels st)(i \<mapsto> ch), ipc_sched := s\<rparr>))
       (send cpu m (ch, ipc_sched st)))"

definition channel_recv :: "nat \<Rightarrow> u64 \<Rightarrow> ipc_state \<Rightarrow> ((ipc_error + message) \<times> ipc_state) option" where
  "channel_recv cpu i st = (case channels st i of
     None \<Rightarrow> Some (Inl InvalidChannel, st)
   | Some ch \<Rightarrow> map_option (\<lambda>(r, ch, s). (r, st\<lparr>channels := (channels st)(i \<mapsto> ch), ipc_sched := s\<rparr>))
       (recv cpu (ch, ipc_sched st)))"

definition close_channel :: "u64 \<Rightarrow> ipc_state \<Rightarrow> ipc_state" where
  "close_channel i st = (case channels st i of
     None \<Rightarrow> st
   | Some ch \<Rightarrow> st\<lparr>channels := (channels st)(i := None), ipc_sched := snd (close (ch, ipc_sched st))\<rparr>)"

section \<open>The ring buffer is a bounded queue\<close>

text \<open>The contract a channel relies on.\<close>

locale bounded_fifo =
  fixes put :: "'q \<Rightarrow> 'a \<Rightarrow> bool \<times> 'q"
    and get :: "'q \<Rightarrow> 'a option \<times> 'q"
    and contents :: "'q \<Rightarrow> 'a list"
    and cap :: nat
    and inv :: "'q \<Rightarrow> bool"
  assumes put_spec: "inv q \<Longrightarrow> put q x = (b, q') \<Longrightarrow> inv q' \<and> (b \<longleftrightarrow> length (contents q) < cap) \<and>
      contents q' = (if b then contents q @ [x] else contents q)"
    and get_spec: "inv q \<Longrightarrow> get q = (r, q') \<Longrightarrow> inv q' \<and>
      r = (case contents q of [] \<Rightarrow> None | x # _ \<Rightarrow> Some x) \<and> contents q' = tl (contents q)"
    and bounded: "inv q \<Longrightarrow> length (contents q) \<le> cap"
begin

text \<open>The log invariant: what was put is what was taken followed by what is still there.\<close>

definition logged :: "'q \<Rightarrow> 'a list \<Rightarrow> 'a list \<Rightarrow> bool" where
  "logged q sent received \<longleftrightarrow> inv q \<and> sent = received @ contents q"

lemma logged_put:
  "logged q sent received \<Longrightarrow> put q x = (b, q') \<Longrightarrow>
   logged q' (if b then sent @ [x] else sent) received"
  by (auto simp: logged_def dest: put_spec)

lemma logged_get:
  "logged q sent received \<Longrightarrow> get q = (r, q') \<Longrightarrow>
   logged q' sent (case r of None \<Rightarrow> received | Some x \<Rightarrow> received @ [x])"
  by (auto simp: logged_def dest: get_spec split: list.splits)

lemma logged_bound:
  "logged q sent received \<Longrightarrow> length sent - length received \<le> cap \<and> (\<exists>rest. sent = received @ rest)"
  using bounded by (auto simp: logged_def)

end

definition buf_contents :: "message_buffer \<Rightarrow> message list" where
  "buf_contents b = map (\<lambda>i. the (messages b ! ((buf_head b + i) mod CHANNEL_CAPACITY))) [0..<buf_count b]"

definition buf_inv :: "message_buffer \<Rightarrow> bool" where
  "buf_inv b \<longleftrightarrow> length (messages b) = CHANNEL_CAPACITY \<and> buf_head b < CHANNEL_CAPACITY \<and>
     buf_count b \<le> CHANNEL_CAPACITY \<and> buf_tail b = (buf_head b + buf_count b) mod CHANNEL_CAPACITY \<and>
     (\<forall>i<buf_count b. messages b ! ((buf_head b + i) mod CHANNEL_CAPACITY) \<noteq> None)"

lemma capacity_pos [simp]: "0 < CHANNEL_CAPACITY"
  by (simp add: CHANNEL_CAPACITY_def)

text \<open>Positions in the ring: different offsets below the capacity are different slots.\<close>

lemma ring_inj:
  assumes "i < CHANNEL_CAPACITY" and "j < CHANNEL_CAPACITY"
    and "(h + i) mod CHANNEL_CAPACITY = (h + j) mod CHANNEL_CAPACITY"
  shows "i = j"
proof -
  have "i mod CHANNEL_CAPACITY = j mod CHANNEL_CAPACITY"
    using assms(3) unfolding nat_mod_eq_iff by auto
  with assms(1,2) show ?thesis by simp
qed

lemma buf_push_inv:
  assumes inv: "buf_inv b" and p: "buf_push b m = (r, b')"
  shows "buf_inv b'" and "r \<longleftrightarrow> buf_count b < CHANNEL_CAPACITY"
    and "buf_contents b' = (if r then buf_contents b @ [m] else buf_contents b)"
proof -
  have "buf_inv b' \<and> (r \<longleftrightarrow> buf_count b < CHANNEL_CAPACITY) \<and>
    buf_contents b' = (if r then buf_contents b @ [m] else buf_contents b)"
  proof (cases "buf_count b < CHANNEL_CAPACITY")
    case False
    with inv p show ?thesis by (simp add: buf_push_def)
  next
    case True
    let ?slot = "\<lambda>i. (buf_head b + i) mod CHANNEL_CAPACITY"
    have b': "r" "b' = b\<lparr>messages := (messages b)[?slot (buf_count b) := Some m],
        buf_tail := (buf_tail b + 1) mod CHANNEL_CAPACITY, buf_count := buf_count b + 1\<rparr>"
      using p True inv by (auto simp: buf_push_def buf_inv_def)
    have at: "messages b' ! ?slot i = (if i = buf_count b then Some m else messages b ! ?slot i)"
      if "i \<le> buf_count b" for i
      using ring_inj [of i "buf_count b" "buf_head b"] that True inv
      by (auto simp: b' buf_inv_def nth_list_update)
    have "buf_contents b' = buf_contents b @ [m]"
      using at b' by (simp add: buf_contents_def)
    moreover have "buf_inv b'"
      using inv b' at True by (auto simp: buf_inv_def mod_Suc_eq less_Suc_eq)
    ultimately show ?thesis using b' True by simp
  qed
  then show "buf_inv b'" and "r \<longleftrightarrow> buf_count b < CHANNEL_CAPACITY"
    and "buf_contents b' = (if r then buf_contents b @ [m] else buf_contents b)" by simp_all
qed

lemma buf_pop_inv:
  assumes inv: "buf_inv b" and p: "buf_pop b = (r, b')"
  shows "buf_inv b'" and "r = (case buf_contents b of [] \<Rightarrow> None | m # _ \<Rightarrow> Some m)"
    and "buf_contents b' = tl (buf_contents b)"
proof -
  have "buf_inv b' \<and> r = (case buf_contents b of [] \<Rightarrow> None | m # _ \<Rightarrow> Some m) \<and>
    buf_contents b' = tl (buf_contents b)"
  proof (cases "buf_count b")
    case 0
    with inv p show ?thesis by (simp add: buf_pop_def buf_contents_def)
  next
    case (Suc n)
    let ?h = "buf_head b"
    have h: "?h < CHANNEL_CAPACITY" and n: "n < CHANNEL_CAPACITY"
      using inv Suc by (auto simp: buf_inv_def)
    have b': "r = messages b ! ?h" "b' = b\<lparr>messages := (messages b)[?h := None],
        buf_head := (?h + 1) mod CHANNEL_CAPACITY, buf_count := n\<rparr>"
      using p Suc by (auto simp: buf_pop_def)
    have shift: "(Suc ?h mod CHANNEL_CAPACITY + i) mod CHANNEL_CAPACITY = Suc (?h + i) mod CHANNEL_CAPACITY" for i
      by (simp add: mod_add_left_eq)
    have at: "messages b' ! ((?h + Suc i) mod CHANNEL_CAPACITY) = messages b ! ((?h + Suc i) mod CHANNEL_CAPACITY)"
      if "i < n" for i
      using ring_inj [of "Suc i" 0 ?h] that n h inv by (auto simp: b' buf_inv_def nth_list_update)
    have some: "messages b ! ((?h + i) mod CHANNEL_CAPACITY) \<noteq> None" if "i < Suc n" for i
      using inv Suc that by (simp add: buf_inv_def)
    have "buf_contents b = the (messages b ! ?h) #
        map (\<lambda>i. the (messages b ! ((?h + Suc i) mod CHANNEL_CAPACITY))) [0..<n]"
      using h by (simp add: buf_contents_def Suc upt_conv_Cons map_Suc_upt [symmetric] comp_def del: upt_Suc)
    moreover have "buf_contents b' = map (\<lambda>i. the (messages b ! ((?h + Suc i) mod CHANNEL_CAPACITY))) [0..<n]"
      using at b' by (simp add: buf_contents_def shift)
    moreover have "buf_inv b'"
      using inv b' Suc at some [of "Suc i" for i] n by (auto simp: buf_inv_def shift)
    moreover have "messages b ! ?h \<noteq> None" using some [of 0] h by simp
    ultimately show ?thesis using b'(1) by auto
  qed
  then show "buf_inv b'" and "r = (case buf_contents b of [] \<Rightarrow> None | m # _ \<Rightarrow> Some m)"
    and "buf_contents b' = tl (buf_contents b)" by simp_all
qed

lemma length_buf_contents [simp]: "length (buf_contents b) = buf_count b"
  by (simp add: buf_contents_def)

interpretation ring: bounded_fifo buf_push buf_pop buf_contents CHANNEL_CAPACITY buf_inv
proof
  fix b m r b' assume "buf_inv b" and "buf_push b m = (r, b')"
  from buf_push_inv [OF this] show "buf_inv b' \<and> (r \<longleftrightarrow> length (buf_contents b) < CHANNEL_CAPACITY) \<and>
      buf_contents b' = (if r then buf_contents b @ [m] else buf_contents b)" by simp
next
  fix b r b' assume "buf_inv b" and "buf_pop b = (r, b')"
  from buf_pop_inv [OF this] show "buf_inv b' \<and>
      r = (case buf_contents b of [] \<Rightarrow> None | m # _ \<Rightarrow> Some m) \<and> buf_contents b' = tl (buf_contents b)"
    by simp
next
  fix b assume "buf_inv b"
  then show "length (buf_contents b) \<le> CHANNEL_CAPACITY" by (simp add: buf_inv_def)
qed

lemma new_buffer_inv: "buf_inv new_message_buffer" "buf_contents new_message_buffer = []"
  by (simp_all add: buf_inv_def new_message_buffer_def buf_contents_def)

section \<open>Turns of the channel operations\<close>

lemma send_turn_buffer:
  assumes "send_turn cpu m (ch, s) = (r, ch', s')"
  shows "if r = Some (Inr ()) then buf_push (buffer ch) m = (True, buffer ch')
    else buffer ch' = buffer ch"
  using assms
  by (auto simp: send_turn_def wake_one_def wq_wait_def split: if_splits bool.splits option.splits
      prod.splits list.splits)

lemma recv_turn_buffer:
  assumes "recv_turn cpu (ch, s) = (r, ch', s')"
  shows "\<exists>q. buf_pop (buffer ch) = (q, buffer ch') \<and> (\<forall>m. r = Some (Inr m) \<longleftrightarrow> q = Some m)"
  using assms
  by (auto simp: recv_turn_def wake_one_def wq_wait_def split: if_splits option.splits
      prod.splits list.splits)

lemma try_recv_buffer:
  assumes "try_recv (ch, s) = (r, ch', s')"
  shows "\<exists>q. buf_pop (buffer ch) = (q, buffer ch') \<and> (\<forall>m. r = Inr m \<longleftrightarrow> q = Some m)"
  using assms
  by (auto simp: try_recv_def wake_one_def split: if_splits option.splits prod.splits list.splits)

text \<open>
  A history of one channel: turns of senders and receivers on any CPU and in any state of the
  scheduler, non-blocking receives, and closing. \<open>sent\<close> and \<open>received\<close> log the messages of the
  operations that reported success.
\<close>

inductive chan_run :: "channel \<Rightarrow> message list \<Rightarrow> message list \<Rightarrow> bool" where
  create: "chan_run (new_channel i) [] []"
| send_step: "chan_run ch sent received \<Longrightarrow> send_turn cpu m (ch, s) = (r, ch', s') \<Longrightarrow>
    chan_run ch' (if r = Some (Inr ()) then sent @ [m] else sent) received"
| recv_step: "chan_run ch sent received \<Longrightarrow> recv_turn cpu (ch, s) = (r, ch', s') \<Longrightarrow>
    chan_run ch' sent (case r of Some (Inr m) \<Rightarrow> received @ [m] | _ \<Rightarrow> received)"
| try_step: "chan_run ch sent received \<Longrightarrow> try_recv (ch, s) = (r, ch', s') \<Longrightarrow>
    chan_run ch' sent (case r of Inr m \<Rightarrow> received @ [m] | Inl _ \<Rightarrow> received)"
| close_step: "chan_run ch sent received \<Longrightarrow> close (ch, s) = (ch', s') \<Longrightarrow> chan_run ch' sent received"

lemma chan_run_logged: "chan_run ch sent received \<Longrightarrow> ring.logged (buffer ch) sent received"
proof (induction rule: chan_run.induct)
  case (create i)
  then show ?case by (simp add: ring.logged_def new_channel_def new_buffer_inv)
next
  case (send_step ch sent received cpu m s r ch' s')
  show ?case
  proof (cases "r = Some (Inr ())")
    case True
    with send_turn_buffer [OF send_step.hyps(2)]
    have "buf_push (buffer ch) m = (True, buffer ch')" by simp
    from ring.logged_put [OF send_step.IH this] True show ?thesis by simp
  next
    case False
    with send_turn_buffer [OF send_step.hyps(2)] send_step.IH show ?thesis by simp
  qed
next
  case (recv_step ch sent received cpu s r ch' s')
  from recv_turn_buffer [OF recv_step.hyps(2)] obtain q where
    q: "buf_pop (buffer ch) = (q, buffer ch')" "\<And>m. r = Some (Inr m) \<longleftrightarrow> q = Some m" by blast
  have "(case r of Some (Inr m) \<Rightarrow> received @ [m] | _ \<Rightarrow> received) =
      (case q of None \<Rightarrow> received | Some m \<Rightarrow> received @ [m])"
    using q(2) by (cases q) (auto split: option.split sum.split)
  with ring.logged_get [OF recv_step.IH q(1)] show ?case by simp
next
  case (try_step ch sent received s r ch' s')
  from try_recv_buffer [OF try_step.hyps(2)] obtain q where
    q: "buf_pop (buffer ch) = (q, buffer ch')" "\<And>m. r = Inr m \<longleftrightarrow> q = Some m" by blast
  have "(case r of Inr m \<Rightarrow> received @ [m] | Inl _ \<Rightarrow> received) =
      (case q of None \<Rightarrow> received | Some m \<Rightarrow> received @ [m])"
    using q(2) by (cases q) (auto split: option.split sum.split)
  with ring.logged_get [OF try_step.IH q(1)] show ?case by simp
next
  case (close_step ch sent received s ch' s')
  then show ?case by (auto simp: close_def wake_all_def)
qed

text \<open>
  C11: Over every interleaving of senders and receivers, a channel delivers the messages in the
  order they were sent, none twice and none lost: what was received is a prefix of what was sent,
  the rest is exactly the content of the buffer, and at most 64 messages are in flight.
\<close>

theorem channel_fifo:
  assumes "chan_run ch sent received"
  shows "sent = received @ buf_contents (buffer ch) \<and>
    length (buf_contents (buffer ch)) \<le> CHANNEL_CAPACITY"
  using chan_run_logged [OF assms] ring.bounded by (simp add: ring.logged_def)

theorem channel_fifo_witness:
  "\<exists>ch s' m. m = Message_new 1 7 [42] \<and> send_turn 0 m (new_channel 1, boot_sched 1) = (Some (Inr ()), ch, s') \<and>
     chan_run ch [m] [] \<and> [m] = [] @ buf_contents (buffer ch)"
proof -
  let ?m = "Message_new 1 7 [42]"
  obtain r ch s' where t: "send_turn 0 ?m (new_channel 1, boot_sched 1) = (r, ch, s')" by (cases "send_turn 0 ?m (new_channel 1, boot_sched 1)")
  have r: "r = Some (Inr ())"
    using t by (auto simp: send_turn_def new_channel_def buf_push_def new_message_buffer_def
        wake_one_def CHANNEL_CAPACITY_def)
  from chan_run.send_step [OF chan_run.create t] r have "chan_run ch [?m] []" by simp
  with channel_fifo [OF this] t r show ?thesis by auto
qed

text \<open>
  The ring buffer implements a bounded queue: \<^verbatim>\<open>push\<close> appends at the end unless 64
  messages are stored, \<^verbatim>\<open>pop\<close> takes the first, wherever the two ends stand in the ring.
\<close>

theorem message_buffer_refines_queue:
  assumes "buf_inv b"
  shows "(case buf_push b m of (r, b') \<Rightarrow> buf_inv b' \<and> (r \<longleftrightarrow> \<not> buf_is_full b) \<and>
      buf_contents b' = (if r then buf_contents b @ [m] else buf_contents b)) \<and>
    (case buf_pop b of (r, b') \<Rightarrow> buf_inv b' \<and>
      buf_contents b = (case r of None \<Rightarrow> [] | Some m \<Rightarrow> m # buf_contents b'))"
proof
  show "case buf_push b m of (r, b') \<Rightarrow> buf_inv b' \<and> (r \<longleftrightarrow> \<not> buf_is_full b) \<and>
      buf_contents b' = (if r then buf_contents b @ [m] else buf_contents b)"
    using buf_push_inv [OF assms] by (auto simp: buf_is_full_def not_le)
  show "case buf_pop b of (r, b') \<Rightarrow> buf_inv b' \<and>
      buf_contents b = (case r of None \<Rightarrow> [] | Some m \<Rightarrow> m # buf_contents b')"
    using buf_pop_inv [OF assms] by (auto split: list.splits)
qed

text \<open>
  \<^verbatim>\<open>Message::new\<close> keeps the payload up to 256 bytes and \<^verbatim>\<open>data\<close> returns it unchanged;
  longer payloads are cut silently.
\<close>

theorem message_roundtrip:
  "message_data (Message_new ty from bytes) = take MESSAGE_SIZE bytes \<and>
   length (msg_data (Message_new ty from bytes)) = MESSAGE_SIZE"
  by (simp add: message_data_def Message_new_def Let_def min_def)

section \<open>Blocking and waking\<close>

lemma block_key [simp]: "p_pid (block_process p) = p_pid p" "p_pid (unblock_process p) = p_pid p"
  by (simp_all add: block_process_def unblock_process_def)

lemma unblock_idem: "unblock_process (unblock_process p) = unblock_process p"
  by (simp add: unblock_process_def)

lemma yield_fields [simp]: "table (yield_cpu cpu s) = table s" "current_pid (yield_cpu cpu s) = current_pid s"
  by (simp_all add: yield_cpu_def Let_def split: option.split)

lemma send_turn_full:
  assumes "\<not> closed ch" and "buf_is_full (buffer ch)" and "get_current_pid (current_pid s) = Some p"
  shows "\<exists>s'. send_turn cpu m (ch, s) = (None, ch\<lparr>send_waiters := send_waiters ch @ [p]\<rparr>, s') \<and>
    current_pid s' = current_pid s \<and> table s' = pt_modify (table s) p block_process"
  using assms by (auto simp: send_turn_def buf_push_def buf_is_full_def wq_wait_def)

lemma send_stuck:
  assumes "send cpu m cs = Some y"
  shows "\<not> (\<not> closed (fst cs) \<and> buf_is_full (buffer (fst cs)) \<and>
    get_current_pid (current_pid (snd cs)) = Some p)"
  using assms
proof (induction rule: send.raw_induct [rotated 1, consumes 1])
  case (1 send cpu m cs y)
  show ?case
  proof
    assume *: "\<not> closed (fst cs) \<and> buf_is_full (buffer (fst cs)) \<and>
      get_current_pid (current_pid (snd cs)) = Some p"
    obtain ch s where cs: "cs = (ch, s)" by (cases cs)
    with * obtain s' where t: "send_turn cpu m (ch, s) = (None, ch\<lparr>send_waiters := send_waiters ch @ [p]\<rparr>, s')"
      "current_pid s' = current_pid s" using send_turn_full [of ch s p cpu m] by auto
    with 1(2) cs have "send cpu m (ch\<lparr>send_waiters := send_waiters ch @ [p]\<rparr>, s') = Some y" by simp
    from 1(1) [OF this] * t(2) cs show False by simp
  qed
qed

text \<open>
  C12: A blocking send never gives up the CPU. On a full, open channel \<^verbatim>\<open>send\<close> loops forever
  unless another process interferes: \<^verbatim>\<open>wait\<close> marks the sender as blocked but \<^verbatim>\<open>yield_cpu\<close> returns
  at once, and every turn adds the sender to the queue of waiters again.
\<close>

theorem send_full_spins:
  assumes "\<not> closed ch" and "buf_is_full (buffer ch)" and "get_current_pid (current_pid s) = Some p"
  shows "send cpu m (ch, s) = None \<and>
    (\<exists>s'. send_turn cpu m (ch, s) = (None, ch\<lparr>send_waiters := send_waiters ch @ [p]\<rparr>, s'))"
proof -
  have "send cpu m (ch, s) = None"
    using send_stuck [of cpu m "(ch, s)" _ p] assms by (cases "send cpu m (ch, s)") auto
  with send_turn_full [OF assms] show ?thesis by blast
qed

theorem send_full_spins_witness:
  "send 0 (Message_new 1 7 []) ((new_channel 1)\<lparr>buffer := new_message_buffer\<lparr>buf_count := 64\<rparr>\<rparr>,
     (boot_sched 1)\<lparr>current_pid := 7\<rparr>) = None"
  using send_full_spins [of "(new_channel 1)\<lparr>buffer := new_message_buffer\<lparr>buf_count := 64\<rparr>\<rparr>"
      "(boot_sched 1)\<lparr>current_pid := 7\<rparr>" 7 0 "Message_new 1 7 []"]
  by (simp add: new_channel_def buf_is_full_def CHANNEL_CAPACITY_def get_current_pid_def)

text \<open>
  \<^verbatim>\<open>close\<close> wakes every process that waits on the channel, as sender or receiver, and no
  other: their state is \<^verbatim>\<open>Ready\<close> with no wait reason, the queues are empty, and every further send
  reports that the channel is closed, while a receiver still gets the messages in the buffer.
\<close>

theorem close_wakes_all:
  assumes inv: "pt_inv (table s)" and c: "close (ch, s) = (ch', s')"
  shows "send_waiters ch' = [] \<and> recv_waiters ch' = [] \<and> pt_inv (table s') \<and>
    (\<forall>p. pt_get (table s') p =
       (if p \<in> set (send_waiters ch) \<union> set (recv_waiters ch)
        then map_option unblock_process (pt_get (table s) p) else pt_get (table s) p)) \<and>
    fst (send_turn cpu m (ch', s')) = Some (Inl ChannelClosed) \<and>
    buffer ch' = buffer ch"
proof -
  let ?f = "fold (\<lambda>p t. pt_modify t p unblock_process)"
  have s': "table s' = ?f (recv_waiters ch) (?f (send_waiters ch) (table s))"
    and ch': "ch' = ch\<lparr>closed := True, send_waiters := [], recv_waiters := []\<rparr>"
    using c by (auto simp: close_def wake_all_def)
  note w = ptab.fold_modify [of unblock_process, OF block_key(2) unblock_idem]
  have "pt_inv (?f (send_waiters ch) (table s))" using w [OF inv, of "send_waiters ch" undefined] by simp
  note w2 = w [OF this, of "recv_waiters ch"]
  have "pt_get (table s') p =
      (if p \<in> set (send_waiters ch) \<union> set (recv_waiters ch)
       then map_option unblock_process (pt_get (table s) p) else pt_get (table s) p)" for p
    using w2 [of p] w [OF inv, of "send_waiters ch" p]
    by (auto simp: s' option.map_comp comp_def unblock_idem)
  with w2 [of undefined] show ?thesis
    by (simp add: s' ch' send_turn_def)
qed

end
