(* ===== verification/Net_Packets.thy ===== *)
theory Net_Packets
  imports Util
begin

text \<open>
  The packet formats of \<^verbatim>\<open>kernel/src/network\<close>: Ethernet frames (\<^verbatim>\<open>ethernet.rs\<close>), ARP packets
  (\<^verbatim>\<open>arp.rs\<close>), IPv4 packets and the Internet checksum (\<^verbatim>\<open>ip.rs\<close>), UDP datagrams (\<^verbatim>\<open>udp.rs\<close>) and TCP
  segments (\<^verbatim>\<open>tcp.rs\<close>). Byte slices and arrays are lists of bytes; the arrays of fixed length (hardware
  and protocol addresses) have their length in the well-formedness predicates. Code that
  can panic (an index out of range, a copy between slices of different lengths) returns the panic as a
  value; the theorems show that only the parser of UDP ever does.

  The lemmas show that each parser inverts its serialiser, and that the checksum computed with
  wrapping additions is the one's-complement sum, so that headers verify to zero.
\<close>

section \<open>Bytes and big-endian fields\<close>

definition u16_from_be :: "u8 \<Rightarrow> u8 \<Rightarrow> u16" where
  "u16_from_be a b = push_bit 8 (ucast a) OR ucast b"

definition u16_to_be :: "u16 \<Rightarrow> u8 list" where
  "u16_to_be w = [ucast (drop_bit 8 w), ucast w]"

definition u32_from_be :: "u8 \<Rightarrow> u8 \<Rightarrow> u8 \<Rightarrow> u8 \<Rightarrow> u32" where
  "u32_from_be a b c d =
     ((push_bit 24 (ucast a) OR push_bit 16 (ucast b)) OR push_bit 8 (ucast c)) OR ucast d"

definition u32_to_be :: "u32 \<Rightarrow> u8 list" where
  "u32_to_be w = [ucast (drop_bit 24 w), ucast (drop_bit 16 w), ucast (drop_bit 8 w), ucast w]"

text \<open>
  \<^verbatim>\<open>copy_from_slice\<close> into an array of \<open>n\<close> bytes, which panics on another length, and \<^verbatim>\<open>&data[i..j]\<close>
  for bounds the code has checked.
\<close>

definition copy_from_slice :: "nat \<Rightarrow> u8 list \<Rightarrow> u8 list res" where
  "copy_from_slice n src =
     (if length src = n then Inr src
      else Inl ''source slice length does not match destination slice length'')"

definition slice :: "nat \<Rightarrow> nat \<Rightarrow> 'a list \<Rightarrow> 'a list" where
  "slice i j xs = take (j - i) (drop i xs)"

section \<open>Ethernet\<close>

type_synonym mac_address = "u8 list"

definition ETHERTYPE_IPV4 :: u16 where "ETHERTYPE_IPV4 = 0x0800"
definition ETHERTYPE_ARP :: u16 where "ETHERTYPE_ARP = 0x0806"

definition mac_broadcast :: mac_address where
  "mac_broadcast = replicate 6 0xFF"

definition mac_from_bytes :: "u8 list \<Rightarrow> mac_address res" where
  "mac_from_bytes bs =
     (if length bs < 6 then Inl ''range end index 6 out of range for slice''
      else copy_from_slice 6 (take 6 bs))"

definition is_broadcast :: "mac_address \<Rightarrow> bool" where
  "is_broadcast m \<longleftrightarrow> m = replicate 6 0xFF"

definition is_multicast :: "mac_address \<Rightarrow> bool" where
  "is_multicast m \<longleftrightarrow> m ! 0 AND 0x01 \<noteq> 0"

record ethernet_frame =
  dst_mac :: mac_address
  src_mac :: mac_address
  ethertype :: u16
  eth_payload :: "u8 list"

definition eth_parse :: "u8 list \<Rightarrow> ethernet_frame option res" where
  "eth_parse d =
     (if length d < 14 then Inr None
      else rbind (mac_from_bytes (slice 0 6 d)) (\<lambda>dst.
           rbind (mac_from_bytes (slice 6 12 d)) (\<lambda>src.
           Inr (Some \<lparr>dst_mac = dst, src_mac = src, ethertype = u16_from_be (d ! 12) (d ! 13),
                      eth_payload = drop 14 d\<rparr>))))"

definition eth_new :: "mac_address \<Rightarrow> mac_address \<Rightarrow> u16 \<Rightarrow> u8 list \<Rightarrow> ethernet_frame" where
  "eth_new dst src ty p = \<lparr>dst_mac = dst, src_mac = src, ethertype = ty, eth_payload = p\<rparr>"

definition eth_to_bytes :: "ethernet_frame \<Rightarrow> u8 list" where
  "eth_to_bytes f =
     (let frame = dst_mac f @ src_mac f @ u16_to_be (ethertype f) @ eth_payload f
      in frame @ replicate (60 - length frame) 0)"

section \<open>Addresses and ARP\<close>

type_synonym ipv4_address = "u8 list"

definition ip_new :: "u8 \<Rightarrow> u8 \<Rightarrow> u8 \<Rightarrow> u8 \<Rightarrow> ipv4_address" where
  "ip_new a b c d = [a, b, c, d]"

definition ip_from_bytes :: "u8 list \<Rightarrow> ipv4_address res" where
  "ip_from_bytes bs =
     (if length bs < 4 then Inl ''range end index 4 out of range for slice''
      else copy_from_slice 4 (take 4 bs))"

definition ip_to_u32 :: "ipv4_address \<Rightarrow> u32" where
  "ip_to_u32 a = u32_from_be (a ! 0) (a ! 1) (a ! 2) (a ! 3)"

definition ip_from_u32 :: "u32 \<Rightarrow> ipv4_address" where
  "ip_from_u32 w = u32_to_be w"

definition ARP_REQUEST :: u16 where "ARP_REQUEST = 1"
definition ARP_REPLY :: u16 where "ARP_REPLY = 2"

record arp_packet =
  hw_type :: u16
  proto_type :: u16
  hw_addr_len :: u8
  proto_addr_len :: u8
  operation :: u16
  sender_hw_addr :: "u8 list"
  sender_proto_addr :: "u8 list"
  target_hw_addr :: "u8 list"
  target_proto_addr :: "u8 list"

definition arp_parse :: "u8 list \<Rightarrow> arp_packet option res" where
  "arp_parse d =
     (if length d < 28 then Inr None
      else rbind (copy_from_slice 6 (slice 8 14 d)) (\<lambda>sender_hw.
           rbind (copy_from_slice 4 (slice 14 18 d)) (\<lambda>sender_proto.
           rbind (copy_from_slice 6 (slice 18 24 d)) (\<lambda>target_hw.
           rbind (copy_from_slice 4 (slice 24 28 d)) (\<lambda>target_proto.
           Inr (Some
             \<lparr>hw_type = u16_from_be (d ! 0) (d ! 1), proto_type = u16_from_be (d ! 2) (d ! 3),
              hw_addr_len = d ! 4, proto_addr_len = d ! 5,
              operation = u16_from_be (d ! 6) (d ! 7),
              sender_hw_addr = sender_hw, sender_proto_addr = sender_proto,
              target_hw_addr = target_hw, target_proto_addr = target_proto\<rparr>))))))"

definition arp_new_request :: "u8 list \<Rightarrow> u8 list \<Rightarrow> u8 list \<Rightarrow> arp_packet res" where
  "arp_new_request sender_mac sender_ip target_ip =
     rbind (copy_from_slice 6 sender_mac) (\<lambda>sender_hw.
     rbind (copy_from_slice 4 sender_ip) (\<lambda>sender_proto.
     rbind (copy_from_slice 4 target_ip) (\<lambda>target_proto.
     Inr \<lparr>hw_type = 1, proto_type = 0x0800, hw_addr_len = 6, proto_addr_len = 4,
          operation = ARP_REQUEST, sender_hw_addr = sender_hw, sender_proto_addr = sender_proto,
          target_hw_addr = replicate 6 0, target_proto_addr = target_proto\<rparr>)))"

definition arp_new_reply :: "u8 list \<Rightarrow> u8 list \<Rightarrow> u8 list \<Rightarrow> u8 list \<Rightarrow> arp_packet res" where
  "arp_new_reply sender_mac sender_ip target_mac target_ip =
     rbind (copy_from_slice 6 sender_mac) (\<lambda>sender_hw.
     rbind (copy_from_slice 4 sender_ip) (\<lambda>sender_proto.
     rbind (copy_from_slice 6 target_mac) (\<lambda>target_hw.
     rbind (copy_from_slice 4 target_ip) (\<lambda>target_proto.
     Inr \<lparr>hw_type = 1, proto_type = 0x0800, hw_addr_len = 6, proto_addr_len = 4,
          operation = ARP_REPLY, sender_hw_addr = sender_hw, sender_proto_addr = sender_proto,
          target_hw_addr = target_hw, target_proto_addr = target_proto\<rparr>))))"

definition arp_to_bytes :: "arp_packet \<Rightarrow> u8 list" where
  "arp_to_bytes a =
     u16_to_be (hw_type a) @ u16_to_be (proto_type a) @ [hw_addr_len a] @ [proto_addr_len a] @
     u16_to_be (operation a) @ sender_hw_addr a @ sender_proto_addr a @ target_hw_addr a @
     target_proto_addr a"

text \<open>\<^verbatim>\<open>ArpCache\<close>: a map from addresses as numbers to hardware addresses.\<close>

type_synonym arp_cache = "u32 \<rightharpoonup> mac_address"

definition arp_insert :: "arp_cache \<Rightarrow> ipv4_address \<Rightarrow> mac_address \<Rightarrow> arp_cache" where
  "arp_insert c ip mac = c(ip_to_u32 ip \<mapsto> mac)"

definition arp_lookup :: "arp_cache \<Rightarrow> ipv4_address \<Rightarrow> mac_address option" where
  "arp_lookup c ip = c (ip_to_u32 ip)"

definition arp_remove :: "arp_cache \<Rightarrow> ipv4_address \<Rightarrow> arp_cache" where
  "arp_remove c ip = c(ip_to_u32 ip := None)"

definition arp_clear :: "arp_cache \<Rightarrow> arp_cache" where
  "arp_clear c = Map.empty"

section \<open>IPv4\<close>

definition PROTOCOL_ICMP :: u8 where "PROTOCOL_ICMP = 1"
definition PROTOCOL_TCP :: u8 where "PROTOCOL_TCP = 6"
definition PROTOCOL_UDP :: u8 where "PROTOCOL_UDP = 17"

record ip_config =
  address :: ipv4_address
  netmask :: ipv4_address
  gateway :: ipv4_address

definition default_ip_config :: ip_config where
  "default_ip_config = \<lparr>address = ip_new 10 0 2 15, netmask = ip_new 255 255 255 0,
     gateway = ip_new 10 0 2 2\<rparr>"

record ipv4_packet =
  version :: u8
  ihl :: u8
  dscp :: u8
  ecn :: u8
  total_length :: u16
  identification :: u16
  ip_flags :: u8
  fragment_offset :: u16
  ttl :: u8
  protocol :: u8
  ip_checksum :: u16
  src_addr :: ipv4_address
  dst_addr :: ipv4_address
  ip_payload :: "u8 list"

text \<open>The loop of \<^verbatim>\<open>calculate_checksum\<close>: pairs of bytes, an odd last byte padded with zero.\<close>

definition checksum_add :: "u32 \<Rightarrow> u32 \<Rightarrow> u32" where
  "checksum_add acc word =
     (let total = acc + word
      in if 0xFFFF < total then (total AND 0xFFFF) + drop_bit 16 total else total)"

fun checksum_sum :: "u32 \<Rightarrow> u8 list \<Rightarrow> u32" where
  "checksum_sum acc [] = acc"
| "checksum_sum acc [a] = checksum_add acc (push_bit 8 (ucast a))"
| "checksum_sum acc (a # b # ds) = checksum_sum (checksum_add acc (ucast (u16_from_be a b))) ds"

definition calculate_checksum :: "u8 list \<Rightarrow> u16" where
  "calculate_checksum d = ucast (NOT (checksum_sum 0 d))"

definition ip_parse :: "u8 list \<Rightarrow> ipv4_packet option res" where
  "ip_parse d =
     (if length d < 20 then Inr None
      else let v = drop_bit 4 (d ! 0); hl = d ! 0 AND 0x0F; header_len = unat (hl * 4)
           in if v \<noteq> 4 \<or> length d < header_len then Inr None
              else rbind (ip_from_bytes (slice 12 16 d)) (\<lambda>src.
                   rbind (ip_from_bytes (slice 16 20 d)) (\<lambda>dst.
                   Inr (Some
                     \<lparr>version = v, ihl = hl, dscp = drop_bit 2 (d ! 1), ecn = d ! 1 AND 0x03,
                      total_length = u16_from_be (d ! 2) (d ! 3),
                      identification = u16_from_be (d ! 4) (d ! 5), ip_flags = drop_bit 5 (d ! 6),
                      fragment_offset = u16_from_be (d ! 6 AND 0x1F) (d ! 7), ttl = d ! 8,
                      protocol = d ! 9, ip_checksum = u16_from_be (d ! 10) (d ! 11),
                      src_addr = src, dst_addr = dst, ip_payload = drop header_len d\<rparr>))))"

definition ipv4_new :: "ipv4_address \<Rightarrow> ipv4_address \<Rightarrow> u8 \<Rightarrow> u8 list \<Rightarrow> ipv4_packet" where
  "ipv4_new src dst proto p =
     \<lparr>version = 4, ihl = 5, dscp = 0, ecn = 0, total_length = of_nat (20 + length p),
      identification = 0, ip_flags = 0, fragment_offset = 0, ttl = 64, protocol = proto,
      ip_checksum = 0, src_addr = src, dst_addr = dst, ip_payload = p\<rparr>"

text \<open>The first twenty bytes with a zero checksum, and the checksum written into them.\<close>

definition ip_header :: "ipv4_packet \<Rightarrow> u8 list" where
  "ip_header p =
     [push_bit 4 (version p) OR ihl p, push_bit 2 (dscp p) OR ecn p] @
     u16_to_be (total_length p) @ u16_to_be (identification p) @
     u16_to_be (push_bit 13 (ucast (ip_flags p)) OR fragment_offset p) @
     [ttl p, protocol p] @ [0, 0] @ src_addr p @ dst_addr p"

definition ip_to_bytes :: "ipv4_packet \<Rightarrow> u8 list" where
  "ip_to_bytes p =
     (let packet = ip_header p;
          checksum = calculate_checksum (take 20 packet)
      in packet[10 := ucast (drop_bit 8 checksum), 11 := ucast checksum] @ ip_payload p)"

section \<open>UDP and TCP\<close>

record udp_datagram =
  udp_src_port :: u16
  udp_dst_port :: u16
  udp_length :: u16
  udp_checksum :: u16
  udp_payload :: "u8 list"

text \<open>\<^verbatim>\<open>&data[8..length]\<close> panics when the length field is below eight.\<close>

definition udp_parse :: "u8 list \<Rightarrow> udp_datagram option res" where
  "udp_parse d =
     (if length d < 8 then Inr None
      else let len = u16_from_be (d ! 4) (d ! 5)
           in if length d < unat len then Inr None
              else if unat len < 8 then Inl ''slice index starts at 8 but ends before''
              else Inr (Some \<lparr>udp_src_port = u16_from_be (d ! 0) (d ! 1),
                              udp_dst_port = u16_from_be (d ! 2) (d ! 3), udp_length = len,
                              udp_checksum = u16_from_be (d ! 6) (d ! 7),
                              udp_payload = slice 8 (unat len) d\<rparr>))"

definition udp_new :: "u16 \<Rightarrow> u16 \<Rightarrow> u8 list \<Rightarrow> udp_datagram" where
  "udp_new sp dp p =
     \<lparr>udp_src_port = sp, udp_dst_port = dp, udp_length = of_nat (8 + length p), udp_checksum = 0,
      udp_payload = p\<rparr>"

definition udp_to_bytes :: "udp_datagram \<Rightarrow> u8 list" where
  "udp_to_bytes u =
     u16_to_be (udp_src_port u) @ u16_to_be (udp_dst_port u) @ u16_to_be (udp_length u) @
     u16_to_be (udp_checksum u) @ udp_payload u"

definition TCP_FLAG_FIN :: u8 where "TCP_FLAG_FIN = 0x01"
definition TCP_FLAG_SYN :: u8 where "TCP_FLAG_SYN = 0x02"
definition TCP_FLAG_ACK :: u8 where "TCP_FLAG_ACK = 0x10"

record tcp_segment =
  tcp_src_port :: u16
  tcp_dst_port :: u16
  sequence :: u32
  acknowledgment :: u32
  data_offset :: u8
  tcp_flags :: u8
  tcp_window :: u16
  tcp_checksum :: u16
  urgent_ptr :: u16
  tcp_payload :: "u8 list"

definition tcp_parse :: "u8 list \<Rightarrow> tcp_segment option" where
  "tcp_parse d =
     (if length d < 20 then None
      else let off = drop_bit 4 (d ! 12); header_len = unat (off * 4)
           in if length d < header_len then None
              else Some \<lparr>tcp_src_port = u16_from_be (d ! 0) (d ! 1),
                 tcp_dst_port = u16_from_be (d ! 2) (d ! 3),
                 sequence = u32_from_be (d ! 4) (d ! 5) (d ! 6) (d ! 7),
                 acknowledgment = u32_from_be (d ! 8) (d ! 9) (d ! 10) (d ! 11),
                 data_offset = off, tcp_flags = d ! 13, tcp_window = u16_from_be (d ! 14) (d ! 15),
                 tcp_checksum = u16_from_be (d ! 16) (d ! 17),
                 urgent_ptr = u16_from_be (d ! 18) (d ! 19), tcp_payload = drop header_len d\<rparr>)"

definition has_flag :: "tcp_segment \<Rightarrow> u8 \<Rightarrow> bool" where
  "has_flag seg flag \<longleftrightarrow> tcp_flags seg AND flag \<noteq> 0"

section \<open>Fields\<close>

named_theorems packet_simps \<open>reading the fields of a serialised packet\<close>

lemma list_length_4: "length xs = 4 \<longleftrightarrow> (\<exists>a b c d. xs = [a, b, c, d])"
  by (auto simp: eval_nat_numeral length_Suc_conv)

lemma list_length_6: "length xs = 6 \<longleftrightarrow> (\<exists>a b c d e f. xs = [a, b, c, d, e, f])"
  by (auto simp: eval_nat_numeral length_Suc_conv)

lemma length_u16_to_be [simp]: "length (u16_to_be w) = 2"
  by (simp add: u16_to_be_def)

lemma u16_be_inverse [simp]: "u16_from_be (ucast (drop_bit 8 w)) (ucast w) = w"
  unfolding u16_from_be_def
  by (rule bit_word_eqI) (auto simp: bit_simps)

lemma u16_be_bytes [simp]: "u16_to_be (u16_from_be a b) = [a, b]"
proof -
  have "ucast (drop_bit 8 (u16_from_be a b)) = a" "ucast (u16_from_be a b) = b"
    unfolding u16_from_be_def
    by (rule bit_word_eqI; auto simp: bit_simps dest: bit_imp_le_length)+
  then show ?thesis by (simp add: u16_to_be_def)
qed

lemma u32_be_inverse [simp]:
  "u32_from_be (ucast (drop_bit 24 w)) (ucast (drop_bit 16 w)) (ucast (drop_bit 8 w)) (ucast w) = w"
  (is "?l = _")
proof (rule bit_word_eqI)
  fix n
  assume "n < LENGTH(32)"
  then consider "n < 8" | "8 \<le> n" "n < 16" | "16 \<le> n" "n < 24" | "24 \<le> n" "n < 32"
    by fastforce
  then show "bit ?l n \<longleftrightarrow> bit w n"
    by cases (auto simp: u32_from_be_def bit_simps)
qed

lemma bit_u8_high: "8 \<le> n \<Longrightarrow> \<not> bit (x :: u8) n"
  by (auto dest: bit_imp_le_length)

lemma u32_be_bytes [simp]: "u32_to_be (u32_from_be a b c d) = [a, b, c, d]"
proof -
  have "ucast (drop_bit 24 (u32_from_be a b c d)) = a"
    by (rule bit_word_eqI) (simp add: u32_from_be_def bit_simps bit_u8_high)
  moreover have "ucast (drop_bit 16 (u32_from_be a b c d)) = b"
    by (rule bit_word_eqI) (simp add: u32_from_be_def bit_simps bit_u8_high)
  moreover have "ucast (drop_bit 8 (u32_from_be a b c d)) = c"
    by (rule bit_word_eqI) (simp add: u32_from_be_def bit_simps bit_u8_high)
  moreover have "ucast (u32_from_be a b c d) = d"
    by (rule bit_word_eqI) (simp add: u32_from_be_def bit_simps bit_u8_high)
  ultimately show ?thesis by (simp add: u32_to_be_def)
qed

lemma ip_u32_roundtrip: "length a = 4 \<Longrightarrow> ip_from_u32 (ip_to_u32 a) = a"
  by (auto simp: list_length_4 ip_to_u32_def ip_from_u32_def)

lemma ip_to_u32_inj:
  assumes "length a = 4" and "length b = 4"
  shows "ip_to_u32 a = ip_to_u32 b \<longleftrightarrow> a = b"
  using ip_u32_roundtrip [OF assms(1)] ip_u32_roundtrip [OF assms(2)] by metis

lemma copy_from_slice_exact [simp]: "length src = n \<Longrightarrow> copy_from_slice n src = Inr src"
  by (simp add: copy_from_slice_def)

lemma mac_from_bytes_exact [simp]: "length bs = 6 \<Longrightarrow> mac_from_bytes bs = Inr bs"
  by (simp add: mac_from_bytes_def)

lemma ip_from_bytes_exact [simp]: "length bs = 4 \<Longrightarrow> ip_from_bytes bs = Inr bs"
  by (simp add: ip_from_bytes_def)

lemma length_slice [simp]: "j \<le> length xs \<Longrightarrow> length (slice i j xs) = j - i"
  by (simp add: slice_def)

section \<open>Ethernet and ARP round trips\<close>

definition frame_wf :: "ethernet_frame \<Rightarrow> bool" where
  "frame_wf f \<longleftrightarrow> length (dst_mac f) = 6 \<and> length (src_mac f) = 6"

definition arp_wf :: "arp_packet \<Rightarrow> bool" where
  "arp_wf a \<longleftrightarrow> length (sender_hw_addr a) = 6 \<and> length (sender_proto_addr a) = 4 \<and>
     length (target_hw_addr a) = 6 \<and> length (target_proto_addr a) = 4"

lemma eth_parse_eq:
  "eth_parse d =
     Inr (if length d < 14 then None
          else Some \<lparr>dst_mac = slice 0 6 d, src_mac = slice 6 12 d,
                     ethertype = u16_from_be (d ! 12) (d ! 13), eth_payload = drop 14 d\<rparr>)"
  by (simp add: eth_parse_def)

lemma eth_parse_wf: "eth_parse d = Inr (Some f) \<Longrightarrow> frame_wf f"
  by (auto simp: eth_parse_eq frame_wf_def split: if_splits)

lemma eth_parse_to_bytes:
  assumes "frame_wf f"
  shows "eth_parse (eth_to_bytes f) =
    Inr (Some (f\<lparr>eth_payload := eth_payload f @ replicate (46 - length (eth_payload f)) 0\<rparr>))"
proof -
  obtain a b c d e g where 1: "dst_mac f = [a, b, c, d, e, g]"
    using assms by (auto simp: frame_wf_def list_length_6)
  obtain a' b' c' d' e' g' where 2: "src_mac f = [a', b', c', d', e', g']"
    using assms by (auto simp: frame_wf_def list_length_6)
  show ?thesis
    by (simp add: eth_parse_eq eth_to_bytes_def 1 2 u16_to_be_def slice_def Let_def)
qed

lemma arp_parse_eq:
  "arp_parse d =
     Inr (if length d < 28 then None
          else Some
             \<lparr>hw_type = u16_from_be (d ! 0) (d ! 1), proto_type = u16_from_be (d ! 2) (d ! 3),
              hw_addr_len = d ! 4, proto_addr_len = d ! 5,
              operation = u16_from_be (d ! 6) (d ! 7),
              sender_hw_addr = slice 8 14 d, sender_proto_addr = slice 14 18 d,
              target_hw_addr = slice 18 24 d, target_proto_addr = slice 24 28 d\<rparr>)"
  by (simp add: arp_parse_def)

lemma arp_parse_wf: "arp_parse d = Inr (Some a) \<Longrightarrow> arp_wf a"
  by (auto simp: arp_parse_eq arp_wf_def split: if_splits)

lemma arp_parse_to_bytes:
  assumes "arp_wf a"
  shows "arp_parse (arp_to_bytes a @ pad) = Inr (Some a)"
proof -
  obtain h1 h2 h3 h4 h5 h6 where 1: "sender_hw_addr a = [h1, h2, h3, h4, h5, h6]"
    using assms by (auto simp: arp_wf_def list_length_6)
  obtain t1 t2 t3 t4 t5 t6 where 2: "target_hw_addr a = [t1, t2, t3, t4, t5, t6]"
    using assms by (auto simp: arp_wf_def list_length_6)
  obtain p1 p2 p3 p4 where 3: "sender_proto_addr a = [p1, p2, p3, p4]"
    using assms by (auto simp: arp_wf_def list_length_4)
  obtain q1 q2 q3 q4 where 4: "target_proto_addr a = [q1, q2, q3, q4]"
    using assms by (auto simp: arp_wf_def list_length_4)
  show ?thesis
    by (simp add: arp_parse_eq arp_to_bytes_def 1 2 3 4 u16_to_be_def slice_def)
qed

lemma length_arp_to_bytes: "arp_wf a \<Longrightarrow> length (arp_to_bytes a) = 28"
  by (simp add: arp_to_bytes_def arp_wf_def)

section \<open>The Internet checksum\<close>

text \<open>
  The reference: one's-complement addition of numbers below \<open>2\<^sup>1\<^sup>6\<close>, and the sixteen-bit words of a
  sequence of bytes. The code adds in 32 bits and folds the carry once after every addition.
\<close>

definition ones_add :: "nat \<Rightarrow> nat \<Rightarrow> nat" where
  "ones_add s w = (if 65535 < s + w then s + w - 65535 else s + w)"

fun be_words :: "u8 list \<Rightarrow> nat list" where
  "be_words [] = []"
| "be_words [a] = [256 * unat a]"
| "be_words (a # b # ds) = (256 * unat a + unat b) # be_words ds"

lemma unat_u8: "unat (x :: u8) < 256"
  using unsigned_less [of x, where 'a = nat] by simp

lemma unat_u16: "unat (x :: u16) < 65536"
  using unsigned_less [of x, where 'a = nat] by simp

lemma unat_ucast_u8_u32: "unat (ucast (a :: u8) :: u32) = unat a"
  using unat_u8 [of a] by (simp add: unsigned_ucast_eq take_bit_nat_eq_self)

lemma unat_high_u8: "unat (push_bit 8 (ucast (a :: u8)) :: u32) = 256 * unat a"
  using unat_u8 [of a]
  by (simp add: unsigned_push_bit_eq unat_ucast_u8_u32 push_bit_nat_def take_bit_nat_eq_self)

lemma unat_u16_from_be: "unat (u16_from_be a b) = 256 * unat a + unat b"
proof -
  have a: "unat (push_bit 8 (ucast a) :: u16) = 256 * unat a"
    using unat_u8 [of a]
    by (simp add: unsigned_push_bit_eq unsigned_ucast_eq push_bit_nat_def take_bit_nat_eq_self)
  have b: "unat (ucast b :: u16) = unat b"
    using unat_u8 [of b] by (simp add: unsigned_ucast_eq take_bit_nat_eq_self)
  have "u16_from_be a b = push_bit 8 (ucast a) + ucast b"
    unfolding u16_from_be_def
    by (rule disjunctive_add [symmetric]) (auto simp: bit_simps bit_u8_high)
  then show ?thesis
    using unat_u8 [of a] unat_u8 [of b] by (simp add: unat_word_ariths a b)
qed

lemma unat_checksum_add:
  assumes "unat acc \<le> 65535" and "unat w \<le> 65535"
  shows "unat (checksum_add acc w) = ones_add (unat acc) (unat w)"
proof -
  have sum: "unat (acc + w) = unat acc + unat w"
    using assms by (simp add: unat_word_ariths)
  have "unat ((acc + w) AND 0xFFFF) = (unat acc + unat w) mod 65536"
    using unat_and_mask [of "acc + w" 16] by (simp add: mask_eq_exp_minus_1 sum)
  moreover have "unat (drop_bit 16 (acc + w)) = (unat acc + unat w) div 65536"
    using assms
    by (simp add: unsigned_drop_bit_eq drop_bit_nat_def sum take_bit_nat_eq_self)
  moreover have "(0xFFFF < acc + w) \<longleftrightarrow> 65535 < unat acc + unat w"
    by (simp add: word_less_nat_alt sum)
  ultimately show ?thesis
    using assms sum
    by (auto simp: checksum_add_def ones_add_def Let_def unat_word_ariths mod_if div_if)
qed

lemma ones_add_le: "s \<le> 65535 \<Longrightarrow> w \<le> 65535 \<Longrightarrow> ones_add s w \<le> 65535"
  unfolding ones_add_def by (simp split: if_split) linarith

lemma be_words_le: "\<forall>w\<in>set (be_words d). w \<le> 65535"
proof (induction d rule: be_words.induct)
  case (2 a)
  then show ?case using unat_u8 [of a] by simp
next
  case (3 a b ds)
  then show ?case using unat_u8 [of a] unat_u8 [of b] by simp
qed simp

lemma unat_checksum_sum:
  "unat acc \<le> 65535 \<Longrightarrow> unat (checksum_sum acc d) = foldl ones_add (unat acc) (be_words d)"
proof (induction acc d rule: checksum_sum.induct)
  case (2 acc a)
  then show ?case
    using unat_u8 [of a] by (simp add: unat_checksum_add unat_high_u8)
next
  case (3 acc a b ds)
  have w: "unat (ucast (u16_from_be a b) :: u32) = 256 * unat a + unat b"
    using unat_u8 [of a] unat_u8 [of b]
    by (simp add: unsigned_ucast_eq unat_u16_from_be take_bit_nat_eq_self)
  have le: "256 * unat a + unat b \<le> 65535"
    using unat_u8 [of a] unat_u8 [of b] by simp
  have "unat (checksum_add acc (ucast (u16_from_be a b))) = ones_add (unat acc) (256 * unat a + unat b)"
    using 3 le by (simp add: unat_checksum_add w)
  with 3 le show ?case by (simp add: ones_add_le)
qed simp

lemma ones_sum:
  assumes "s \<le> 65535" and "\<forall>w\<in>set ws. w \<le> 65535"
  shows "foldl ones_add s ws \<le> 65535 \<and>
    foldl ones_add s ws mod 65535 = (s + sum_list ws) mod 65535 \<and>
    (foldl ones_add s ws = 0 \<longleftrightarrow> s = 0 \<and> (\<forall>w\<in>set ws. w = 0))"
  using assms
proof (induction ws arbitrary: s)
  case (Cons w ws)
  have "ones_add s w \<le> 65535" using Cons.prems by (simp add: ones_add_le)
  moreover have "ones_add s w mod 65535 = (s + w) mod 65535"
    by (simp add: ones_add_def le_mod_geq)
  moreover have "ones_add s w = 0 \<longleftrightarrow> s = 0 \<and> w = 0"
    unfolding ones_add_def by (simp split: if_split) linarith
  moreover have "(s + (w + sum_list ws)) mod 65535 = ((s + w) mod 65535 + sum_list ws) mod 65535"
    by (simp add: mod_add_left_eq add.assoc)
  ultimately show ?case
    using Cons.IH [of "ones_add s w"] Cons.prems by (simp add: mod_add_left_eq) (metis mod_add_left_eq)
qed simp

lemma unat_not_u16: "unat (NOT (x :: u16)) = 65535 - unat x"
proof -
  have m: "unat (- 1 :: u16) = 65535"
    by (simp add: unsigned_minus_1_eq_mask mask_eq_exp_minus_1)
  have "unat (- 1 - x) = unat (- 1 :: u16) - unat x"
    using unat_u16 [of x] by (intro unat_sub) (simp add: word_le_nat_alt m)
  moreover have "NOT x = - 1 - x" by (simp add: not_eq_complement)
  ultimately show ?thesis by (simp only: m)
qed

lemma unat_calculate_checksum:
  "unat (calculate_checksum d) = 65535 - foldl ones_add 0 (be_words d)"
proof -
  let ?s = "checksum_sum 0 d"
  have s: "unat ?s = foldl ones_add 0 (be_words d)" and le: "unat ?s \<le> 65535"
    using ones_sum [of 0 "be_words d"] be_words_le by (simp_all add: unat_checksum_sum)
  have "calculate_checksum d = NOT (ucast ?s)"
    unfolding calculate_checksum_def
    by (rule bit_word_eqI) (auto simp: bit_simps)
  moreover have "unat (ucast ?s :: u16) = unat ?s"
    using le by (simp add: unsigned_ucast_eq take_bit_nat_eq_self)
  ultimately have "unat (calculate_checksum d) = 65535 - unat ?s"
    by (simp add: unat_not_u16)
  with s show ?thesis by simp
qed

lemma be_words_update:
  "2 * k + 1 < length d \<Longrightarrow>
   be_words (d[2 * k := a, 2 * k + 1 := b]) = (be_words d)[k := 256 * unat a + unat b]"
proof (induction d arbitrary: k rule: be_words.induct)
  case (3 x y ds)
  then show ?case by (cases k) simp_all
qed simp_all

lemma be_words_nth:
  "2 * k + 1 < length d \<Longrightarrow>
   k < length (be_words d) \<and> be_words d ! k = 256 * unat (d ! (2 * k)) + unat (d ! (2 * k + 1))"
proof (induction d arbitrary: k rule: be_words.induct)
  case (3 x y ds)
  then show ?case by (cases k) simp_all
qed simp_all

lemma checksum_verifies_at:
  assumes "2 * k + 1 < length d" and "d ! (2 * k) = 0" and "d ! (2 * k + 1) = 0"
  shows "calculate_checksum
    (d[2 * k := ucast (drop_bit 8 (calculate_checksum d)), 2 * k + 1 := ucast (calculate_checksum d)]) = 0"
proof -
  let ?c = "calculate_checksum d" and ?ws = "be_words d"
  let ?S = "foldl ones_add 0 ?ws"
  let ?ws' = "?ws[k := unat ?c]"
  have k: "k < length ?ws" "?ws ! k = 0"
    using be_words_nth [OF assms(1)] assms by simp_all
  have c: "unat ?c = 65535 - ?S" by (rule unat_calculate_checksum)
  have new: "be_words (d[2 * k := ucast (drop_bit 8 ?c), 2 * k + 1 := ucast ?c]) = ?ws'"
    using be_words_update [OF assms(1)]
      unat_u16_from_be [of "ucast (drop_bit 8 ?c)" "ucast ?c"] by simp
  have le: "\<forall>w\<in>set ?ws'. w \<le> 65535"
    using be_words_le [of "d[2 * k := ucast (drop_bit 8 ?c), 2 * k + 1 := ucast ?c]"]
    by (simp only: new)
  note old = ones_sum [of 0 ?ws, OF _ be_words_le, simplified]
  note upd = ones_sum [of 0 ?ws', OF _ le, simplified]
  have sum: "sum_list ?ws' = sum_list ?ws + unat ?c"
    using sum_list_update [OF k(1), of "unat ?c"] k(2) by simp
  have "foldl ones_add 0 ?ws' mod 65535 = (?S + unat ?c) mod 65535"
    using old upd by (simp only: sum) (metis mod_add_left_eq)
  also have "\<dots> = 0" using old c by simp
  finally have dvd: "foldl ones_add 0 ?ws' mod 65535 = 0" .
  have "foldl ones_add 0 ?ws' \<noteq> 0"
  proof
    assume "foldl ones_add 0 ?ws' = 0"
    with upd have all0: "\<forall>w\<in>set ?ws'. w = 0" by simp
    then have "unat ?c = 0" using k(1) by (simp add: set_update_memI)
    with c old have "?S = 65535" by simp
    moreover have "\<forall>w\<in>set ?ws. w = 0"
      using all0 k \<open>unat ?c = 0\<close> by (metis list_update_id)
    ultimately show False using old by simp
  qed
  with dvd upd have "foldl ones_add 0 ?ws' = 65535"
    by (metis le_neq_implies_less mod_less)
  then show ?thesis
    using unat_calculate_checksum
      [of "d[2 * k := ucast (drop_bit 8 ?c), 2 * k + 1 := ucast ?c]", unfolded new]
    by (simp add: unat_eq_0)
qed

section \<open>IPv4 and UDP round trips\<close>

definition ip_wf :: "ipv4_packet \<Rightarrow> bool" where
  "ip_wf p \<longleftrightarrow> version p = 4 \<and> ihl p = 5 \<and> dscp p < 64 \<and> ecn p < 4 \<and> ip_flags p < 8 \<and>
     fragment_offset p < 8192 \<and> length (src_addr p) = 4 \<and> length (dst_addr p) = 4"

lemma bit_less_exp:
  fixes x :: "'a::len word"
  assumes "x < 2 ^ k" and "bit x n"
  shows "n < k"
proof (rule ccontr)
  assume "\<not> n < k"
  moreover have "n < LENGTH('a)" using assms(2) by (rule bit_imp_le_length)
  ultimately have "unat x < 2 ^ k" "(2 :: nat) ^ k \<le> 2 ^ n"
    using assms(1) unat_exp [of k, where 'a = 'a] by (simp_all add: word_less_nat_alt)
  then have "unat x div 2 ^ n = 0" by (intro div_less) (rule less_le_trans)
  then have "\<not> bit (unat x) n" by (simp add: bit_iff_odd)
  with assms(2) show False by (simp add: bit_unsigned_iff bit_imp_le_length)
qed

lemma dscp_ecn_bits:
  fixes d e :: u8
  assumes "d < 64" and "e < 4"
  shows "drop_bit 2 (push_bit 2 d OR e) = d" and "(push_bit 2 d OR e) AND 3 = e"
proof -
  have d: "bit d n \<Longrightarrow> n < 6" and e: "bit e n \<Longrightarrow> n < 2" for n
    using bit_less_exp [of d 6 n] bit_less_exp [of e 2 n] assms by simp_all
  have m: "(3 :: u8) = mask 2" by (simp add: mask_eq_exp_minus_1)
  show "drop_bit 2 (push_bit 2 d OR e) = d"
    by (rule bit_word_eqI) (auto simp: bit_simps dest: d e)
  show "(push_bit 2 d OR e) AND 3 = e"
    unfolding m by (rule bit_word_eqI) (auto simp: bit_simps dest: d e)
qed

lemma flags_frag_bits:
  fixes f :: u8 and g :: u16
  assumes "f < 8" and "g < 8192"
  defines "v \<equiv> push_bit 13 (ucast f) OR g"
  shows "drop_bit 5 (ucast (drop_bit 8 v)) = f"
    and "u16_from_be (ucast (drop_bit 8 v) AND 0x1F) (ucast v) = g"
proof -
  have f: "bit f n \<Longrightarrow> n < 3" and g: "bit g n \<Longrightarrow> n < 13" for n
    using bit_less_exp [of f 3 n] bit_less_exp [of g 13 n] assms by simp_all
  have m: "(0x1F :: u8) = mask 5" by (simp add: mask_eq_exp_minus_1)
  show "drop_bit 5 (ucast (drop_bit 8 v)) = f"
    unfolding v_def by (rule bit_word_eqI) (auto simp: bit_simps dest: f g)
  show "u16_from_be (ucast (drop_bit 8 v) AND 0x1F) (ucast v) = g"
    unfolding v_def u16_from_be_def m by (rule bit_word_eqI) (auto simp: bit_simps dest: f g)
qed

lemma ip_parse_eq:
  "ip_parse d =
     Inr (if length d < 20 \<or> drop_bit 4 (d ! 0) \<noteq> 4 \<or> length d < unat ((d ! 0 AND 0x0F) * 4)
          then None
          else Some
            \<lparr>version = drop_bit 4 (d ! 0), ihl = d ! 0 AND 0x0F, dscp = drop_bit 2 (d ! 1),
             ecn = d ! 1 AND 0x03, total_length = u16_from_be (d ! 2) (d ! 3),
             identification = u16_from_be (d ! 4) (d ! 5), ip_flags = drop_bit 5 (d ! 6),
             fragment_offset = u16_from_be (d ! 6 AND 0x1F) (d ! 7), ttl = d ! 8,
             protocol = d ! 9, ip_checksum = u16_from_be (d ! 10) (d ! 11),
             src_addr = slice 12 16 d, dst_addr = slice 16 20 d,
             ip_payload = drop (unat ((d ! 0 AND 0x0F) * 4)) d\<rparr>)"
  by (simp add: ip_parse_def Let_def)

lemma length_ip_header: "ip_wf p \<Longrightarrow> length (ip_header p) = 20"
  by (simp add: ip_header_def ip_wf_def)

lemma ip_header_checksum: "ip_wf p \<Longrightarrow> calculate_checksum (take 20 (ip_to_bytes p)) = 0"
  using checksum_verifies_at [of 5 "ip_header p"]
  by (simp add: ip_to_bytes_def Let_def length_ip_header)
    (simp add: ip_header_def u16_to_be_def nth_append)

lemma ip_parse_to_bytes:
  assumes "ip_wf p"
  shows "ip_parse (ip_to_bytes p @ pad) =
    Inr (Some (p\<lparr>ip_checksum := calculate_checksum (ip_header p), ip_payload := ip_payload p @ pad\<rparr>))"
proof -
  obtain s1 s2 s3 s4 where s: "src_addr p = [s1, s2, s3, s4]"
    using assms by (auto simp: ip_wf_def list_length_4)
  obtain t1 t2 t3 t4 where t: "dst_addr p = [t1, t2, t3, t4]"
    using assms by (auto simp: ip_wf_def list_length_4)
  have v: "version p = 4" "ihl p = 5" using assms by (simp_all add: ip_wf_def)
  note bits = dscp_ecn_bits [of "dscp p" "ecn p"] flags_frag_bits [of "ip_flags p" "fragment_offset p"]
  have "length (ip_header p) = 20" by (rule length_ip_header [OF assms])
  then show ?thesis
    using assms bits unfolding ip_to_bytes_def Let_def ip_header_def
    by (simp add: ip_parse_eq s t v u16_to_be_def slice_def ip_wf_def)
qed

lemma udp_parse_to_bytes:
  assumes "8 + length p < 65536"
  shows "udp_parse (udp_to_bytes (udp_new sp dp p) @ pad) = Inr (Some (udp_new sp dp p))"
proof -
  have len: "unat (of_nat (8 + length p) :: u16) = 8 + length p"
    using assms by (intro unat_of_nat_small) simp
  show ?thesis
    using len u16_be_inverse [of 0]
    by (simp add: udp_parse_def udp_to_bytes_def udp_new_def u16_to_be_def slice_def Let_def)
qed

lemma udp_parse_panics_iff:
  "(\<exists>e. udp_parse d = Inl e) \<longleftrightarrow> 8 \<le> length d \<and> unat (u16_from_be (d ! 4) (d ! 5)) < 8"
  by (auto simp: udp_parse_def Let_def)

section \<open>Properties\<close>

text \<open>C15: The checksum the code computes in 32-bit arithmetic is the complement of the
  one's-complement sum of the big-endian sixteen-bit words of the data (an odd last byte padded), and
  writing it into a checksum field that was zero, as the IP header and the ICMP reply do, gives data
  whose checksum is zero, which is the receiver's test.\<close>

theorem internet_checksum_correct:
  assumes "2 * k + 1 < length d" and "d ! (2 * k) = 0" and "d ! (2 * k + 1) = 0"
    and "c = calculate_checksum d"
  shows "unat c = 65535 - foldl ones_add 0 (be_words d) \<and>
    calculate_checksum (d[2 * k := ucast (drop_bit 8 c), 2 * k + 1 := ucast c]) = 0"
  using checksum_verifies_at [OF assms(1-3)] by (simp add: assms(4) unat_calculate_checksum)

theorem internet_checksum_correct_witness:
  "calculate_checksum ([0x45, 0xFF, 0, 0, 0x01][2 := 0xB9, 3 := 0x00]) = 0"
proof -
  have c: "0xB900 = calculate_checksum [0x45, 0xFF, 0, 0, 0x01]"
    by code_simp
  have bytes: "ucast (drop_bit 8 (0xB900 :: u16)) = (0xB9 :: u8)" "ucast (0xB900 :: u16) = (0 :: u8)"
    by code_simp+
  show ?thesis
    using internet_checksum_correct [of 1 "[0x45, 0xFF, 0, 0, 0x01]", OF _ _ _ c, unfolded bytes]
    by simp
qed

text \<open>Parsing inverts serialisation for IPv4 packets without options: whatever padding the link
  layer adds after the packet, the parser returns every field as it was built, with the header
  checksum filled in and the padding at the end of the payload, and the twenty header bytes on the wire
  verify to zero.\<close>

theorem ipv4_roundtrip:
  assumes "ip_wf p"
  shows "ip_parse (ip_to_bytes p @ pad) =
      Inr (Some (p\<lparr>ip_checksum := calculate_checksum (ip_header p), ip_payload := ip_payload p @ pad\<rparr>)) \<and>
    calculate_checksum (take 20 (ip_to_bytes p @ pad)) = 0"
  using ip_parse_to_bytes [OF assms] ip_header_checksum [OF assms] length_ip_header [OF assms]
  by (simp add: ip_to_bytes_def Let_def)

text \<open>An ARP packet survives the link: put in an Ethernet frame, padded to the minimum frame size,
  and parsed on the other side, both parsers succeed, the addresses and the type of the frame are those
  it was built with, and the ARP packet is the one that was sent.\<close>

theorem arp_over_ethernet_roundtrip:
  assumes "arp_wf a" and "length dst = 6" and "length src = 6"
  shows "\<exists>f. eth_parse (eth_to_bytes (eth_new dst src ETHERTYPE_ARP (arp_to_bytes a))) = Inr (Some f) \<and>
    dst_mac f = dst \<and> src_mac f = src \<and> ethertype f = ETHERTYPE_ARP \<and>
    arp_parse (eth_payload f) = Inr (Some a)"
  using assms eth_parse_to_bytes [of "eth_new dst src ETHERTYPE_ARP (arp_to_bytes a)"]
  by (simp add: frame_wf_def eth_new_def arp_parse_to_bytes)

text \<open>A UDP datagram built by the kernel is parsed back from its bytes, followed by any padding, as
  long as its length fits the length field; and the parser panics on exactly those datagrams of at
  least eight bytes whose length field is below eight.\<close>

theorem udp_roundtrip_and_panic:
  assumes "8 + length p < 65536"
  shows "udp_parse (udp_to_bytes (udp_new sp dp p) @ pad) = Inr (Some (udp_new sp dp p)) \<and>
    ((\<exists>e. udp_parse d = Inl e) \<longleftrightarrow> 8 \<le> length d \<and> unat (u16_from_be (d ! 4) (d ! 5)) < 8)"
  using udp_parse_to_bytes [OF assms] udp_parse_panics_iff by simp

end
