(* ===== verification/Btree_Map.thy ===== *)
theory Btree_Map
  imports Prelude
begin

text \<open>
  Rust's \<^verbatim>\<open>BTreeMap\<close>, of which the kernel uses the operations and the fact that iteration visits
  the keys in increasing order: an association list with strictly increasing keys. The interface
  \<open>ordered_dict\<close> states the map laws the clients use; the interpretation discharges them for
  the list operations.
\<close>

type_synonym ('k, 'v) btree = "('k \<times> 'v) list"

definition bt_wf :: "('k::linorder, 'v) btree \<Rightarrow> bool" where
  "bt_wf m \<longleftrightarrow> sorted_wrt (<) (map fst m)"

fun bt_insert :: "'k::linorder \<Rightarrow> 'v \<Rightarrow> ('k, 'v) btree \<Rightarrow> ('k, 'v) btree" where
  "bt_insert k v [] = [(k, v)]"
| "bt_insert k v ((k', v') # m) =
     (if k < k' then (k, v) # (k', v') # m
      else if k = k' then (k, v) # m
      else (k', v') # bt_insert k v m)"

definition bt_get :: "('k::linorder, 'v) btree \<Rightarrow> 'k \<Rightarrow> 'v option" where
  "bt_get m k = map_of m k"

definition bt_remove :: "'k::linorder \<Rightarrow> ('k, 'v) btree \<Rightarrow> ('k, 'v) btree" where
  "bt_remove k m = filter (\<lambda>e. fst e \<noteq> k) m"

definition bt_modify :: "'k::linorder \<Rightarrow> ('v \<Rightarrow> 'v) \<Rightarrow> ('k, 'v) btree \<Rightarrow> ('k, 'v) btree" where
  "bt_modify k f m = map (\<lambda>e. if fst e = k then (fst e, f (snd e)) else e) m"

section \<open>The interface\<close>

locale ordered_dict =
  fixes wf :: "'m \<Rightarrow> bool"
    and get :: "'m \<Rightarrow> 'k::linorder \<Rightarrow> 'v option"
    and insert_op :: "'k \<Rightarrow> 'v \<Rightarrow> 'm \<Rightarrow> 'm"
    and remove_op :: "'k \<Rightarrow> 'm \<Rightarrow> 'm"
    and modify_op :: "'k \<Rightarrow> ('v \<Rightarrow> 'v) \<Rightarrow> 'm \<Rightarrow> 'm"
    and entries :: "'m \<Rightarrow> ('k \<times> 'v) list"
  assumes wf_insert: "wf m \<Longrightarrow> wf (insert_op k v m)"
    and wf_remove: "wf m \<Longrightarrow> wf (remove_op k m)"
    and wf_modify: "wf m \<Longrightarrow> wf (modify_op k f m)"
    and get_insert: "wf m \<Longrightarrow> get (insert_op k v m) = (get m)(k \<mapsto> v)"
    and get_remove: "wf m \<Longrightarrow> get (remove_op k m) = (get m)(k := None)"
    and get_modify: "wf m \<Longrightarrow> get (modify_op k f m) = (get m)(k := map_option f (get m k))"
    and entries_sorted: "wf m \<Longrightarrow> sorted_wrt (<) (map fst (entries m))"
    and entries_get: "wf m \<Longrightarrow> (k, v) \<in> set (entries m) \<longleftrightarrow> get m k = Some v"
begin

lemma insert_remove_get: "wf m \<Longrightarrow> get (remove_op k (insert_op k v m)) = (get m)(k := None)"
  by (simp add: get_remove get_insert wf_insert)

lemma insert_insert_get: "wf m \<Longrightarrow> get (insert_op k w (insert_op k v m)) = (get m)(k \<mapsto> w)"
  by (simp add: get_insert wf_insert)

lemma entries_unique:
  "wf m \<Longrightarrow> (k, v) \<in> set (entries m) \<Longrightarrow> (k, w) \<in> set (entries m) \<Longrightarrow> v = w"
  by (simp add: entries_get)

end

section \<open>The lists implement it\<close>

lemma bt_wf_Cons: "bt_wf ((k, v) # m) \<longleftrightarrow> (\<forall>e\<in>set m. k < fst e) \<and> bt_wf m"
  by (auto simp: bt_wf_def)

lemma set_bt_insert_keys: "fst ` set (bt_insert k v m) = insert k (fst ` set m)"
  by (induction k v m rule: bt_insert.induct) auto

lemma bt_wf_insert: "bt_wf m \<Longrightarrow> bt_wf (bt_insert k v m)"
proof (induction k v m rule: bt_insert.induct)
  case (2 k v k' v' m)
  have "\<forall>e\<in>set (bt_insert k v m). k' < fst e" if "\<not> k < k'" "k \<noteq> k'"
    using that 2 set_bt_insert_keys [of k v m]
    by (auto simp: bt_wf_Cons) (metis (no_types, opaque_lifting) fst_conv imageE imageI insertE neqE)
  with 2 show ?case by (auto simp: bt_wf_Cons)
qed (simp add: bt_wf_def)

lemma bt_get_insert: "bt_wf m \<Longrightarrow> bt_get (bt_insert k v m) = (bt_get m)(k \<mapsto> v)"
  by (induction k v m rule: bt_insert.induct) (auto simp: bt_get_def bt_wf_Cons fun_eq_iff)

lemma bt_wf_remove: "bt_wf m \<Longrightarrow> bt_wf (bt_remove k m)"
  by (induction m) (auto simp: bt_wf_def bt_remove_def)

lemma bt_get_remove: "bt_get (bt_remove k m) = (bt_get m)(k := None)"
  by (induction m) (auto simp: bt_get_def bt_remove_def fun_eq_iff)

lemma keys_bt_modify: "map fst (bt_modify k f m) = map fst m"
  by (simp add: bt_modify_def)

lemma bt_get_modify: "bt_get (bt_modify k f m) = (bt_get m)(k := map_option f (bt_get m k))"
  by (induction m) (auto simp: bt_get_def bt_modify_def fun_eq_iff)

lemma bt_wf_distinct: "bt_wf m \<Longrightarrow> distinct (map fst m)"
  by (simp add: bt_wf_def strict_sorted_iff)

interpretation bt: ordered_dict bt_wf bt_get bt_insert bt_remove bt_modify "\<lambda>m. m"
proof unfold_locales
  fix m :: "('a, 'b) btree" and k f
  assume "bt_wf m"
  then show "bt_wf (bt_modify k f m)" by (simp add: bt_wf_def keys_bt_modify)
qed (simp_all add: bt_wf_insert bt_get_insert bt_wf_remove bt_get_remove bt_get_modify bt_wf_def [symmetric]
    bt_get_def bt_wf_distinct map_of_eq_Some_iff)

lemma bt_wf_Nil [simp]: "bt_wf []"
  by (simp add: bt_wf_def)

lemma bt_get_Nil [simp]: "bt_get [] k = None"
  by (simp add: bt_get_def)

end
