(* ===== verification/Network.thy ===== *)
theory Network
  imports Net_Packets Btree_Map
begin

text \<open>
  The network stack: TCP connections (\<^verbatim>\<open>tcp.rs\<close>), the socket table (\<^verbatim>\<open>socket.rs\<close>) and
  \<^verbatim>\<open>NetworkStack\<close> with its handlers (\<^verbatim>\<open>mod.rs\<close>). A device is any implementation of the trait
  \<^verbatim>\<open>NetworkDevice\<close>: its hardware address, the packets its \<^verbatim>\<open>receive\<close> still returns before it
  answers \<^verbatim>\<open>None\<close>, the packets handed to its \<^verbatim>\<open>send\<close> so far, and the answer of \<^verbatim>\<open>send\<close>. A handler
  returns the new stack, or the panic that stops the kernel.
\<close>

section \<open>TCP connections\<close>

datatype tcp_state = Closed | Listen | SynSent | SynReceived | Established | FinWait1 | FinWait2
  | CloseWait | Closing | LastAck | TimeWait

record tcp_connection =
  tcp_state :: tcp_state
  tcp_local_addr :: ipv4_address
  tcp_local_port :: u16
  remote_addr :: ipv4_address
  remote_port :: u16
  send_next :: u32
  send_unack :: u32
  recv_next :: u32
  send_buffer :: "u8 list"
  recv_buffer :: "u8 list"
  send_window :: u16
  recv_window :: u16

definition tcp_connection_new :: "ipv4_address \<Rightarrow> u16 \<Rightarrow> tcp_connection" where
  "tcp_connection_new addr port =
     \<lparr>tcp_state = Closed, tcp_local_addr = addr, tcp_local_port = port,
      remote_addr = ip_new 0 0 0 0, remote_port = 0, send_next = 0, send_unack = 0, recv_next = 0,
      send_buffer = [], recv_buffer = [], send_window = 65535, recv_window = 65535\<rparr>"

definition handle_segment :: "tcp_connection \<Rightarrow> tcp_segment \<Rightarrow> tcp_connection" where
  "handle_segment conn seg =
     (case tcp_state conn of
        Listen \<Rightarrow>
          if has_flag seg TCP_FLAG_SYN
          then conn\<lparr>recv_next := sequence seg + 1, tcp_state := SynReceived\<rparr> else conn
      | Established \<Rightarrow>
          (let c1 = if has_flag seg TCP_FLAG_ACK then conn\<lparr>send_unack := acknowledgment seg\<rparr> else conn;
               c2 = if tcp_payload seg \<noteq> []
                    then c1\<lparr>recv_buffer := recv_buffer c1 @ tcp_payload seg,
                            recv_next := recv_next c1 + of_nat (length (tcp_payload seg))\<rparr>
                    else c1
           in if has_flag seg TCP_FLAG_FIN then c2\<lparr>tcp_state := CloseWait\<rparr> else c2)
      | _ \<Rightarrow> conn)"

section \<open>Sockets\<close>

record udp_socket =
  udp_local_addr :: ipv4_address
  udp_local_port :: u16
  recv_queue :: "(ipv4_address \<times> u16 \<times> u8 list) list"

datatype socket = Tcp tcp_connection | Udp udp_socket

record socket_table =
  sockets :: "(u64, socket) btree"
  next_handle :: u64

definition new_socket_table :: socket_table where
  "new_socket_table = \<lparr>sockets = [], next_handle = 1\<rparr>"

definition create_tcp :: "socket_table \<Rightarrow> ipv4_address \<Rightarrow> u16 \<Rightarrow> u64 \<times> socket_table" where
  "create_tcp t addr port =
     (let handle = next_handle t
      in (handle, t\<lparr>next_handle := next_handle t + 1,
                    sockets := bt_insert handle (Tcp (tcp_connection_new addr port)) (sockets t)\<rparr>))"

text \<open>The loops over \<^verbatim>\<open>values_mut\<close> that stop at the first matching socket.\<close>

fun deliver_tcp_to :: "tcp_segment \<Rightarrow> (u64 \<times> socket) list \<Rightarrow> (u64 \<times> socket) list" where
  "deliver_tcp_to seg [] = []"
| "deliver_tcp_to seg ((h, Tcp conn) # ss) =
     (if tcp_local_port conn = tcp_dst_port seg then (h, Tcp (handle_segment conn seg)) # ss
      else (h, Tcp conn) # deliver_tcp_to seg ss)"
| "deliver_tcp_to seg ((h, Udp u) # ss) = (h, Udp u) # deliver_tcp_to seg ss"

definition deliver_tcp :: "socket_table \<Rightarrow> tcp_segment \<Rightarrow> socket_table" where
  "deliver_tcp t seg = t\<lparr>sockets := deliver_tcp_to seg (sockets t)\<rparr>"

fun deliver_udp_to :: "ipv4_address \<Rightarrow> udp_datagram \<Rightarrow> (u64 \<times> socket) list \<Rightarrow> (u64 \<times> socket) list" where
  "deliver_udp_to src d [] = []"
| "deliver_udp_to src d ((h, Tcp conn) # ss) = (h, Tcp conn) # deliver_udp_to src d ss"
| "deliver_udp_to src d ((h, Udp u) # ss) =
     (if udp_local_port u = udp_dst_port d
      then (h, Udp (u\<lparr>recv_queue := recv_queue u @ [(src, udp_src_port d, udp_payload d)]\<rparr>)) # ss
      else (h, Udp u) # deliver_udp_to src d ss)"

definition deliver_udp :: "socket_table \<Rightarrow> ipv4_address \<Rightarrow> udp_datagram \<Rightarrow> socket_table" where
  "deliver_udp t src d = t\<lparr>sockets := deliver_udp_to src d (sockets t)\<rparr>"

section \<open>The stack\<close>

record net_device =
  dev_mac :: mac_address
  dev_rx :: "u8 list list"
  dev_tx :: "u8 list list"
  dev_answer :: "u8 list \<Rightarrow> unit res"

record net_stack =
  devices :: "net_device list"
  arp_table :: arp_cache
  socket_tab :: socket_table
  ip_conf :: ip_config

definition new_stack :: net_stack where
  "new_stack = \<lparr>devices = [], arp_table = Map.empty, socket_tab = new_socket_table,
     ip_conf = default_ip_config\<rparr>"

definition stack_add_device :: "net_device \<Rightarrow> net_stack \<Rightarrow> net_stack" where
  "stack_add_device d st = st\<lparr>devices := devices st @ [d]\<rparr>"

definition stack_set_ip_config :: "ip_config \<Rightarrow> net_stack \<Rightarrow> net_stack" where
  "stack_set_ip_config c st = st\<lparr>ip_conf := c\<rparr>"

definition device_send :: "net_device \<Rightarrow> u8 list \<Rightarrow> unit res \<times> net_device" where
  "device_send d p = (dev_answer d p, d\<lparr>dev_tx := dev_tx d @ [p]\<rparr>)"

definition stack_send_packet :: "u8 list \<Rightarrow> net_stack \<Rightarrow> unit res \<times> net_stack" where
  "stack_send_packet p st =
     (case devices st of
        [] \<Rightarrow> (Inl ''No network device available'', st)
      | d # ds \<Rightarrow> (case device_send d p of (r, d') \<Rightarrow> (r, st\<lparr>devices := d' # ds\<rparr>)))"

definition get_mac_address :: "net_stack \<Rightarrow> mac_address" where
  "get_mac_address st = (case devices st of d # ds \<Rightarrow> dev_mac d | [] \<Rightarrow> [0, 0, 0, 0, 0, 0])"

definition send_arp_reply :: "arp_packet \<Rightarrow> net_stack \<Rightarrow> net_stack res" where
  "send_arp_reply request st =
     rbind (arp_new_reply (get_mac_address st) (address (ip_conf st))
              (sender_hw_addr request) (sender_proto_addr request)) (\<lambda>reply.
     rbind (mac_from_bytes (sender_hw_addr request)) (\<lambda>dst.
     Inr (snd (stack_send_packet
       (eth_to_bytes (eth_new dst (get_mac_address st) ETHERTYPE_ARP (arp_to_bytes reply))) st))))"

definition handle_arp_packet :: "u8 list \<Rightarrow> net_stack \<Rightarrow> net_stack res" where
  "handle_arp_packet payload st =
     rbind (arp_parse payload) (\<lambda>parsed.
     case parsed of
       None \<Rightarrow> Inr st
     | Some a \<Rightarrow>
         if operation a = ARP_REQUEST then
           (if target_proto_addr a = address (ip_conf st) then send_arp_reply a st else Inr st)
         else if operation a = ARP_REPLY then
           rbind (ip_from_bytes (sender_proto_addr a)) (\<lambda>ip.
           rbind (mac_from_bytes (sender_hw_addr a)) (\<lambda>mac.
           Inr (st\<lparr>arp_table := arp_insert (arp_table st) ip mac\<rparr>)))
         else Inr st)"

definition send_icmp_reply :: "ipv4_packet \<Rightarrow> net_stack \<Rightarrow> net_stack" where
  "send_icmp_reply request st =
     (let zeroed = (ip_payload request)[0 := 0, 2 := 0, 3 := 0];
          checksum = calculate_checksum zeroed;
          reply_payload = zeroed[2 := ucast (drop_bit 8 checksum), 3 := ucast checksum];
          ip_reply = ipv4_new (address (ip_conf st)) (src_addr request) PROTOCOL_ICMP reply_payload
      in case arp_lookup (arp_table st) (src_addr request) of
           None \<Rightarrow> st
         | Some mac \<Rightarrow> snd (stack_send_packet
             (eth_to_bytes (eth_new mac (get_mac_address st) ETHERTYPE_IPV4 (ip_to_bytes ip_reply))) st))"

definition handle_icmp_packet :: "ipv4_packet \<Rightarrow> net_stack \<Rightarrow> net_stack" where
  "handle_icmp_packet p st =
     (if 8 \<le> length (ip_payload p) then
        (if ip_payload p ! 0 = 8 then send_icmp_reply p st else st)
      else st)"

definition handle_tcp_packet :: "ipv4_packet \<Rightarrow> net_stack \<Rightarrow> net_stack" where
  "handle_tcp_packet p st =
     (case tcp_parse (ip_payload p) of
        None \<Rightarrow> st
      | Some seg \<Rightarrow> st\<lparr>socket_tab := deliver_tcp (socket_tab st) seg\<rparr>)"

definition handle_udp_packet :: "ipv4_packet \<Rightarrow> net_stack \<Rightarrow> net_stack res" where
  "handle_udp_packet p st =
     rbind (udp_parse (ip_payload p)) (\<lambda>parsed.
     case parsed of
       None \<Rightarrow> Inr st
     | Some d \<Rightarrow> Inr (st\<lparr>socket_tab := deliver_udp (socket_tab st) (src_addr p) d\<rparr>))"

definition handle_ip_packet :: "u8 list \<Rightarrow> net_stack \<Rightarrow> net_stack res" where
  "handle_ip_packet payload st =
     rbind (ip_parse payload) (\<lambda>parsed.
     case parsed of
       None \<Rightarrow> Inr st
     | Some p \<Rightarrow>
         if dst_addr p \<noteq> address (ip_conf st) then Inr st
         else if protocol p = PROTOCOL_ICMP then Inr (handle_icmp_packet p st)
         else if protocol p = PROTOCOL_TCP then Inr (handle_tcp_packet p st)
         else if protocol p = PROTOCOL_UDP then handle_udp_packet p st
         else Inr st)"

definition process_packet :: "u8 list \<Rightarrow> net_stack \<Rightarrow> net_stack res" where
  "process_packet packet st =
     rbind (eth_parse packet) (\<lambda>parsed.
     case parsed of
       None \<Rightarrow> Inr st
     | Some f \<Rightarrow>
         if ethertype f = ETHERTYPE_ARP then handle_arp_packet (eth_payload f) st
         else if ethertype f = ETHERTYPE_IPV4 then handle_ip_packet (eth_payload f) st
         else Inr st)"

definition stack_poll :: "net_stack \<Rightarrow> net_stack res" where
  "stack_poll st =
     (let packets = concat (map dev_rx (devices st));
          st' = st\<lparr>devices := map (\<lambda>d. d\<lparr>dev_rx := []\<rparr>) (devices st)\<rparr>
      in rfold process_packet packets st')"

text \<open>The global stack, absent before \<^verbatim>\<open>init\<close>.\<close>

definition network_init :: "net_stack option \<Rightarrow> net_stack option" where
  "network_init g = Some new_stack"

definition network_add_device :: "net_device \<Rightarrow> net_stack option \<Rightarrow> net_stack option" where
  "network_add_device d g = map_option (stack_add_device d) g"

definition network_set_ip_config ::
    "ipv4_address \<Rightarrow> ipv4_address \<Rightarrow> ipv4_address \<Rightarrow> net_stack option \<Rightarrow> net_stack option" where
  "network_set_ip_config addr nm gw g =
     map_option (stack_set_ip_config \<lparr>address = addr, netmask = nm, gateway = gw\<rparr>) g"

definition network_poll :: "net_stack option \<Rightarrow> net_stack option res" where
  "network_poll g =
     (case g of None \<Rightarrow> Inr None | Some s \<Rightarrow> rbind (stack_poll s) (\<lambda>s'. Inr (Some s')))"

definition network_send_packet :: "u8 list \<Rightarrow> net_stack option \<Rightarrow> unit res \<times> net_stack option" where
  "network_send_packet p g =
     (case g of
        None \<Rightarrow> (Inl ''Network stack not initialized'', None)
      | Some s \<Rightarrow> (case stack_send_packet p s of (r, s') \<Rightarrow> (r, Some s')))"

section \<open>Well-formed stacks\<close>

definition stack_wf :: "net_stack \<Rightarrow> bool" where
  "stack_wf st \<longleftrightarrow> length (address (ip_conf st)) = 4 \<and> (\<forall>d\<in>set (devices st). length (dev_mac d) = 6) \<and>
     (\<forall>ip mac. arp_table st ip = Some mac \<longrightarrow> length mac = 6)"

lemma new_stack_wf: "stack_wf new_stack"
  by (simp add: stack_wf_def new_stack_def default_ip_config_def ip_new_def)

lemma length_get_mac_address: "stack_wf st \<Longrightarrow> length (get_mac_address st) = 6"
  by (auto simp: stack_wf_def get_mac_address_def split: list.splits)

lemma stack_send_packet_wf: "stack_wf st \<Longrightarrow> stack_wf (snd (stack_send_packet p st))"
  by (auto simp: stack_wf_def stack_send_packet_def device_send_def split: list.splits)

lemma ip_parse_addr_lengths:
  "ip_parse d = Inr (Some p) \<Longrightarrow> length (src_addr p) = 4 \<and> length (dst_addr p) = 4"
  by (auto simp: ip_parse_eq split: if_splits)

lemma ip_wf_new: "length src = 4 \<Longrightarrow> length dst = 4 \<Longrightarrow> ip_wf (ipv4_new src dst proto p)"
  by (simp add: ip_wf_def ipv4_new_def)

lemma arp_new_reply_eq:
  assumes "length m = 6" "length a = 4" "length m' = 6" "length a' = 4"
  shows "arp_new_reply m a m' a' =
    Inr \<lparr>hw_type = 1, proto_type = 0x0800, hw_addr_len = 6, proto_addr_len = 4,
      operation = ARP_REPLY, sender_hw_addr = m, sender_proto_addr = a, target_hw_addr = m',
      target_proto_addr = a'\<rparr>"
  using assms by (simp add: arp_new_reply_def)

lemma send_arp_reply_eq:
  assumes "stack_wf st" and "arp_wf a"
  shows "send_arp_reply a st = Inr (snd (stack_send_packet (eth_to_bytes
    (eth_new (sender_hw_addr a) (get_mac_address st) ETHERTYPE_ARP (arp_to_bytes
      \<lparr>hw_type = 1, proto_type = 0x0800, hw_addr_len = 6, proto_addr_len = 4,
       operation = ARP_REPLY, sender_hw_addr = get_mac_address st,
       sender_proto_addr = address (ip_conf st), target_hw_addr = sender_hw_addr a,
       target_proto_addr = sender_proto_addr a\<rparr>))) st))"
  using assms length_get_mac_address [OF assms(1)]
  by (simp add: send_arp_reply_def arp_wf_def stack_wf_def arp_new_reply_eq)

lemma handle_arp_packet_eq:
  assumes "stack_wf st"
  shows "handle_arp_packet payload st =
    (case arp_parse payload of
       Inr (Some a) \<Rightarrow>
         if operation a = ARP_REQUEST \<and> target_proto_addr a = address (ip_conf st) then send_arp_reply a st
         else if operation a = ARP_REPLY
         then Inr (st\<lparr>arp_table := arp_insert (arp_table st) (sender_proto_addr a) (sender_hw_addr a)\<rparr>)
         else Inr st
     | _ \<Rightarrow> Inr st)"
proof (cases "arp_parse payload")
  case (Inr r)
  show ?thesis
  proof (cases r)
    case (Some a)
    have "arp_wf a" using Inr Some arp_parse_wf [of payload a] by simp
    then show ?thesis
      by (auto simp: handle_arp_packet_def Inr Some arp_wf_def ARP_REQUEST_def ARP_REPLY_def)
  qed (simp add: handle_arp_packet_def Inr)
qed (simp add: arp_parse_eq)

lemma handle_arp_packet_ok:
  assumes "stack_wf st"
  shows "\<exists>st'. handle_arp_packet payload st = Inr st' \<and> stack_wf st'"
proof (cases "arp_parse payload")
  case (Inr r)
  show ?thesis
  proof (cases r)
    case (Some a)
    have "arp_wf a" using Inr Some arp_parse_wf [of payload a] by simp
    then show ?thesis
      using assms send_arp_reply_eq [OF assms, of a]
      by (auto simp: handle_arp_packet_eq Inr Some stack_send_packet_wf)
        (simp_all add: stack_wf_def arp_insert_def arp_wf_def)
  qed (simp add: assms handle_arp_packet_eq Inr)
qed (simp add: arp_parse_eq)

lemma handle_icmp_packet_wf: "stack_wf st \<Longrightarrow> stack_wf (handle_icmp_packet p st)"
  by (auto simp: handle_icmp_packet_def send_icmp_reply_def Let_def stack_send_packet_wf
      split: option.splits)

lemma stack_wf_socket_tab [simp]: "stack_wf (st\<lparr>socket_tab := t\<rparr>) = stack_wf st"
  by (simp add: stack_wf_def)

lemma handle_ip_packet_wf:
  assumes "stack_wf st" and "handle_ip_packet payload st = Inr st'"
  shows "stack_wf st'"
proof -
  obtain r where r: "ip_parse payload = Inr r" by (simp add: ip_parse_eq)
  have "stack_wf st'" if "handle_udp_packet p st = Inr st'" for p
    using that assms(1) by (auto simp: handle_udp_packet_def rbind_Inr_iff split: option.splits)
  with assms r handle_icmp_packet_wf [OF assms(1)] show ?thesis
    by (auto simp: handle_ip_packet_def handle_tcp_packet_def split: option.splits if_splits)
qed

lemma process_packet_wf:
  assumes "stack_wf st" and "process_packet pkt st = Inr st'"
  shows "stack_wf st'"
proof (cases "eth_parse pkt")
  case (Inr r)
  show ?thesis
  proof (cases r)
    case None
    with Inr assms show ?thesis by (simp add: process_packet_def)
  next
    case (Some f)
    with Inr assms handle_arp_packet_ok [OF assms(1), of "eth_payload f"] show ?thesis
      by (auto simp: process_packet_def handle_ip_packet_wf split: if_splits)
  qed
qed (simp add: eth_parse_eq)

lemma handle_ip_packet_panic:
  "(\<exists>e. handle_ip_packet payload st = Inl e) \<longleftrightarrow>
   (\<exists>p. ip_parse payload = Inr (Some p) \<and> dst_addr p = address (ip_conf st) \<and>
      protocol p = PROTOCOL_UDP \<and> (\<exists>e. udp_parse (ip_payload p) = Inl e))"
proof (cases "ip_parse payload")
  case (Inr r)
  then show ?thesis
  proof (cases r)
    case (Some p)
    then show ?thesis
      by (cases "udp_parse (ip_payload p)")
        (auto simp: handle_ip_packet_def Inr handle_udp_packet_def PROTOCOL_UDP_def PROTOCOL_ICMP_def
          PROTOCOL_TCP_def split: option.splits)
  qed (simp add: handle_ip_packet_def)
qed (simp add: ip_parse_eq)

text \<open>What the stack sees of an IPv4 packet that the peer built and sent on a frame.\<close>

definition ip_frame :: "mac_address \<Rightarrow> mac_address \<Rightarrow> ipv4_packet \<Rightarrow> u8 list" where
  "ip_frame dst src p = eth_to_bytes (eth_new dst src ETHERTYPE_IPV4 (ip_to_bytes p))"

lemma ip_frame_parses:
  assumes "length dst = 6" and "length src = 6" and "ip_wf p"
  shows "\<exists>f q. eth_parse (ip_frame dst src p) = Inr (Some f) \<and> dst_mac f = dst \<and> src_mac f = src \<and>
    ethertype f = ETHERTYPE_IPV4 \<and> ip_parse (eth_payload f) = Inr (Some q) \<and>
    calculate_checksum (take 20 (eth_payload f)) = 0 \<and> total_length q = total_length p \<and> src_addr q = src_addr p \<and> dst_addr q = dst_addr p \<and> protocol q = protocol p \<and>
    ip_payload q = ip_payload p @ replicate (26 - length (ip_payload p)) 0"
proof -
  let ?f = "eth_new dst src ETHERTYPE_IPV4 (ip_to_bytes p)"
  have len: "length (ip_to_bytes p) = 20 + length (ip_payload p)"
    using length_ip_header [OF assms(3)] by (simp add: ip_to_bytes_def Let_def)
  have "eth_parse (ip_frame dst src p) = Inr (Some (?f\<lparr>eth_payload := ip_to_bytes p @
      replicate (26 - length (ip_payload p)) 0\<rparr>))"
    using eth_parse_to_bytes [of ?f] assms
    by (simp add: ip_frame_def frame_wf_def eth_new_def len)
  with ip_parse_to_bytes [OF assms(3)] ip_header_checksum [OF assms(3)] len show ?thesis
    by (simp add: eth_new_def)
qed

lemma icmp_reply_payload:
  assumes "8 \<le> length d" and "z = d[0 := 0, 2 := 0, 3 := 0]" and "c = calculate_checksum z"
    and "x = z[2 := ucast (drop_bit 8 c), 3 := ucast c]"
  shows "length x = length d \<and> x ! 0 = 0 \<and> calculate_checksum x = 0 \<and>
    (\<forall>i<length d. i \<notin> {0, 2, 3} \<longrightarrow> x ! i = d ! i)"
proof -
  have "calculate_checksum (z[2 * 1 := ucast (drop_bit 8 c), 2 * 1 + 1 := ucast c]) = 0"
    unfolding assms(3) by (rule checksum_verifies_at) (use assms in simp_all)
  moreover have "\<forall>i<length d. i \<notin> {0, 2, 3} \<longrightarrow> x ! i = d ! i" and "x ! 0 = 0"
    using assms(1) by (cases d; auto simp: assms(2,4) nth_list_update_if)+
  ultimately show ?thesis by (simp add: assms(2,4))
qed

lemma send_icmp_reply_sends:
  assumes "stack_wf st" and "devices st = d # ds" and "length (src_addr p) = 4"
    and "8 \<le> length (ip_payload p)" and "arp_lookup (arp_table st) (src_addr p) = Some mac"
  shows "\<exists>x. send_icmp_reply p st = st\<lparr>devices := d\<lparr>dev_tx := dev_tx d @ [ip_frame mac (dev_mac d)
        (ipv4_new (address (ip_conf st)) (src_addr p) PROTOCOL_ICMP x)]\<rparr> # ds\<rparr> \<and>
    length x = length (ip_payload p) \<and> x ! 0 = 0 \<and> calculate_checksum x = 0 \<and>
    (\<forall>i<length x. i \<notin> {0, 2, 3} \<longrightarrow> x ! i = ip_payload p ! i)"
proof -
  define z where "z = (ip_payload p)[0 := 0, 2 := 0, 3 := 0]"
  define x where "x = z[2 := ucast (drop_bit 8 (calculate_checksum z)), 3 := ucast (calculate_checksum z)]"
  have "send_icmp_reply p st = st\<lparr>devices := d\<lparr>dev_tx := dev_tx d @ [ip_frame mac (dev_mac d)
        (ipv4_new (address (ip_conf st)) (src_addr p) PROTOCOL_ICMP x)]\<rparr> # ds\<rparr>"
    unfolding x_def z_def using assms(2,5)
    by (simp add: send_icmp_reply_def Let_def stack_send_packet_def device_send_def
        get_mac_address_def ip_frame_def)
  with icmp_reply_payload [OF assms(4) z_def refl x_def] show ?thesis by metis
qed

text \<open>Connections under sequences of segments, and socket tables under sequences of operations.\<close>

lemma handle_segment_closed: "tcp_state c \<notin> {Listen, Established} \<Longrightarrow> handle_segment c seg = c"
  by (simp add: handle_segment_def split: tcp_state.splits)

lemma handle_segments_closed:
  "tcp_state c \<notin> {Listen, Established} \<Longrightarrow> foldl handle_segment c segs = c"
  by (induction segs) (simp_all add: handle_segment_closed)

datatype socket_op = Create_tcp ipv4_address u16 | Deliver_tcp tcp_segment
  | Deliver_udp ipv4_address udp_datagram

fun socket_step :: "socket_table \<Rightarrow> socket_op \<Rightarrow> socket_table" where
  "socket_step t (Create_tcp a p) = snd (create_tcp t a p)"
| "socket_step t (Deliver_tcp seg) = deliver_tcp t seg"
| "socket_step t (Deliver_udp src d) = deliver_udp t src d"

definition fresh_tcp :: "socket \<Rightarrow> bool" where
  "fresh_tcp s \<longleftrightarrow> (\<exists>a p. s = Tcp (tcp_connection_new a p))"

lemma set_bt_insert: "set (bt_insert k v m) \<subseteq> insert (k, v) (set m)"
  by (induction k v m rule: bt_insert.induct) auto

lemma deliver_tcp_to_fresh: "\<forall>e\<in>set ss. fresh_tcp (snd e) \<Longrightarrow> deliver_tcp_to seg ss = ss"
  by (induction seg ss rule: deliver_tcp_to.induct)
    (auto simp: fresh_tcp_def tcp_connection_new_def handle_segment_closed)

lemma deliver_udp_to_fresh: "\<forall>e\<in>set ss. fresh_tcp (snd e) \<Longrightarrow> deliver_udp_to src d ss = ss"
  by (induction src d ss rule: deliver_udp_to.induct) (auto simp: fresh_tcp_def)

lemma socket_step_fresh:
  "\<forall>e\<in>set (sockets t). fresh_tcp (snd e) \<Longrightarrow> \<forall>e\<in>set (sockets (socket_step t oper)). fresh_tcp (snd e)"
proof (cases oper)
  case (Create_tcp a p)
  assume "\<forall>e\<in>set (sockets t). fresh_tcp (snd e)"
  with set_bt_insert [of "next_handle t" "Tcp (tcp_connection_new a p)" "sockets t"] Create_tcp
  show ?thesis by (fastforce simp: create_tcp_def Let_def fresh_tcp_def)
qed (simp_all add: deliver_tcp_def deliver_udp_def deliver_tcp_to_fresh deliver_udp_to_fresh)

text \<open>A stack with one device, and a request for its address.\<close>

definition sample_device :: net_device where
  "sample_device = \<lparr>dev_mac = [2, 0, 0, 0, 0, 1], dev_rx = [], dev_tx = [], dev_answer = (\<lambda>_. Inr ())\<rparr>"

definition sample_stack :: net_stack where
  "sample_stack = stack_add_device sample_device new_stack"

definition sample_request :: arp_packet where
  "sample_request = \<lparr>hw_type = 1, proto_type = 0x0800, hw_addr_len = 6, proto_addr_len = 4,
     operation = ARP_REQUEST, sender_hw_addr = [2, 0, 0, 0, 0, 9],
     sender_proto_addr = [10, 0, 2, 2], target_hw_addr = replicate 6 0,
     target_proto_addr = [10, 0, 2, 15]\<rparr>"

lemma sample_stack_wf: "stack_wf sample_stack"
  using new_stack_wf
  by (simp add: stack_wf_def sample_stack_def stack_add_device_def new_stack_def sample_device_def)

section \<open>Properties\<close>

text \<open>C13: No packet can make the stack panic except one: an IPv4 packet for the kernel's own address
  that carries a UDP datagram of at least eight bytes whose length field is below eight. That packet
  does panic the kernel, whatever its source.\<close>

theorem process_packet_panics_iff:
  assumes "stack_wf st"
  shows "(\<exists>e. process_packet pkt st = Inl e) \<longleftrightarrow>
    (\<exists>f p. eth_parse pkt = Inr (Some f) \<and> ethertype f = ETHERTYPE_IPV4 \<and>
       ip_parse (eth_payload f) = Inr (Some p) \<and> dst_addr p = address (ip_conf st) \<and>
       protocol p = PROTOCOL_UDP \<and> 8 \<le> length (ip_payload p) \<and>
       unat (u16_from_be (ip_payload p ! 4) (ip_payload p ! 5)) < 8)"
proof (cases "eth_parse pkt")
  case (Inr r)
  show ?thesis
  proof (cases r)
    case (Some f)
    have "ETHERTYPE_ARP \<noteq> ETHERTYPE_IPV4" by (simp add: ETHERTYPE_ARP_def ETHERTYPE_IPV4_def)
    then show ?thesis
      using handle_arp_packet_ok [OF assms, of "eth_payload f"]
        handle_ip_packet_panic [of "eth_payload f" st]
      by (auto simp: process_packet_def Inr Some udp_parse_panics_iff)
  qed (simp add: process_packet_def Inr)
qed (simp add: eth_parse_eq)

theorem process_packet_panics_iff_witness:
  "\<exists>e. process_packet (ip_frame (replicate 6 255) [2, 0, 0, 0, 0, 9]
     (ipv4_new [10, 0, 2, 2] [10, 0, 2, 15] 17 [0, 1, 0, 2, 0, 7, 0, 0])) new_stack = Inl e"
proof -
  let ?p = "ipv4_new [10, 0, 2, 2] [10, 0, 2, 15] 17 [0, 1, 0, 2, 0, 7, 0, 0]"
  have "ip_wf ?p" by (simp add: ip_wf_new)
  then show ?thesis
    using process_packet_panics_iff [OF new_stack_wf]
      ip_frame_parses [of "replicate 6 255" "[2, 0, 0, 0, 0, 9]" ?p]
    by (auto simp: ipv4_new_def new_stack_def default_ip_config_def ip_new_def PROTOCOL_UDP_def
        unat_u16_from_be)
qed

text \<open>An ARP request for the kernel's address, received on any frame, is answered by exactly one
  frame on the first device, addressed to the requester, which parses as an ARP reply that binds the
  kernel's address to the device's hardware address; nothing else of the stack changes.\<close>

theorem arp_request_answered:
  assumes "stack_wf st" and "devices st = d # ds" and "eth_parse pkt = Inr (Some f)"
    and "ethertype f = ETHERTYPE_ARP" and "arp_parse (eth_payload f) = Inr (Some req)"
    and "operation req = ARP_REQUEST" and "target_proto_addr req = address (ip_conf st)"
  shows "\<exists>frame r a. process_packet pkt st = Inr (st\<lparr>devices := d\<lparr>dev_tx := dev_tx d @ [frame]\<rparr> # ds\<rparr>) \<and>
    eth_parse frame = Inr (Some r) \<and> dst_mac r = sender_hw_addr req \<and> src_mac r = dev_mac d \<and>
    ethertype r = ETHERTYPE_ARP \<and> arp_parse (eth_payload r) = Inr (Some a) \<and>
    operation a = ARP_REPLY \<and> sender_hw_addr a = dev_mac d \<and>
    sender_proto_addr a = address (ip_conf st) \<and> target_hw_addr a = sender_hw_addr req \<and>
    target_proto_addr a = sender_proto_addr req"
proof -
  let ?a = "\<lparr>hw_type = 1, proto_type = 0x0800, hw_addr_len = 6, proto_addr_len = 4,
       operation = ARP_REPLY, sender_hw_addr = dev_mac d,
       sender_proto_addr = address (ip_conf st), target_hw_addr = sender_hw_addr req,
       target_proto_addr = sender_proto_addr req\<rparr>"
  let ?f = "eth_new (sender_hw_addr req) (dev_mac d) ETHERTYPE_ARP (arp_to_bytes ?a)"
  have req: "arp_wf req" using assms(5) by (rule arp_parse_wf)
  have wf: "arp_wf ?a" "frame_wf ?f"
    using req assms(1,2) by (simp_all add: arp_wf_def frame_wf_def eth_new_def stack_wf_def)
  have "process_packet pkt st =
      Inr (st\<lparr>devices := d\<lparr>dev_tx := dev_tx d @ [eth_to_bytes ?f]\<rparr> # ds\<rparr>)"
    using assms send_arp_reply_eq [OF assms(1) req]
    by (simp add: process_packet_def handle_arp_packet_eq stack_send_packet_def device_send_def
        get_mac_address_def)
  with eth_parse_to_bytes [OF wf(2)] arp_parse_to_bytes [OF wf(1)] show ?thesis
    by (intro exI [of _ "eth_to_bytes ?f"]) (simp add: eth_new_def)
qed

text \<open>C14: A ping for the kernel's address is answered exactly when the ARP cache knows the sender: then
  one frame goes to the cached hardware address on the first device, carrying an IPv4 packet back to
  the sender whose header checksum verifies and whose ICMP message is the request with type zero, everything
  but type and checksum unchanged, and with a checksum that verifies. Without an entry the stack stays as it is.\<close>

theorem icmp_echo_answered:
  assumes "stack_wf st" and "devices st = d # ds" and "eth_parse pkt = Inr (Some f)"
    and "ethertype f = ETHERTYPE_IPV4" and "ip_parse (eth_payload f) = Inr (Some p)"
    and "dst_addr p = address (ip_conf st)" and "protocol p = PROTOCOL_ICMP"
    and "8 \<le> length (ip_payload p)" and "ip_payload p ! 0 = 8"
  shows "case arp_lookup (arp_table st) (src_addr p) of
      None \<Rightarrow> process_packet pkt st = Inr st
    | Some mac \<Rightarrow> \<exists>frame x r q.
        process_packet pkt st = Inr (st\<lparr>devices := d\<lparr>dev_tx := dev_tx d @ [frame]\<rparr> # ds\<rparr>) \<and>
        eth_parse frame = Inr (Some r) \<and> dst_mac r = mac \<and> src_mac r = dev_mac d \<and>
        ip_parse (eth_payload r) = Inr (Some q) \<and> calculate_checksum (take 20 (eth_payload r)) = 0 \<and>
        src_addr q = address (ip_conf st) \<and> dst_addr q = src_addr p \<and> protocol q = PROTOCOL_ICMP \<and>
        total_length q = of_nat (20 + length x) \<and> ip_payload q = x @ replicate (26 - length x) 0 \<and> length x = length (ip_payload p) \<and>
        x ! 0 = 0 \<and> calculate_checksum x = 0 \<and>
        (\<forall>i<length x. i \<notin> {0, 2, 3} \<longrightarrow> x ! i = ip_payload p ! i)"
proof (cases "arp_lookup (arp_table st) (src_addr p)")
  case None
  with assms show ?thesis
    by (simp add: process_packet_def handle_ip_packet_def handle_icmp_packet_def send_icmp_reply_def
        Let_def ETHERTYPE_ARP_def ETHERTYPE_IPV4_def)
next
  case (Some mac)
  have len: "length (src_addr p) = 4" "length (address (ip_conf st)) = 4" "length (dev_mac d) = 6"
      "length mac = 6"
    using ip_parse_addr_lengths [OF assms(5)] assms(1,2) Some
    by (auto simp: stack_wf_def arp_lookup_def)
  have proc: "process_packet pkt st = Inr (send_icmp_reply p st)"
    using assms
    by (simp add: process_packet_def handle_ip_packet_def handle_icmp_packet_def ETHERTYPE_ARP_def
        ETHERTYPE_IPV4_def)
  obtain x where x: "send_icmp_reply p st = st\<lparr>devices := d\<lparr>dev_tx := dev_tx d @
        [ip_frame mac (dev_mac d) (ipv4_new (address (ip_conf st)) (src_addr p) PROTOCOL_ICMP x)]\<rparr> # ds\<rparr>"
      "length x = length (ip_payload p)" "x ! 0 = 0" "calculate_checksum x = 0"
      "\<forall>i<length x. i \<notin> {0, 2, 3} \<longrightarrow> x ! i = ip_payload p ! i"
    using send_icmp_reply_sends [OF assms(1,2) len(1) assms(8) Some] by blast
  from ip_frame_parses [OF len(4,3), of "ipv4_new (address (ip_conf st)) (src_addr p) PROTOCOL_ICMP x"]
  obtain r q where rq: "eth_parse (ip_frame mac (dev_mac d)
        (ipv4_new (address (ip_conf st)) (src_addr p) PROTOCOL_ICMP x)) = Inr (Some r)"
      "dst_mac r = mac" "src_mac r = dev_mac d" "ip_parse (eth_payload r) = Inr (Some q)"
      "calculate_checksum (take 20 (eth_payload r)) = 0" "total_length q = of_nat (20 + length x)"
      "src_addr q = address (ip_conf st)" "dst_addr q = src_addr p" "protocol q = PROTOCOL_ICMP"
      "ip_payload q = x @ replicate (26 - length x) 0"
    using ip_wf_new [OF len(2,1)] by (auto simp: ipv4_new_def)
  show ?thesis
    unfolding Some option.case proc x(1) using rq x(2-5) by blast
qed

theorem icmp_echo_answered_witness:
  "process_packet (ip_frame (replicate 6 255) [2, 0, 0, 0, 0, 9]
     (ipv4_new [10, 0, 2, 2] [10, 0, 2, 15] PROTOCOL_ICMP [8, 0, 0, 0, 0, 1, 0, 1])) sample_stack =
     Inr sample_stack \<and>
   (\<exists>frame. process_packet (ip_frame (replicate 6 255) [2, 0, 0, 0, 0, 9]
     (ipv4_new [10, 0, 2, 2] [10, 0, 2, 15] PROTOCOL_ICMP [8, 0, 0, 0, 0, 1, 0, 1]))
     (sample_stack\<lparr>arp_table := [ip_to_u32 [10, 0, 2, 2] \<mapsto> [2, 0, 0, 0, 0, 9]]\<rparr>) =
     Inr (sample_stack\<lparr>arp_table := [ip_to_u32 [10, 0, 2, 2] \<mapsto> [2, 0, 0, 0, 0, 9]],
       devices := [sample_device\<lparr>dev_tx := [frame]\<rparr>]\<rparr>))"
proof -
  let ?p = "ipv4_new [10, 0, 2, 2] [10, 0, 2, 15] PROTOCOL_ICMP [8, 0, 0, 0, 0, 1, 0, 1]"
  let ?st = "sample_stack\<lparr>arp_table := [ip_to_u32 [10, 0, 2, 2] \<mapsto> [2, 0, 0, 0, 0, 9]]\<rparr>"
  let ?pkt = "ip_frame (replicate 6 255) [2, 0, 0, 0, 0, 9] ?p"
  have "ip_wf ?p" by (simp add: ip_wf_new)
  then obtain f q where fq: "eth_parse ?pkt = Inr (Some f)" "ethertype f = ETHERTYPE_IPV4"
      "ip_parse (eth_payload f) = Inr (Some q)" "src_addr q = [10, 0, 2, 2]"
      "dst_addr q = [10, 0, 2, 15]" "protocol q = PROTOCOL_ICMP"
      "ip_payload q = [8, 0, 0, 0, 0, 1, 0, 1] @ replicate 18 0"
    using ip_frame_parses [of "replicate 6 255" "[2, 0, 0, 0, 0, 9]" ?p] by (auto simp: ipv4_new_def)
  have wf: "stack_wf ?st" using sample_stack_wf by (simp add: stack_wf_def)
  have dev: "devices sample_stack = [sample_device]" "dev_tx sample_device = []"
      "arp_table sample_stack = Map.empty" "address (ip_conf sample_stack) = [10, 0, 2, 15]"
    by (simp_all add: sample_stack_def stack_add_device_def new_stack_def sample_device_def
        default_ip_config_def ip_new_def)
  show ?thesis
    using icmp_echo_answered [OF sample_stack_wf dev(1) fq(1-3)]
      icmp_echo_answered [OF wf, of sample_device "[]", OF _ fq(1-3)] fq dev
    by (auto simp: arp_lookup_def)
qed

text \<open>An ARP reply teaches the cache exactly the sender's binding: afterwards the sender's address
  resolves to the hardware address in the packet, every other address resolves as before, and the rest
  of the stack is unchanged.\<close>

theorem arp_reply_learned:
  assumes "stack_wf st" and "eth_parse pkt = Inr (Some f)" and "ethertype f = ETHERTYPE_ARP"
    and "arp_parse (eth_payload f) = Inr (Some a)" and "operation a = ARP_REPLY" and "length ip = 4"
  shows "\<exists>c. process_packet pkt st = Inr (st\<lparr>arp_table := c\<rparr>) \<and>
    arp_lookup c ip = (if ip = sender_proto_addr a then Some (sender_hw_addr a)
                       else arp_lookup (arp_table st) ip)"
proof -
  have "arp_wf a" using assms(4) by (rule arp_parse_wf)
  with assms show ?thesis
    by (auto simp: process_packet_def handle_arp_packet_eq ARP_REQUEST_def ARP_REPLY_def arp_lookup_def
        arp_insert_def ip_to_u32_inj arp_wf_def)
qed

text \<open>C16: An established connection appends the payload of every segment up to and including the first
  one with the FIN flag, in the order of arrival and without looking at the sequence numbers, advances
  the expected sequence number by their length modulo \<open>2\<^sup>3\<^sup>2\<close>, and is in CLOSE-WAIT exactly when
  a FIN has arrived; later segments change nothing.\<close>

theorem tcp_stream_delivery:
  assumes "tcp_state c = Established"
    and "c' = foldl handle_segment c segs"
    and "pre = takeWhile (\<lambda>s. \<not> has_flag s TCP_FLAG_FIN) segs"
    and "taken = concat (map tcp_payload (take (Suc (length pre)) segs))"
  shows "recv_buffer c' = recv_buffer c @ taken \<and> recv_next c' = recv_next c + of_nat (length taken) \<and>
    tcp_state c' = (if pre = segs then Established else CloseWait)"
  using assms
proof (induction segs arbitrary: c pre taken)
  case (Cons seg segs)
  let ?c1 = "handle_segment c seg"
  have buf: "recv_buffer ?c1 = recv_buffer c @ tcp_payload seg"
    "recv_next ?c1 = recv_next c + of_nat (length (tcp_payload seg))"
    "tcp_state ?c1 = (if has_flag seg TCP_FLAG_FIN then CloseWait else Established)"
    using Cons.prems(1) by (simp_all add: handle_segment_def Let_def)
  show ?case
  proof (cases "has_flag seg TCP_FLAG_FIN")
    case True
    with buf have "foldl handle_segment ?c1 segs = ?c1" by (intro handle_segments_closed) simp
    with True buf Cons.prems show ?thesis by simp
  next
    case False
    with buf Cons.prems Cons.IH [of ?c1, OF _ _ refl refl] show ?thesis by simp
  qed
qed simp

theorem tcp_stream_delivery_witness:
  "recv_buffer (foldl handle_segment (tcp_connection_new [10, 0, 2, 15] 80\<lparr>tcp_state := Established\<rparr>)
     (replicate 2 \<lparr>tcp_src_port = 1, tcp_dst_port = 80, sequence = 7, acknowledgment = 0, data_offset = 5,
        tcp_flags = 0, tcp_window = 0, tcp_checksum = 0, urgent_ptr = 0, tcp_payload = [1, 2]\<rparr>)) =
   [1, 2, 1, 2]"
proof -
  let ?s = "\<lparr>tcp_src_port = 1, tcp_dst_port = 80, sequence = 7, acknowledgment = 0, data_offset = 5,
        tcp_flags = 0, tcp_window = 0, tcp_checksum = 0, urgent_ptr = 0, tcp_payload = [1, 2]\<rparr>"
  show ?thesis
    using tcp_stream_delivery [of "tcp_connection_new [10, 0, 2, 15] 80\<lparr>tcp_state := Established\<rparr>" _
        "replicate 2 ?s", OF _ refl refl refl]
    by (simp add: tcp_connection_new_def has_flag_def numeral_2_eq_2)
qed

text \<open>No history of socket operations opens a connection: whatever sockets are created and whatever
  segments and datagrams are delivered, in any order, every socket of the table is still the closed
  connection it was created as, with nothing received.\<close>

theorem tcp_sockets_never_open:
  "\<forall>(h, s) \<in> set (sockets (foldl socket_step new_socket_table ops)). fresh_tcp s"
proof -
  have "\<forall>e\<in>set (sockets (foldl socket_step t ops)). fresh_tcp (snd e)"
    if "\<forall>e\<in>set (sockets t). fresh_tcp (snd e)" for t
    using that
  proof (induction ops arbitrary: t)
    case (Cons oper ops)
    from Cons.IH [OF socket_step_fresh [OF Cons.prems]] show ?case by simp
  qed simp
  from this [of new_socket_table] show ?thesis
    by (auto simp: new_socket_table_def)
qed

end
