(* ===== verification/Disk.thy ===== *)
theory Disk
  imports Prelude
begin

text \<open>
  The disk as the filesystem sees it through \<^verbatim>\<open>drivers::virtio\<close>: sectors of 512 bytes, and
  operations that may fail. Which operations fail is up to the device: the outcome of the
  \<open>n\<close>-th operation is the \<open>n\<close>-th element of an arbitrary sequence, so every pattern of permanent and
  transient failures is a disk. A failed read leaves the buffer alone; the code never looks at it, and it
  is \<^const>\<open>None\<close> here. A write that reports a failure may leave the sector alone or leave anything
  in it, because the driver gives up after five seconds whatever the device is doing: \<open>io_torn\<close> says
  what is there.

  Also the validity of UTF-8 (\<^verbatim>\<open>core::str::from_utf8\<close>), which the filesystem applies to names, and
  little-endian fields.
\<close>

record disk =
  sectors :: "u64 \<Rightarrow> u8 list"
  present :: bool
  io_ok :: "nat \<Rightarrow> bool"
  io_torn :: "nat \<Rightarrow> u8 list option"
  io_count :: nat

definition disk_is_present :: "'a disk_scheme \<Rightarrow> bool" where
  "disk_is_present d = present d"

definition disk_read_sector :: "u64 \<Rightarrow> 'a disk_scheme \<Rightarrow> u8 list option \<times> 'a disk_scheme" where
  "disk_read_sector s d =
     (if present d
      then (if io_ok d (io_count d) then Some (sectors d s) else None, d\<lparr>io_count := Suc (io_count d)\<rparr>)
      else (None, d))"

definition disk_write_sector :: "u64 \<Rightarrow> u8 list \<Rightarrow> 'a disk_scheme \<Rightarrow> bool \<times> 'a disk_scheme" where
  "disk_write_sector s buf d =
     (if present d
      then (if io_ok d (io_count d)
            then (True, d\<lparr>sectors := (sectors d)(s := buf), io_count := Suc (io_count d)\<rparr>)
            else (False, case io_torn d (io_count d) of
                    None \<Rightarrow> d\<lparr>io_count := Suc (io_count d)\<rparr>
                  | Some junk \<Rightarrow> d\<lparr>sectors := (sectors d)(s := junk), io_count := Suc (io_count d)\<rparr>))
      else (False, d))"

text \<open>A device on which nothing fails, and whose sectors have their size.\<close>

definition device_good :: "'a disk_scheme \<Rightarrow> bool" where
  "device_good d \<longleftrightarrow> present d \<and> (\<forall>n. io_ok d n) \<and> (\<forall>s. length (sectors d s) = 512)"

lemma device_read:
  "device_good d \<Longrightarrow> disk_read_sector s d = (Some (sectors d s), d\<lparr>io_count := Suc (io_count d)\<rparr>)"
  by (simp add: device_good_def disk_read_sector_def)

lemma device_write:
  "device_good d \<Longrightarrow> disk_write_sector s buf d =
     (True, d\<lparr>sectors := (sectors d)(s := buf), io_count := Suc (io_count d)\<rparr>)"
  by (simp add: device_good_def disk_write_sector_def)

lemma device_good_count [simp]: "device_good (d\<lparr>io_count := n\<rparr>) = device_good d"
  by (simp add: device_good_def)

lemma device_good_write:
  "device_good d \<Longrightarrow> length buf = 512 \<Longrightarrow> device_good (d\<lparr>sectors := (sectors d)(s := buf)\<rparr>)"
  by (simp add: device_good_def)

lemma device_length: "device_good d \<Longrightarrow> length (sectors d s) = 512"
  by (simp add: device_good_def)

section \<open>UTF-8\<close>

definition utf8_cont :: "u8 \<Rightarrow> bool" where
  "utf8_cont b \<longleftrightarrow> 0x80 \<le> b \<and> b \<le> 0xBF"

fun utf8_valid :: "u8 list \<Rightarrow> bool" where
  "utf8_valid [] = True"
| "utf8_valid (a # bs) =
     (if a < 0x80 then utf8_valid bs
      else case bs of
        [] \<Rightarrow> False
      | b # cs \<Rightarrow>
          if 0xC2 \<le> a \<and> a \<le> 0xDF then utf8_cont b \<and> utf8_valid cs
          else (case cs of
             [] \<Rightarrow> False
           | c # ds \<Rightarrow>
               if a = 0xE0 then 0xA0 \<le> b \<and> b \<le> 0xBF \<and> utf8_cont c \<and> utf8_valid ds
               else if a = 0xED then 0x80 \<le> b \<and> b \<le> 0x9F \<and> utf8_cont c \<and> utf8_valid ds
               else if 0xE1 \<le> a \<and> a \<le> 0xEF then utf8_cont b \<and> utf8_cont c \<and> utf8_valid ds
               else (case ds of
                  [] \<Rightarrow> False
                | e # es \<Rightarrow>
                    if a = 0xF0 then 0x90 \<le> b \<and> b \<le> 0xBF \<and> utf8_cont c \<and> utf8_cont e \<and> utf8_valid es
                    else if 0xF1 \<le> a \<and> a \<le> 0xF3
                    then utf8_cont b \<and> utf8_cont c \<and> utf8_cont e \<and> utf8_valid es
                    else if a = 0xF4
                    then 0x80 \<le> b \<and> b \<le> 0x8F \<and> utf8_cont c \<and> utf8_cont e \<and> utf8_valid es
                    else False)))"

section \<open>Little-endian fields\<close>

definition u16_le :: "u16 \<Rightarrow> u8 list" where
  "u16_le w = map (\<lambda>k. ucast (drop_bit (8 * k) w)) [0..<2]"

definition u32_le :: "u32 \<Rightarrow> u8 list" where
  "u32_le w = map (\<lambda>k. ucast (drop_bit (8 * k) w)) [0..<4]"

definition u64_le :: "u64 \<Rightarrow> u8 list" where
  "u64_le w = map (\<lambda>k. ucast (drop_bit (8 * k) w)) [0..<8]"

fun from_le :: "u8 list \<Rightarrow> 'a::len word" where
  "from_le [] = 0"
| "from_le (b # bs) = ucast b OR push_bit 8 (from_le bs)"

lemma length_le [simp]: "length (u16_le a) = 2" "length (u32_le b) = 4" "length (u64_le c) = 8"
  by (simp_all add: u16_le_def u32_le_def u64_le_def)

text \<open>Reading the low bytes of a word gives the word cut to that many bytes.\<close>

lemma from_le_bytes:
  "from_le (map (\<lambda>k. ucast (drop_bit (8 * k) w)) [0..<n]) = take_bit (8 * n) (w :: 'a::len word)"
proof (induction n arbitrary: w)
  case (Suc n)
  have "map (\<lambda>k. ucast (drop_bit (8 * k) w) :: u8) [0..<Suc n] =
      ucast w # map (\<lambda>k. ucast (drop_bit (8 * k) (drop_bit 8 w))) [0..<n]"
    by (simp add: upt_rec [of 0] map_Suc_upt [symmetric] del: upt_Suc)
      (simp add: drop_bit_drop_bit add.commute)
  moreover have "ucast (ucast w :: u8) OR push_bit 8 (take_bit (8 * n) (drop_bit 8 w)) = take_bit (8 * Suc n) w"
    by (rule bit_word_eqI) (auto simp: bit_simps)
  ultimately show ?case
    using Suc.IH [of "drop_bit 8 w"] by simp
qed simp

lemma from_le_u16 [simp]: "from_le (u16_le w) = w"
  using from_le_bytes [of w 2] by (simp add: u16_le_def take_bit_word_eq_self)

lemma from_le_u32 [simp]: "from_le (u32_le w) = w"
  using from_le_bytes [of w 4] by (simp add: u32_le_def take_bit_word_eq_self)

lemma from_le_u64 [simp]: "from_le (u64_le w) = w"
  using from_le_bytes [of w 8] by (simp add: u64_le_def take_bit_word_eq_self)

end
