(* ===== verification/Fs_Layout.thy ===== *)
theory Fs_Layout
  imports Disk
begin

text \<open>
  The on-disk structures of PsychicFS (\<^verbatim>\<open>kernel/src/fs/psychicfs.rs\<close>): extents, inodes and the
  superblock, and the byte images by which the code moves them to and from sector buffers. The images
  follow the \<^verbatim>\<open>repr(C)\<close> layout, with padding bytes, which no reader looks at, written as zero.

  An \<^verbatim>\<open>Extent\<close> takes twelve bytes, so an \<^verbatim>\<open>Inode\<close> takes 136, not the 120 its comment counts: its last
  eight bytes (\<^verbatim>\<open>dirty\<close> and \<^verbatim>\<open>_reserved\<close>) lie outside the 128 bytes of its slot; a \<^verbatim>\<open>Superblock\<close> takes
  516 bytes, not 512. The conversions to bytes copy the whole structure, so they write eight and four
  bytes past the end of their local buffers. What lies there is up to the compiler: \<open>frame_slack\<close> is the
  number of dead bytes it leaves behind these buffers, and a copy that goes further sets \<open>overrun\<close>,
  after which the program may do anything. Statements about operations that convert have
  \<open>frame_ok\<close> as a hypothesis: at least eight dead bytes, and no overrun before.

  Reading takes the missing bytes from the next slot, and for the last slot of a sector from whatever
  follows the buffer in memory, which is the parameter \<open>past\<close> of the readers.

  The lemmas show that images are read back, and that an inode's extents implement a growing list of
  disk blocks.
\<close>

section \<open>Constants\<close>

definition FS_MAGIC :: u32 where "FS_MAGIC = 0x50535946"
definition FS_VERSION :: u16 where "FS_VERSION = 3"
definition SUPERBLOCK_SECTOR :: u64 where "SUPERBLOCK_SECTOR = 0"
definition INODE_TABLE_START :: u64 where "INODE_TABLE_START = 1"
definition INODE_TABLE_SECTORS :: nat where "INODE_TABLE_SECTORS = 64"
definition BITMAP_SECTOR :: u64 where "BITMAP_SECTOR = 65"
definition DATA_BLOCKS_START :: u32 where "DATA_BLOCKS_START = 128"
definition MAX_FILENAME_LEN :: nat where "MAX_FILENAME_LEN = 48"
definition MAX_FILES :: u32 where "MAX_FILES = 256"
definition BLOCK_SIZE :: nat where "BLOCK_SIZE = 512"
definition INLINE_EXTENTS :: nat where "INLINE_EXTENTS = 4"

lemmas fs_consts = SUPERBLOCK_SECTOR_def INODE_TABLE_START_def INODE_TABLE_SECTORS_def
  BITMAP_SECTOR_def DATA_BLOCKS_START_def MAX_FILENAME_LEN_def BLOCK_SIZE_def INLINE_EXTENTS_def

section \<open>Extents\<close>

record extent =
  logical_block :: u16
  physical_block :: u32
  ext_count :: u16

definition empty_extent :: extent where
  "empty_extent = \<lparr>logical_block = 0, physical_block = 0, ext_count = 0\<rparr>"

definition ext_is_empty :: "extent \<Rightarrow> bool" where
  "ext_is_empty e \<longleftrightarrow> ext_count e = 0"

definition ext_contains :: "extent \<Rightarrow> u16 \<Rightarrow> bool" where
  "ext_contains e l \<longleftrightarrow> \<not> ext_is_empty e \<and> logical_block e \<le> l \<and> l < logical_block e + ext_count e"

definition ext_translate :: "extent \<Rightarrow> u16 \<Rightarrow> u32 option" where
  "ext_translate e l =
     (if ext_contains e l then Some (physical_block e + ucast (l - logical_block e)) else None)"

section \<open>Inodes\<close>

record inode =
  in_use :: u8
  file_type :: u8
  permissions :: u16
  i_size :: u32
  created_time :: u64
  modified_time :: u64
  extents :: "extent list"
  extent_indirect :: u32
  last_extent_idx :: u16
  extent_count :: u16
  i_name :: "u8 list"
  i_dirty :: u8
  i_reserved :: "u8 list"

definition new_inode :: inode where
  "new_inode = \<lparr>in_use = 0, file_type = 0, permissions = 420, i_size = 0, created_time = 0,
     modified_time = 0, extents = replicate INLINE_EXTENTS empty_extent, extent_indirect = 0,
     last_extent_idx = 0, extent_count = 0, i_name = replicate MAX_FILENAME_LEN 0, i_dirty = 0,
     i_reserved = replicate 7 0\<rparr>"

definition get_name :: "inode \<Rightarrow> u8 list" where
  "get_name i = (let s = takeWhile (\<lambda>c. c \<noteq> 0) (i_name i) in if utf8_valid s then s else [])"

definition set_name :: "u8 list \<Rightarrow> inode \<Rightarrow> inode" where
  "set_name name i =
     (let len = min (length name) (MAX_FILENAME_LEN - 1)
      in i\<lparr>i_name := (take len name @ drop len (i_name i))[len := 0]\<rparr>)"

fun first_translation :: "extent list \<Rightarrow> u16 \<Rightarrow> u32 option" where
  "first_translation [] l = None"
| "first_translation (e # es) l = (case ext_translate e l of Some p \<Rightarrow> Some p | None \<Rightarrow> first_translation es l)"

definition get_physical_block :: "inode \<Rightarrow> u16 \<Rightarrow> u32 option" where
  "get_physical_block i l = first_translation (extents i) l"

text \<open>
  \<^verbatim>\<open>add_extent\<close> first extends the last extent when the new blocks follow it on disk, and otherwise
  takes the first unused slot; \<^const>\<open>None\<close> is the result \<^verbatim>\<open>false\<close>.
\<close>

definition add_extent :: "u32 \<Rightarrow> u16 \<Rightarrow> inode \<Rightarrow> inode option" where
  "add_extent start n i =
     (let last_idx = unat (last_extent_idx i); last = extents i ! last_idx in
      if extent_count i \<noteq> 0 \<and> \<not> last_idx < INLINE_EXTENTS then None
      else let logical_start = if extent_count i = 0 then 0 else logical_block last + ext_count last in
        if extent_count i \<noteq> 0 \<and> physical_block last + ucast (ext_count last) = start
        then Some (i\<lparr>extents := (extents i)[last_idx := last\<lparr>ext_count := ext_count last + n\<rparr>]\<rparr>)
        else case List.find (\<lambda>k. ext_is_empty (extents i ! k)) [0..<length (extents i)] of
          None \<Rightarrow> None
        | Some k \<Rightarrow> Some (i\<lparr>extents := (extents i)[k := \<lparr>logical_block = logical_start,
              physical_block = start, ext_count = n\<rparr>],
            last_extent_idx := of_nat k, extent_count := extent_count i + 1\<rparr>))"

definition clear_extents :: "inode \<Rightarrow> inode" where
  "clear_extents i = i\<lparr>extents := map (\<lambda>_. empty_extent) (extents i), extent_indirect := 0,
     last_extent_idx := 0, extent_count := 0\<rparr>"

section \<open>Byte images\<close>

definition extent_image :: "extent \<Rightarrow> u8 list" where
  "extent_image e = u16_le (logical_block e) @ [0, 0] @ u32_le (physical_block e) @
     u16_le (ext_count e) @ [0, 0]"

definition extent_of_image :: "u8 list \<Rightarrow> extent" where
  "extent_of_image b = \<lparr>logical_block = from_le (take 2 b), physical_block = from_le (take 4 (drop 4 b)),
     ext_count = from_le (take 2 (drop 8 b))\<rparr>"

definition inode_image :: "inode \<Rightarrow> u8 list" where
  "inode_image i =
     [in_use i, file_type i] @ u16_le (permissions i) @ u32_le (i_size i) @ u64_le (created_time i) @
     u64_le (modified_time i) @ concat (map extent_image (extents i)) @ u32_le (extent_indirect i) @
     u16_le (last_extent_idx i) @ u16_le (extent_count i) @ i_name i @ [i_dirty i] @ i_reserved i"

text \<open>The disk, and what is behind the local buffers of the conversions.\<close>

record fs_io = disk +
  frame_slack :: nat
  overrun :: bool

text \<open>\<^verbatim>\<open>copy_nonoverlapping\<close> of \<open>bytes\<close> into a local buffer of \<open>n\<close> bytes: the contents of the buffer, and
  whether the copy went beyond the dead bytes behind it.\<close>

definition copy_to_local :: "nat \<Rightarrow> u8 list \<Rightarrow> fs_io \<Rightarrow> u8 list \<times> fs_io" where
  "copy_to_local n bytes d =
     (take n bytes @ replicate (n - length bytes) 0, d\<lparr>overrun := overrun d \<or> n + frame_slack d < length bytes\<rparr>)"

definition inode_to_bytes :: "inode \<Rightarrow> fs_io \<Rightarrow> u8 list \<times> fs_io" where
  "inode_to_bytes i d = copy_to_local 128 (inode_image i) d"

definition bytes_to_inode :: "u8 list \<Rightarrow> inode" where
  "bytes_to_inode b = \<lparr>in_use = b ! 0, file_type = b ! 1, permissions = from_le (take 2 (drop 2 b)),
     i_size = from_le (take 4 (drop 4 b)), created_time = from_le (take 8 (drop 8 b)),
     modified_time = from_le (take 8 (drop 16 b)),
     extents = map (\<lambda>k. extent_of_image (take 12 (drop (24 + 12 * k) b))) [0..<INLINE_EXTENTS],
     extent_indirect = from_le (take 4 (drop 72 b)), last_extent_idx = from_le (take 2 (drop 76 b)),
     extent_count = from_le (take 2 (drop 78 b)), i_name = take 48 (drop 80 b), i_dirty = b ! 128,
     i_reserved = take 7 (drop 129 b)\<rparr>"

record superblock =
  magic :: u32
  fs_version :: u16
  total_blocks :: u32
  free_blocks :: u32
  total_inodes :: u32
  free_inodes :: u32
  first_data_block :: u32
  block_size :: u16
  sb_dirty :: u8
  sb_reserved :: "u8 list"

definition superblock_image :: "superblock \<Rightarrow> u8 list" where
  "superblock_image sb =
     u32_le (magic sb) @ u16_le (fs_version sb) @ [0, 0] @ u32_le (total_blocks sb) @
     u32_le (free_blocks sb) @ u32_le (total_inodes sb) @ u32_le (free_inodes sb) @
     u32_le (first_data_block sb) @ u16_le (block_size sb) @ [sb_dirty sb] @ sb_reserved sb"

definition superblock_to_bytes :: "superblock \<Rightarrow> fs_io \<Rightarrow> u8 list \<times> fs_io" where
  "superblock_to_bytes sb d = copy_to_local 512 (superblock_image sb) d"

definition bytes_to_superblock :: "u8 list \<Rightarrow> superblock" where
  "bytes_to_superblock b = \<lparr>magic = from_le (take 4 b), fs_version = from_le (take 2 (drop 4 b)),
     total_blocks = from_le (take 4 (drop 8 b)), free_blocks = from_le (take 4 (drop 12 b)),
     total_inodes = from_le (take 4 (drop 16 b)), free_inodes = from_le (take 4 (drop 20 b)),
     first_data_block = from_le (take 4 (drop 24 b)), block_size = from_le (take 2 (drop 28 b)),
     sb_dirty = b ! 30, sb_reserved = take 485 (drop 31 b)\<rparr>"

section \<open>Images are read back\<close>

definition inode_wf :: "inode \<Rightarrow> bool" where
  "inode_wf i \<longleftrightarrow> length (extents i) = 4 \<and> length (i_name i) = 48 \<and> length (i_reserved i) = 7"

lemma length_extent_image [simp]: "length (extent_image e) = 12"
  by (simp add: extent_image_def)

lemma extent_image_inverse [simp]: "extent_of_image (extent_image e) = e"
  by (simp add: extent_image_def extent_of_image_def)

lemma length_inode_image: "inode_wf i \<Longrightarrow> length (inode_image i) = 136"
proof -
  have "length (concat (map extent_image es)) = 12 * length es" for es
    by (induction es) simp_all
  then show "inode_wf i \<Longrightarrow> length (inode_image i) = 136"
    by (simp add: inode_image_def inode_wf_def)
qed

text \<open>The bytes that reach the buffers.\<close>

definition inode_bytes :: "inode \<Rightarrow> u8 list" where
  "inode_bytes i = take 128 (inode_image i)"

definition superblock_bytes :: "superblock \<Rightarrow> u8 list" where
  "superblock_bytes sb = take 512 (superblock_image sb)"

lemma length_inode_bytes: "inode_wf i \<Longrightarrow> length (inode_bytes i) = 128"
  by (simp add: inode_bytes_def length_inode_image)

lemma bytes_to_inode_wf: "length b = 136 \<Longrightarrow> inode_wf (bytes_to_inode b)"
  by (simp add: inode_wf_def bytes_to_inode_def INLINE_EXTENTS_def)

lemma list4_exhaust: "length es = 4 \<Longrightarrow> \<exists>a b c d. es = [a, b, c, d]"
  by (auto simp: eval_nat_numeral length_Suc_conv)

lemma bytes_to_inode_image:
  assumes "inode_wf i" and "length rest = 8"
  shows "bytes_to_inode (inode_bytes i @ rest) = i\<lparr>i_dirty := rest ! 0, i_reserved := drop 1 rest\<rparr>"
proof -
  from assms(1) obtain a b c d where es: "extents i = [a, b, c, d]"
    using list4_exhaust unfolding inode_wf_def by blast
  let ?pre = "[in_use i, file_type i] @ u16_le (permissions i) @ u32_le (i_size i) @
    u64_le (created_time i) @ u64_le (modified_time i) @ concat (map extent_image (extents i)) @
    u32_le (extent_indirect i) @ u16_le (last_extent_idx i) @ u16_le (extent_count i) @ i_name i"
  have "length ?pre = 128" using assms(1) es by (simp add: inode_wf_def)
  then have "inode_bytes i = ?pre"
    unfolding inode_bytes_def inode_image_def by simp
  then have *: "inode_bytes i @ rest = ?pre @ rest" by simp
  have "length (i_name i) = 48" using assms(1) by (simp add: inode_wf_def)
  then show ?thesis
    unfolding * using assms(2)
    by (simp add: bytes_to_inode_def es INLINE_EXTENTS_def upt_rec nth_append nth_Cons')
qed

lemma bytes_to_superblock_image:
  assumes "length (sb_reserved sb) = 485" and "length rest = 4"
  shows "bytes_to_superblock (superblock_bytes sb @ rest) =
    sb\<lparr>sb_reserved := take 481 (sb_reserved sb) @ rest\<rparr>"
  using assms
  by (simp add: bytes_to_superblock_def superblock_bytes_def superblock_image_def nth_append)

lemma length_superblock_bytes: "length (sb_reserved sb) = 485 \<Longrightarrow> length (superblock_bytes sb) = 512"
  by (simp add: superblock_bytes_def superblock_image_def)

lemma length_superblock_image: "length (sb_reserved sb) = 485 \<Longrightarrow> length (superblock_image sb) = 516"
  by (simp add: superblock_image_def)

text \<open>What the code needs of the compiler: eight dead bytes behind the buffers of the conversions.\<close>

definition frame_ok :: "fs_io \<Rightarrow> bool" where
  "frame_ok d \<longleftrightarrow> 8 \<le> frame_slack d \<and> \<not> overrun d"

lemma inode_to_bytes_overrun:
  assumes "inode_wf i"
  shows "inode_to_bytes i d = (inode_bytes i, d\<lparr>overrun := overrun d \<or> frame_slack d < 8\<rparr>)"
  using length_inode_image [OF assms] by (simp add: inode_to_bytes_def copy_to_local_def inode_bytes_def)

lemma superblock_to_bytes_overrun:
  assumes "length (sb_reserved sb) = 485"
  shows "superblock_to_bytes sb d = (superblock_bytes sb, d\<lparr>overrun := overrun d \<or> frame_slack d < 4\<rparr>)"
  using length_superblock_image [OF assms] by (simp add: superblock_to_bytes_def copy_to_local_def superblock_bytes_def)

lemma no_overrun: "frame_ok d \<Longrightarrow> n \<le> 8 \<Longrightarrow> d\<lparr>overrun := overrun d \<or> frame_slack d < n\<rparr> = d"
  by (simp add: frame_ok_def)

lemma inode_to_bytes_good: "inode_wf i \<Longrightarrow> frame_ok d \<Longrightarrow> inode_to_bytes i d = (inode_bytes i, d)"
  by (simp add: inode_to_bytes_overrun no_overrun)

lemma superblock_to_bytes_good:
  "length (sb_reserved sb) = 485 \<Longrightarrow> frame_ok d \<Longrightarrow> superblock_to_bytes sb d = (superblock_bytes sb, d)"
  by (simp add: superblock_to_bytes_overrun no_overrun)

text \<open>A disk that does not fail, under a compiler that leaves the room.\<close>

definition disk_good :: "fs_io \<Rightarrow> bool" where
  "disk_good d \<longleftrightarrow> device_good d \<and> frame_ok d"

lemmas disk_good_defs = disk_good_def device_good_def frame_ok_def

lemma disk_read_good:
  "disk_good d \<Longrightarrow> disk_read_sector s d = (Some (sectors d s), d\<lparr>io_count := Suc (io_count d)\<rparr>)"
  by (simp add: disk_good_def device_read)

lemma disk_write_good:
  "disk_good d \<Longrightarrow> disk_write_sector s buf d =
     (True, d\<lparr>sectors := (sectors d)(s := buf), io_count := Suc (io_count d)\<rparr>)"
  by (simp add: disk_good_def device_write)

lemma disk_good_count [simp]: "disk_good (d\<lparr>io_count := n\<rparr>) = disk_good d"
  by (simp add: disk_good_defs)

lemma disk_good_write:
  "disk_good d \<Longrightarrow> length buf = 512 \<Longrightarrow> disk_good (d\<lparr>sectors := (sectors d)(s := buf)\<rparr>)"
  by (simp add: disk_good_defs)

lemma length_sector: "disk_good d \<Longrightarrow> length (sectors d s) = 512"
  by (simp add: disk_good_defs)

lemma disk_present: "disk_good d \<Longrightarrow> present d"
  by (simp add: disk_good_defs)

lemma disk_good_frame: "disk_good d \<Longrightarrow> frame_ok d"
  by (simp add: disk_good_def)

lemma takeWhile_name:
  assumes "length name < 48" and "0 \<notin> set name" and "length old = 48"
  shows "takeWhile (\<lambda>c. c \<noteq> 0) ((name @ drop (length name) old)[length name := 0]) = name"
proof -
  have "drop (length name) old \<noteq> []" using assms by simp
  then have "(name @ drop (length name) old)[length name := 0] = name @ 0 # tl (drop (length name) old)"
    by (cases "drop (length name) old") (simp_all add: list_update_append)
  moreover have "\<And>x. x \<in> set name \<Longrightarrow> x \<noteq> 0" using assms(2) by auto
  ultimately show ?thesis by (simp add: takeWhile_append)
qed

lemma get_set_name:
  assumes "length name < 48" and "0 \<notin> set name" and "utf8_valid name" and "length (i_name i) = 48"
  shows "get_name (set_name name i) = name"
  using assms takeWhile_name [OF assms(1,2,4)]
  by (simp add: get_name_def set_name_def MAX_FILENAME_LEN_def Let_def min_def)

lemma set_name_wf: "inode_wf i \<Longrightarrow> inode_wf (set_name name i)"
  by (simp add: inode_wf_def set_name_def Let_def MAX_FILENAME_LEN_def)

section \<open>Extents implement a list of blocks\<close>

definition ext_blocks :: "extent \<Rightarrow> u32 list" where
  "ext_blocks e = map (\<lambda>k. physical_block e + of_nat k) [0..<unat (ext_count e)]"

fun ext_seq :: "nat \<Rightarrow> extent list \<Rightarrow> bool" where
  "ext_seq s [] = (s < 65536)"
| "ext_seq s (e # es) = (unat (logical_block e) = s \<and> ext_count e \<noteq> 0 \<and> ext_seq (s + unat (ext_count e)) es)"

text \<open>\<open>i\<close> describes the blocks \<open>bl\<close>: the used extents come first and follow each other.\<close>

definition ext_repr :: "inode \<Rightarrow> u32 list \<Rightarrow> bool" where
  "ext_repr i bl \<longleftrightarrow> (\<exists>used. extents i = used @ replicate (4 - length used) empty_extent \<and>
     length used \<le> 4 \<and> ext_seq 0 used \<and> bl = concat (map ext_blocks used) \<and>
     unat (extent_count i) = length used \<and> (used \<noteq> [] \<longrightarrow> unat (last_extent_idx i) = length used - 1))"

lemma length_ext_blocks [simp]: "length (ext_blocks e) = unat (ext_count e)"
  by (simp add: ext_blocks_def)

lemma ext_seq_bound: "ext_seq s es \<Longrightarrow> s + length (concat (map ext_blocks es)) < 65536"
  by (induction s es rule: ext_seq.induct) auto

lemma ext_seq_append:
  "ext_seq s (es @ fs) \<longleftrightarrow> ext_seq s es \<and> ext_seq (s + length (concat (map ext_blocks es))) fs"
proof (induction s es rule: ext_seq.induct)
  case (1 s)
  then show ?case using ext_seq_bound [of s fs] by auto
qed (auto simp: add.assoc)

lemma ext_translate_seq:
  assumes "ext_seq s (e # es)" and "s \<le> unat l"
  shows "ext_translate e l =
    (if unat l < s + unat (ext_count e) then Some (ext_blocks e ! (unat l - s)) else None)"
proof -
  have end_ok: "s + unat (ext_count e) < 65536"
    using ext_seq_bound [OF assms(1)] by simp
  have lb: "unat (logical_block e) = s" "ext_count e \<noteq> 0" using assms(1) by simp_all
  have "unat (logical_block e + ext_count e) = s + unat (ext_count e)"
    using end_ok lb by (simp add: unat_word_ariths)
  then have "ext_contains e l \<longleftrightarrow> unat l < s + unat (ext_count e)"
    using lb assms(2) by (simp add: ext_contains_def ext_is_empty_def word_le_nat_alt word_less_nat_alt)
  moreover have "unat (l - logical_block e) = unat l - s"
    using assms(2) lb by (simp add: unat_sub word_le_nat_alt)
  then have "ucast (l - logical_block e) = (of_nat (unat l - s) :: u32)"
    by (metis of_nat_unat)
  ultimately show ?thesis
    using assms(2) by (auto simp: ext_translate_def ext_blocks_def)
qed

lemma ext_translate_empty: "ext_translate empty_extent l = None"
  by (simp add: ext_translate_def ext_contains_def ext_is_empty_def empty_extent_def)

lemma first_translation_empty: "first_translation (replicate n empty_extent) l = None"
  by (induction n) (simp_all add: ext_translate_empty)

lemma first_translation_seq:
  assumes "ext_seq s es" and "s \<le> unat l"
  shows "first_translation (es @ replicate n empty_extent) l =
    (if unat l - s < length (concat (map ext_blocks es))
     then Some (concat (map ext_blocks es) ! (unat l - s)) else None)"
  using assms
proof (induction s es rule: ext_seq.induct)
  case (2 s e es)
  show ?case
  proof (cases "unat l < s + unat (ext_count e)")
    case True
    with 2 have "unat l - s < unat (ext_count e)" by linarith
    with True 2 ext_translate_seq [of s e es l] show ?thesis
      by (simp add: nth_append)
  next
    case False
    then have "\<not> unat l - s < unat (ext_count e)" by linarith
    with False 2 ext_translate_seq [of s e es l] show ?thesis
      by (auto simp: nth_append)
  qed
qed (simp add: first_translation_empty)

lemma get_physical_block_repr:
  "ext_repr i bl \<Longrightarrow> get_physical_block i l = (if unat l < length bl then Some (bl ! unat l) else None)"
proof -
  assume "ext_repr i bl"
  then obtain used where "extents i = used @ replicate (4 - length used) empty_extent" "ext_seq 0 used"
      "bl = concat (map ext_blocks used)"
    unfolding ext_repr_def by blast
  then show ?thesis
    using first_translation_seq [of 0 used l] by (simp add: get_physical_block_def)
qed

lemma ext_repr_clear: "length (extents i) = 4 \<Longrightarrow> ext_repr (clear_extents i) []"
  unfolding ext_repr_def by (intro exI [of _ "[]"]) (simp add: clear_extents_def map_replicate_const)

text \<open>The blocks of a new extent, and what \<^verbatim>\<open>add_extent\<close> makes of them.\<close>

definition block_range :: "u32 \<Rightarrow> u16 \<Rightarrow> u32 list" where
  "block_range start n = map (\<lambda>k. start + of_nat k) [0..<unat n]"

lemma length_block_range [simp]: "length (block_range start n) = unat n"
  by (simp add: block_range_def)

lemma block_range_split:
  assumes "unat a + unat b < 65536" and "start' = start + ucast a"
  shows "block_range start (a + b) = block_range start a @ block_range start' b"
proof -
  have ab: "unat (a + b) = unat a + unat b" using assms(1) by (simp add: unat_word_ariths)
  have "start' = start + of_nat (unat a)" by (simp add: assms(2) of_nat_unat)
  moreover have "[0..<unat a + unat b] = [0..<unat a] @ map (\<lambda>k. k + unat a) [0..<unat b]"
    by (simp add: map_add_upt upt_add_eq_append [of 0] add.commute)
  ultimately show ?thesis
    unfolding block_range_def ab by (simp add: o_def ac_simps)
qed

lemma ext_blocks_range: "ext_blocks e = block_range (physical_block e) (ext_count e)"
  by (simp add: ext_blocks_def block_range_def)

lemma find_first_empty:
  assumes "\<forall>e\<in>set used. ext_count e \<noteq> 0" and "length used \<le> 4"
  shows "List.find (\<lambda>k. ext_is_empty ((used @ replicate (4 - length used) empty_extent) ! k))
      [0..<length (used @ replicate (4 - length used) empty_extent)] =
    (if length used < 4 then Some (length used) else None)"
proof (cases "length used < 4")
  case True
  then have "List.find (\<lambda>k. ext_is_empty ((used @ replicate (4 - length used) empty_extent) ! k)) [0..<4] =
      Some (length used)"
    using assms(1)
    by (auto simp: find_Some_iff nth_append ext_is_empty_def empty_extent_def intro!: exI [of _ "length used"])
  with True show ?thesis by simp
next
  case False
  with assms have "length used = 4" by simp
  with assms(1) show ?thesis
    by (auto simp: find_None_iff nth_append ext_is_empty_def)
qed

lemma ext_seq_nonzero: "ext_seq s es \<Longrightarrow> \<forall>e\<in>set es. ext_count e \<noteq> 0"
  by (induction s es rule: ext_seq.induct) auto

lemma unat_ucast_u16_u32: "unat (ucast (n :: u16) :: u32) = unat n"
  using unsigned_less [of n, where 'a = nat] by (simp add: unsigned_ucast_eq take_bit_nat_eq_self)

lemma add_extent_new_slot:
  assumes "extents i = used @ replicate (4 - length used) empty_extent" and "length used < 4"
    and "ext_seq 0 used" and "unat (extent_count i) = length used" and "n \<noteq> 0"
    and "unat l = length (concat (map ext_blocks used))" and "unat l + unat n < 65536"
  shows "ext_repr (i\<lparr>extents := (extents i)[length used := \<lparr>logical_block = l, physical_block = start,
        ext_count = n\<rparr>], last_extent_idx := of_nat (length used), extent_count := extent_count i + 1\<rparr>)
      (concat (map ext_blocks used) @ block_range start n)"
proof -
  let ?e = "\<lparr>logical_block = l, physical_block = start, ext_count = n\<rparr>"
  have upd: "(extents i)[length used := ?e] = (used @ [?e]) @ replicate (4 - length (used @ [?e])) empty_extent"
    using assms(2) unfolding assms(1)
    by (cases "4 - length used") (simp_all add: list_update_append Suc_diff_Suc)
  have "unat (extent_count i + 1) = length used + 1"
    using assms(2,4) by (simp add: unat_word_ariths)
  moreover have "unat (of_nat (length used) :: u16) = length used"
    using assms(2) by (intro unat_of_nat_small) simp
  ultimately show ?thesis
    unfolding ext_repr_def
    by (intro exI [of _ "used @ [?e]"])
      (use assms upd in \<open>simp add: ext_seq_append ext_blocks_range\<close>)
qed

lemma add_extent_in_place:
  assumes "extents i = us @ e # replicate (3 - length us) empty_extent" and "length us < 4"
    and "ext_seq 0 us" and "unat (logical_block e) = length (concat (map ext_blocks us))"
    and "ext_count e \<noteq> 0" and "unat (extent_count i) = Suc (length us)"
    and "unat (last_extent_idx i) = length us" and "n \<noteq> 0"
    and "length (concat (map ext_blocks us)) + unat (ext_count e) + unat n < 65536"
    and "physical_block e + ucast (ext_count e) = start"
  shows "ext_repr (i\<lparr>extents := (extents i)[length us := e\<lparr>ext_count := ext_count e + n\<rparr>]\<rparr>)
    ((concat (map ext_blocks us) @ ext_blocks e) @ block_range start n)"
proof -
  let ?e = "e\<lparr>ext_count := ext_count e + n\<rparr>"
  have cnt: "unat (ext_count e + n) = unat (ext_count e) + unat n"
    using assms(9) by (simp add: unat_word_ariths)
  have "unat n \<noteq> 0" using assms(8) by (simp add: unat_eq_0)
  then have "ext_count e + n \<noteq> 0" using cnt by (metis add_is_0 unat_eq_0)
  then have "ext_seq 0 (us @ [?e])"
    using assms cnt by (simp add: ext_seq_append)
  moreover have "ext_blocks ?e = ext_blocks e @ block_range start n"
    using block_range_split [of "ext_count e" n start "physical_block e"] assms(9,10)
    by (simp add: ext_blocks_range)
  moreover have "(extents i)[length us := ?e] = (us @ [?e]) @ replicate (4 - length (us @ [?e])) empty_extent"
    using assms(1,2) by simp
  ultimately show ?thesis
    unfolding ext_repr_def
    by (intro exI [of _ "us @ [?e]"]) (use assms in simp)
qed

lemma add_extent_repr:
  assumes repr: "ext_repr i bl" and n: "n \<noteq> 0" and room: "length bl + unat n < 65536"
    and add: "add_extent start n i = Some i'"
  shows "ext_repr i' (bl @ block_range start n)"
proof -
  obtain used where u: "extents i = used @ replicate (4 - length used) empty_extent" "length used \<le> 4"
      "ext_seq 0 used" "bl = concat (map ext_blocks used)" "unat (extent_count i) = length used"
      "used \<noteq> [] \<Longrightarrow> unat (last_extent_idx i) = length used - 1"
    using repr unfolding ext_repr_def by blast
  have ec: "extent_count i = 0 \<longleftrightarrow> used = []" using u(5) by (metis length_0_conv unat_eq_0)
  note find = find_first_empty [OF ext_seq_nonzero [OF u(3)] u(2)]
  show ?thesis
  proof (cases used rule: rev_cases)
    case Nil
    with add ec u find have "i' = i\<lparr>extents := (extents i)[length used := \<lparr>logical_block = 0,
        physical_block = start, ext_count = n\<rparr>], last_extent_idx := of_nat (length used),
        extent_count := extent_count i + 1\<rparr>"
      by (simp add: add_extent_def Let_def)
    with add_extent_new_slot [OF u(1) _ u(3,5) n, of 0 start] Nil u(4) room show ?thesis by simp
  next
    case (snoc us e)
    have idx: "unat (last_extent_idx i) = length us" using u(6) snoc by simp
    have nth: "extents i ! length us = e" using u(1) snoc by (simp add: nth_append)
    have seq: "ext_seq 0 us" "unat (logical_block e) = length (concat (map ext_blocks us))" "ext_count e \<noteq> 0"
      using u(3) snoc by (simp_all add: ext_seq_append)
    have bl: "bl = concat (map ext_blocks us) @ ext_blocks e" using u(4) snoc by simp
    have lsum: "unat (logical_block e + ext_count e) = length bl"
      using room seq(2) bl by (simp add: unat_word_ariths)
    have len: "length us < 4" "extent_count i \<noteq> 0" using u(2) ec snoc by simp_all
    show ?thesis
    proof (cases "physical_block e + ucast (ext_count e) = start")
      case True
      then have i': "i' = i\<lparr>extents := (extents i)[length us := e\<lparr>ext_count := ext_count e + n\<rparr>]\<rparr>"
        using add idx nth len by (auto simp: add_extent_def Let_def INLINE_EXTENTS_def)
      from True show ?thesis
        using add_extent_in_place [OF _ len(1) seq] u(1,5) snoc idx n room i' bl by simp
    next
      case False
      with add idx nth len find u(1) have "length used < 4"
        "i' = i\<lparr>extents := (extents i)[length used := \<lparr>logical_block = logical_block e + ext_count e,
          physical_block = start, ext_count = n\<rparr>], last_extent_idx := of_nat (length used),
          extent_count := extent_count i + 1\<rparr>"
        by (auto simp: add_extent_def Let_def INLINE_EXTENTS_def split: if_splits)
      with add_extent_new_slot [OF u(1) _ u(3,5) n, of "logical_block e + ext_count e" start] u(4) lsum room
      show ?thesis by simp
    qed
  qed
qed

end
