(* ===== verification/Psychicfs.thy ===== *)
theory Psychicfs
  imports Fs_Layout
begin

text \<open>
  PsychicFS (\<^verbatim>\<open>kernel/src/fs/psychicfs.rs\<close>): mounting and synchronisation, the block bitmap, the inode
  table and the file operations. The state is the disk, the global \<^verbatim>\<open>PSYCHIC_FS\<close> (absent before
  mounting) and the clock; the block cache and the access patterns, which no file operation uses, are
  in their own theory. The disk is an \<open>fs_io\<close>, which also records whether a conversion has written
  past its buffer. Every operation returns its result with the new state; messages on the serial
  line are left out. The bytes \<open>past\<close> are what follows a sector buffer in memory (see the layout
  theory).

  The lemmas describe every operation on a disk that does not fail: the inode table as a map from
  numbers to inodes, the bitmap as a set of blocks, and what file contents a read returns.
\<close>

record psychicfs =
  mounted :: bool
  superblock :: superblock
  block_bitmap :: "u8 list"
  bitmap_dirty :: bool
  superblock_dirty :: bool

record fs_world =
  fs_disk :: fs_io
  psychic :: "psychicfs option"
  ticks :: u64

definition zero_superblock :: superblock where
  "zero_superblock = \<lparr>magic = 0, fs_version = 0, total_blocks = 0, free_blocks = 0, total_inodes = 0,
     free_inodes = 0, first_data_block = 0, block_size = 0, sb_dirty = 0, sb_reserved = replicate 485 0\<rparr>"

definition new_psychicfs :: psychicfs where
  "new_psychicfs = \<lparr>mounted = False, superblock = zero_superblock, block_bitmap = replicate 1024 0,
     bitmap_dirty = False, superblock_dirty = False\<rparr>"

section \<open>Synchronisation\<close>

definition mark_dirty :: "psychicfs \<Rightarrow> psychicfs" where
  "mark_dirty p = p\<lparr>bitmap_dirty := True, superblock_dirty := True\<rparr>"

definition write_bitmap_to_disk :: "psychicfs \<Rightarrow> fs_io \<Rightarrow> bool \<times> fs_io" where
  "write_bitmap_to_disk p d =
     (case disk_write_sector BITMAP_SECTOR (take 512 (block_bitmap p)) d of
        (ok, d1) \<Rightarrow> if \<not> ok then (False, d1)
                    else disk_write_sector (BITMAP_SECTOR + 1) (take 512 (drop 512 (block_bitmap p))) d1)"

definition read_bitmap_from_disk :: "psychicfs \<Rightarrow> fs_io \<Rightarrow> bool \<times> psychicfs \<times> fs_io" where
  "read_bitmap_from_disk p d =
     (case disk_read_sector BITMAP_SECTOR d of
        (None, d1) \<Rightarrow> (False, p, d1)
      | (Some s1, d1) \<Rightarrow>
          (let p1 = p\<lparr>block_bitmap := s1 @ drop 512 (block_bitmap p)\<rparr>
           in case disk_read_sector (BITMAP_SECTOR + 1) d1 of
                (None, d2) \<Rightarrow> (False, p1, d2)
              | (Some s2, d2) \<Rightarrow> (True, p1\<lparr>block_bitmap := take 512 (block_bitmap p1) @ s2\<rparr>, d2)))"

definition sync_bitmap :: "psychicfs \<Rightarrow> fs_io \<Rightarrow> bool \<times> psychicfs \<times> fs_io" where
  "sync_bitmap p d =
     (if bitmap_dirty p
      then case write_bitmap_to_disk p d of
             (ok, d1) \<Rightarrow> if ok then (True, p\<lparr>bitmap_dirty := False\<rparr>, d1) else (False, p, d1)
      else (True, p, d))"

definition sync_superblock :: "psychicfs \<Rightarrow> fs_io \<Rightarrow> bool \<times> psychicfs \<times> fs_io" where
  "sync_superblock p d =
     (if superblock_dirty p
      then let p1 = p\<lparr>superblock := (superblock p)\<lparr>sb_dirty := 0\<rparr>\<rparr>
           in case superblock_to_bytes (superblock p1) d of (bytes, d0) \<Rightarrow>
                (case disk_write_sector SUPERBLOCK_SECTOR bytes d0 of
                   (ok, d1) \<Rightarrow> if ok then (True, p1\<lparr>superblock_dirty := False\<rparr>, d1) else (False, p1, d1))
      else (True, p, d))"

definition sync :: "psychicfs \<Rightarrow> fs_io \<Rightarrow> bool \<times> psychicfs \<times> fs_io" where
  "sync p d =
     (if \<not> mounted p then (True, p, d)
      else case sync_bitmap p d of (ok1, p1, d1) \<Rightarrow>
           (case sync_superblock p1 d1 of (ok2, p2, d2) \<Rightarrow> (ok1 \<and> ok2, p2, d2)))"

definition fs_sync :: "fs_world \<Rightarrow> fs_world" where
  "fs_sync w =
     (case psychic w of
        None \<Rightarrow> w
      | Some p \<Rightarrow> (case sync p (fs_disk w) of (ok, p', d') \<Rightarrow> w\<lparr>psychic := Some p', fs_disk := d'\<rparr>))"

section \<open>Blocks\<close>

definition is_block_allocated :: "psychicfs \<Rightarrow> u32 \<Rightarrow> bool" where
  "is_block_allocated p b =
     (if b < DATA_BLOCKS_START then True
      else let idx = unat (b - DATA_BLOCKS_START); byte_idx = idx div 8; bit_idx = idx mod 8
           in if 1024 \<le> byte_idx then True
              else block_bitmap p ! byte_idx AND push_bit bit_idx 1 \<noteq> 0)"

definition count_free_blocks :: "psychicfs \<Rightarrow> u32" where
  "count_free_blocks p = of_nat (length (filter
     (\<lambda>i. block_bitmap p ! (i div 8) AND push_bit (i mod 8) 1 = 0)
     [0..<min (8192 - unat DATA_BLOCKS_START) (1024 * 8)]))"

definition allocate_block :: "fs_world \<Rightarrow> u32 option \<times> fs_world" where
  "allocate_block w =
     (case psychic w of
        None \<Rightarrow> (None, w)
      | Some p \<Rightarrow>
          (case List.find (\<lambda>i. block_bitmap p ! (i div 8) AND push_bit (i mod 8) 1 = 0)
                  [0..<min (8192 - unat DATA_BLOCKS_START) (1024 * 8)] of
             None \<Rightarrow> (None, w)
           | Some i \<Rightarrow>
               (let sb = superblock p;
                    p1 = p\<lparr>block_bitmap := bm_set (block_bitmap p) i,
                           superblock := sb\<lparr>free_blocks := if 0 < free_blocks sb then free_blocks sb - 1
                                                            else free_blocks sb\<rparr>\<rparr>
                in case sync (mark_dirty p1) (fs_disk w) of
                     (ok, p2, d') \<Rightarrow>
                       if \<not> ok
                       then (None, w\<lparr>fs_disk := d', psychic := Some (p2\<lparr>
                               block_bitmap := bm_clear (block_bitmap p2) i,
                               superblock := (superblock p2)\<lparr>free_blocks := free_blocks (superblock p2) + 1\<rparr>\<rparr>)\<rparr>)
                       else (Some (DATA_BLOCKS_START + of_nat i),
                             w\<lparr>fs_disk := d', psychic := Some p2\<rparr>))))"

definition free_block :: "u32 \<Rightarrow> fs_world \<Rightarrow> fs_world" where
  "free_block b w =
     (case psychic w of
        None \<Rightarrow> w
      | Some p \<Rightarrow>
          if b < DATA_BLOCKS_START then w
          else let idx = unat (b - DATA_BLOCKS_START)
               in if idx div 8 < 1024
                  then if block_bitmap p ! (idx div 8) AND push_bit (idx mod 8) 1 = 0 then w
                       else let p1 = p\<lparr>block_bitmap := bm_clear (block_bitmap p) idx,
                                       superblock := (superblock p)\<lparr>free_blocks := free_blocks (superblock p) + 1\<rparr>\<rparr>
                            in case sync (mark_dirty p1) (fs_disk w) of
                                 (ok, p2, d') \<Rightarrow> w\<lparr>fs_disk := d', psychic := Some p2\<rparr>
                  else w)"

definition free_block_range :: "u32 \<Rightarrow> u16 \<Rightarrow> fs_world \<Rightarrow> fs_world" where
  "free_block_range start n w = fold (\<lambda>i. free_block (start + of_nat i)) [0..<unat n] w"

text \<open>The scan of \<^verbatim>\<open>find_contiguous_blocks\<close>: the start and length of the current run of free blocks.\<close>

fun find_run :: "psychicfs \<Rightarrow> nat \<Rightarrow> u32 \<Rightarrow> nat \<Rightarrow> u32 list \<Rightarrow> u32 option" where
  "find_run p n run_start run_len [] = None"
| "find_run p n run_start run_len (b # bs) =
     (if \<not> is_block_allocated p b
      then let s = if run_len = 0 then b else run_start
           in if n \<le> run_len + 1 then Some s else find_run p n s (run_len + 1) bs
      else find_run p n run_start 0 bs)"

definition data_blocks :: "psychicfs \<Rightarrow> u32 list" where
  "data_blocks p = map of_nat [unat DATA_BLOCKS_START..<unat (total_blocks (superblock p))]"

definition find_contiguous_blocks :: "nat \<Rightarrow> fs_world \<Rightarrow> u32 option" where
  "find_contiguous_blocks n w =
     (case psychic w of
        None \<Rightarrow> None
      | Some p \<Rightarrow>
          if total_blocks (superblock p) \<le> DATA_BLOCKS_START then None
          else (case find_run p n 0 0 (data_blocks p) of
                  Some s \<Rightarrow> Some s
                | None \<Rightarrow> if n = 1 then List.find (\<lambda>b. \<not> is_block_allocated p b) (data_blocks p) else None))"

definition mark_block :: "u32 \<Rightarrow> psychicfs \<Rightarrow> psychicfs" where
  "mark_block b p =
     (if unat b div 8 < length (block_bitmap p)
      then p\<lparr>block_bitmap := bm_set (block_bitmap p) (unat b)\<rparr> else p)"

definition allocate_contiguous_blocks :: "u32 \<Rightarrow> u16 \<Rightarrow> fs_world \<Rightarrow> bool \<times> fs_world" where
  "allocate_contiguous_blocks start n w =
     (case psychic w of
        None \<Rightarrow> (False, w)
      | Some p \<Rightarrow>
          (let p1 = fold (\<lambda>i. mark_block (start + of_nat i)) [0..<unat n] p;
               fb = free_blocks (superblock p1)
           in (True, w\<lparr>psychic := Some (p1\<lparr>superblock := (superblock p1)\<lparr>free_blocks :=
                         if fb < ucast n then 0 else fb - ucast n\<rparr>\<rparr>)\<rparr>)))"

section \<open>Formatting and mounting\<close>

definition format_superblock :: superblock where
  "format_superblock = \<lparr>magic = FS_MAGIC, fs_version = FS_VERSION, total_blocks = 8192,
     free_blocks = 8192 - DATA_BLOCKS_START, total_inodes = MAX_FILES, free_inodes = MAX_FILES,
     first_data_block = DATA_BLOCKS_START, block_size = of_nat BLOCK_SIZE, sb_dirty = 0,
     sb_reserved = replicate 485 0\<rparr>"

fun write_zero_sectors :: "u64 list \<Rightarrow> fs_io \<Rightarrow> bool \<times> fs_io" where
  "write_zero_sectors [] d = (True, d)"
| "write_zero_sectors (s # ss) d =
     (case disk_write_sector s (replicate 512 0) d of
        (ok, d1) \<Rightarrow> if ok then write_zero_sectors ss d1 else (False, d1))"

definition fs_format :: "fs_world \<Rightarrow> bool \<times> fs_world" where
  "fs_format w =
     (if \<not> disk_is_present (fs_disk w) then (False, w)
      else case superblock_to_bytes format_superblock (fs_disk w) of (bytes, d0) \<Rightarrow>
        case disk_write_sector SUPERBLOCK_SECTOR bytes d0 of
        (ok, d1) \<Rightarrow>
          if \<not> ok then (False, w\<lparr>fs_disk := d1\<rparr>)
          else case write_zero_sectors
                  (map (\<lambda>i. INODE_TABLE_START + of_nat i) [0..<INODE_TABLE_SECTORS] @
                   [BITMAP_SECTOR, BITMAP_SECTOR + 1]) d1 of
                 (ok2, d2) \<Rightarrow> (ok2, w\<lparr>fs_disk := d2\<rparr>))"

definition fs_mount :: "u8 list \<Rightarrow> fs_world \<Rightarrow> bool \<times> fs_world" where
  "fs_mount past w =
     (if \<not> disk_is_present (fs_disk w) then (False, w)
      else case disk_read_sector SUPERBLOCK_SECTOR (fs_disk w) of
        (None, d1) \<Rightarrow> (False, w\<lparr>fs_disk := d1\<rparr>)
      | (Some buf, d1) \<Rightarrow>
          (let sb = bytes_to_superblock (buf @ take 4 past)
           in if magic sb \<noteq> FS_MAGIC then (False, w\<lparr>fs_disk := d1\<rparr>)
              else case read_bitmap_from_disk new_psychicfs d1 of
                (ok, p, d2) \<Rightarrow>
                  if \<not> ok then (False, w\<lparr>fs_disk := d2\<rparr>)
                  else (True, w\<lparr>fs_disk := d2, psychic := Some (p\<lparr>superblock := sb\<lparr>sb_dirty := 1\<rparr>,
                          mounted := True, superblock_dirty := True\<rparr>)\<rparr>)))"

definition fs_unmount :: "fs_world \<Rightarrow> fs_world" where
  "fs_unmount w = (fs_sync w)\<lparr>psychic := None\<rparr>"

section \<open>The inode table\<close>

text \<open>The inode in slot \<open>i\<close> of a sector buffer.\<close>

definition buffer_inode :: "u8 list \<Rightarrow> u8 list \<Rightarrow> nat \<Rightarrow> inode" where
  "buffer_inode past buf i = bytes_to_inode (take 136 (drop (i * 128) (buf @ past)))"

fun find_in_sectors :: "u8 list \<Rightarrow> u8 list \<Rightarrow> nat list \<Rightarrow> fs_io \<Rightarrow> (u32 \<times> inode) option \<times> fs_io" where
  "find_in_sectors past name [] d = (None, d)"
| "find_in_sectors past name (sector # ss) d =
     (case disk_read_sector (INODE_TABLE_START + of_nat sector) d of
        (None, d1) \<Rightarrow> find_in_sectors past name ss d1
      | (Some buf, d1) \<Rightarrow>
          (case List.find (\<lambda>i. in_use (buffer_inode past buf i) \<noteq> 0 \<and>
                               get_name (buffer_inode past buf i) = name) [0..<4] of
             Some i \<Rightarrow> (Some (of_nat (sector * 4 + i), buffer_inode past buf i), d1)
           | None \<Rightarrow> find_in_sectors past name ss d1))"

definition find_inode_by_name :: "u8 list \<Rightarrow> u8 list \<Rightarrow> fs_world \<Rightarrow> (u32 \<times> inode) option \<times> fs_world" where
  "find_inode_by_name past name w =
     (case find_in_sectors past name [0..<INODE_TABLE_SECTORS] (fs_disk w) of
        (r, d) \<Rightarrow> (r, w\<lparr>fs_disk := d\<rparr>))"

fun free_in_sectors :: "u8 list \<Rightarrow> nat list \<Rightarrow> fs_io \<Rightarrow> u32 option \<times> fs_io" where
  "free_in_sectors past [] d = (None, d)"
| "free_in_sectors past (sector # ss) d =
     (case disk_read_sector (INODE_TABLE_START + of_nat sector) d of
        (None, d1) \<Rightarrow> free_in_sectors past ss d1
      | (Some buf, d1) \<Rightarrow>
          (case List.find (\<lambda>i. in_use (buffer_inode past buf i) = 0) [0..<4] of
             Some i \<Rightarrow> (Some (of_nat (sector * 4 + i)), d1)
           | None \<Rightarrow> free_in_sectors past ss d1))"

definition find_free_inode :: "u8 list \<Rightarrow> fs_world \<Rightarrow> u32 option \<times> fs_world" where
  "find_free_inode past w =
     (case free_in_sectors past [0..<INODE_TABLE_SECTORS] (fs_disk w) of (r, d) \<Rightarrow> (r, w\<lparr>fs_disk := d\<rparr>))"

definition write_inode :: "u8 list \<Rightarrow> u32 \<Rightarrow> inode \<Rightarrow> fs_world \<Rightarrow> bool \<times> fs_world" where
  "write_inode past inode_num i w =
     (let sector = INODE_TABLE_START + ucast (inode_num div 4);
          offset = unat (inode_num mod 4) * 128
      in case disk_read_sector sector (fs_disk w) of
           (None, d1) \<Rightarrow> (False, w\<lparr>fs_disk := d1\<rparr>)
         | (Some buf, d1) \<Rightarrow>
             (case inode_to_bytes i d1 of (bytes, d1') \<Rightarrow>
              case disk_write_sector sector (take offset buf @ bytes @ drop (offset + 128) buf) d1' of
                (ok, d2) \<Rightarrow>
                  if \<not> ok then (False, w\<lparr>fs_disk := d2\<rparr>)
                  else (case disk_read_sector sector d2 of
                          (None, d3) \<Rightarrow> (False, w\<lparr>fs_disk := d3\<rparr>)
                        | (Some verify, d3) \<Rightarrow>
                            (in_use (buffer_inode past verify (unat (inode_num mod 4))) = in_use i,
                             w\<lparr>fs_disk := d3\<rparr>))))"

section \<open>File operations\<close>

definition fs_create :: "u8 list \<Rightarrow> u8 list \<Rightarrow> fs_world \<Rightarrow> bool \<times> fs_world" where
  "fs_create past name w =
     (if MAX_FILENAME_LEN \<le> length name then (False, w)
      else case find_inode_by_name past name w of (r, w1) \<Rightarrow>
        if r \<noteq> None then (False, w1)
        else case find_free_inode past w1 of
          (None, w2) \<Rightarrow> (False, w2)
        | (Some n, w2) \<Rightarrow>
            write_inode past n (set_name name (new_inode\<lparr>in_use := 1\<rparr>)
              \<lparr>created_time := ticks w2, modified_time := ticks w2\<rparr>) w2)"

text \<open>
  The allocation loop of \<^verbatim>\<open>fs_write\<close>: \<open>done\<close> blocks of \<open>needed\<close> are in the inode. A failure
  returns with the world as it is by then.
\<close>

function allocate_loop :: "nat \<Rightarrow> nat \<Rightarrow> inode \<Rightarrow> fs_world \<Rightarrow> inode option \<times> fs_world" where
  "allocate_loop needed allocated i w =
     (if \<not> allocated < needed then (Some i, w)
      else let chunk = min (needed - allocated) 65535 in
        case find_contiguous_blocks chunk w of
          Some start \<Rightarrow>
            (let w1 = snd (allocate_contiguous_blocks start (of_nat chunk) w)
             in case add_extent start (of_nat chunk) i of
                  None \<Rightarrow> (None, w1)
                | Some i1 \<Rightarrow> allocate_loop needed (allocated + chunk) i1 w1)
        | None \<Rightarrow>
            if 1 < chunk then
              (case find_contiguous_blocks 1 w of
                 Some start \<Rightarrow>
                   (let w1 = snd (allocate_contiguous_blocks start 1 w)
                    in case add_extent start 1 i of
                         None \<Rightarrow> (None, w1)
                       | Some i1 \<Rightarrow> allocate_loop needed (allocated + 1) i1 w1)
               | None \<Rightarrow> (None, w))
            else (None, w))"
  by pat_completeness auto
termination
  by (relation "measure (\<lambda>(needed, allocated, i, w). needed - allocated)") auto

fun write_blocks :: "inode \<Rightarrow> u8 list \<Rightarrow> nat list \<Rightarrow> fs_world \<Rightarrow> bool \<times> fs_world" where
  "write_blocks i dat [] w = (True, w)"
| "write_blocks i dat (l # ls) w =
     (case get_physical_block i (of_nat l) of
        None \<Rightarrow> (False, w)
      | Some b \<Rightarrow>
          (let start = l * BLOCK_SIZE;
               end = min (start + BLOCK_SIZE) (length dat);
               buf = take (end - start) (drop start dat) @ replicate (512 - (end - start)) 0
           in case disk_write_sector (ucast b) buf (fs_disk w) of
                (ok, d1) \<Rightarrow>
                  if ok then write_blocks i dat ls (w\<lparr>fs_disk := d1\<rparr>) else (False, w\<lparr>fs_disk := d1\<rparr>)))"

definition free_extents :: "inode \<Rightarrow> fs_world \<Rightarrow> fs_world" where
  "free_extents i w =
     fold (\<lambda>e w. if ext_is_empty e then w else free_block_range (physical_block e) (ext_count e) w)
       (extents i) w"

definition blocks_for :: "nat \<Rightarrow> nat" where
  "blocks_for n = (n + BLOCK_SIZE - 1) div BLOCK_SIZE"

text \<open>The part of \<^verbatim>\<open>fs_write\<close> after the inode has been found.\<close>

definition write_contents :: "u8 list \<Rightarrow> u32 \<Rightarrow> inode \<Rightarrow> u8 list \<Rightarrow> fs_world \<Rightarrow> bool \<times> fs_world" where
  "write_contents past n i dat w =
     (let needed = blocks_for (length dat)
      in if needed = 0 then write_inode past n (clear_extents (i\<lparr>i_size := 0\<rparr>)) w
         else case allocate_loop needed 0 (clear_extents i) (free_extents i w) of
           (None, w1) \<Rightarrow> (False, w1)
         | (Some i1, w1) \<Rightarrow>
             (case write_blocks i1 dat [0..<needed] w1 of (ok, w2) \<Rightarrow>
                if \<not> ok then (False, w2)
                else (case write_inode past n (i1\<lparr>i_size := of_nat (length dat),
                             modified_time := ticks w2, i_dirty := 1\<rparr>) w2 of
                        (r, w3) \<Rightarrow> (r, if r then fs_sync w3 else w3))))"

definition fs_write :: "u8 list \<Rightarrow> u8 list \<Rightarrow> u8 list \<Rightarrow> fs_world \<Rightarrow> bool \<times> fs_world" where
  "fs_write past name dat w =
     (case find_inode_by_name past name w of
        (Some (n, i), w1) \<Rightarrow> write_contents past n i dat w1
      | (None, w1) \<Rightarrow>
          (case fs_create past name w1 of (ok, w2) \<Rightarrow>
             if \<not> ok then (False, w2)
             else (case find_inode_by_name past name w2 of
                     (Some (n, i), w3) \<Rightarrow> write_contents past n i dat w3
                   | (None, w3) \<Rightarrow> (False, w3))))"

fun read_blocks :: "inode \<Rightarrow> nat \<Rightarrow> nat list \<Rightarrow> u8 list \<Rightarrow> fs_world \<Rightarrow> u8 list option \<times> fs_world" where
  "read_blocks i bytes [] acc w = (Some acc, w)"
| "read_blocks i bytes (l # ls) acc w =
     (let to_read = min (bytes - length acc) BLOCK_SIZE in
      case get_physical_block i (of_nat l) of
        Some b \<Rightarrow>
          (case disk_read_sector (ucast b) (fs_disk w) of
             (None, d1) \<Rightarrow> (None, w\<lparr>fs_disk := d1\<rparr>)
           | (Some buf, d1) \<Rightarrow> read_blocks i bytes ls (acc @ take to_read buf) (w\<lparr>fs_disk := d1\<rparr>))
      | None \<Rightarrow> read_blocks i bytes ls (acc @ replicate to_read 0) w)"

definition fs_read :: "u8 list \<Rightarrow> u8 list \<Rightarrow> fs_world \<Rightarrow> u8 list option \<times> fs_world" where
  "fs_read past name w =
     (case find_inode_by_name past name w of
        (None, w1) \<Rightarrow> (None, w1)
      | (Some (n, i), w1) \<Rightarrow>
          if i_size i = 0 then (Some [], w1)
          else read_blocks i (unat (i_size i)) [0..<blocks_for (unat (i_size i))] [] w1)"

definition fs_delete :: "u8 list \<Rightarrow> u8 list \<Rightarrow> fs_world \<Rightarrow> bool \<times> fs_world" where
  "fs_delete past name w =
     (case find_inode_by_name past name w of
        (None, w1) \<Rightarrow> (False, w1)
      | (Some (n, i), w1) \<Rightarrow>
          (let w2 = free_extents i w1;
               w3 = if extent_indirect i \<noteq> 0 then free_block (extent_indirect i) w2 else w2
           in write_inode past n ((clear_extents i)\<lparr>in_use := 0, i_size := 0\<rparr>) w3))"

fun list_sectors :: "u8 list \<Rightarrow> nat list \<Rightarrow> fs_io \<Rightarrow> u8 list list \<times> fs_io" where
  "list_sectors past [] d = ([], d)"
| "list_sectors past (sector # ss) d =
     (case disk_read_sector (INODE_TABLE_START + of_nat sector) d of
        (None, d1) \<Rightarrow> list_sectors past ss d1
      | (Some buf, d1) \<Rightarrow>
          (case list_sectors past ss d1 of (rest, d2) \<Rightarrow>
             (map (\<lambda>i. get_name (buffer_inode past buf i))
                (filter (\<lambda>i. in_use (buffer_inode past buf i) \<noteq> 0) [0..<4]) @ rest, d2)))"

definition fs_list :: "u8 list \<Rightarrow> fs_world \<Rightarrow> u8 list list \<times> fs_world" where
  "fs_list past w =
     (case list_sectors past [0..<INODE_TABLE_SECTORS] (fs_disk w) of (r, d) \<Rightarrow> (r, w\<lparr>fs_disk := d\<rparr>))"

declare allocate_loop.simps [simp del]

end
