(* ===== verification/Fs_Files.thy ===== *)
theory Fs_Files
  imports Psychicfs
begin

text \<open>
  Correctness of PsychicFS on a disk that does not fail: the inode table read as a map from inode
  numbers to inodes, lookups and updates of it, what the bitmap operations mark and find, and the
  contents that reads return after writes.
\<close>

section \<open>Slots of the inode table\<close>

text \<open>An inode without the eight bytes that do not fit its slot.\<close>

definition core :: "inode \<Rightarrow> inode" where
  "core i = i\<lparr>i_dirty := 0, i_reserved := replicate 7 0\<rparr>"

definition slot :: "u8 list \<Rightarrow> nat \<Rightarrow> inode" where
  "slot buf k = core (bytes_to_inode (take 128 (drop (k * 128) buf) @ replicate 8 0))"

definition inode_at :: "fs_io \<Rightarrow> nat \<Rightarrow> inode" where
  "inode_at d n = slot (sectors d (INODE_TABLE_START + of_nat (n div 4))) (n mod 4)"

lemma core_simps [simp]:
  "in_use (core i) = in_use i" "i_size (core i) = i_size i" "extents (core i) = extents i"
  "i_name (core i) = i_name i" "get_name (core i) = get_name i" "core (core i) = core i"
  "extent_count (core i) = extent_count i" "last_extent_idx (core i) = last_extent_idx i"
  "extent_indirect (core i) = extent_indirect i" "get_physical_block (core i) l = get_physical_block i l"
  "ext_repr (core i) bl = ext_repr i bl"
  by (simp_all add: core_def get_name_def get_physical_block_def ext_repr_def)

lemma core_bytes_to_inode:
  assumes "length a = 128" and "length b = 8" and "length c = 8"
  shows "core (bytes_to_inode (a @ b)) = core (bytes_to_inode (a @ c))"
proof -
  have "take 12 (drop (24 + 12 * k) (a @ b)) = take 12 (drop (24 + 12 * k) (a @ c))" if "k < 4" for k
    using assms that by simp
  then have "map (\<lambda>k. extent_of_image (take 12 (drop (24 + 12 * k) (a @ b)))) [0..<INLINE_EXTENTS] =
      map (\<lambda>k. extent_of_image (take 12 (drop (24 + 12 * k) (a @ c)))) [0..<INLINE_EXTENTS]"
    by (intro map_cong) (simp_all add: INLINE_EXTENTS_def)
  with assms show ?thesis
    unfolding core_def bytes_to_inode_def
    by (simp only: inode.update_convs inode.simps) (simp add: nth_append)
qed

lemma take_136:
  assumes "length buf = 512" and "length past = 8" and "k < 4"
  shows "take 136 (drop (k * 128) (buf @ past)) =
    take 128 (drop (k * 128) buf) @ take 8 (drop (k * 128 + 128) (buf @ past))"
proof -
  have "k * 128 + 128 \<le> length buf" using assms by simp
  then have "take 128 (drop (k * 128) (buf @ past)) = take 128 (drop (k * 128) buf)" by simp
  moreover have "take (128 + 8) (drop (k * 128) (buf @ past)) =
      take 128 (drop (k * 128) (buf @ past)) @ take 8 (drop 128 (drop (k * 128) (buf @ past)))"
    by (rule take_add)
  ultimately show ?thesis
    by (simp add: drop_drop add.commute del: take_append drop_append)
qed

lemma core_buffer_inode:
  assumes "length buf = 512" and "length past = 8" and "k < 4"
  shows "core (buffer_inode past buf k) = slot buf k"
proof -
  have "length (take 128 (drop (k * 128) buf)) = 128" using assms by simp
  moreover have "length (take 8 (drop (k * 128 + 128) (buf @ past))) = 8" using assms by simp
  ultimately show ?thesis
    unfolding buffer_inode_def slot_def take_136 [OF assms]
    by (intro core_bytes_to_inode) simp_all
qed

lemma buffer_inode_fields:
  assumes "length buf = 512" and "length past = 8" and "k < 4"
  shows "in_use (buffer_inode past buf k) = in_use (slot buf k)"
    and "get_name (buffer_inode past buf k) = get_name (slot buf k)"
  using core_buffer_inode [OF assms] by (metis core_simps(1), metis core_simps(5))

lemma slot_wf: "length buf = 512 \<Longrightarrow> k < 4 \<Longrightarrow> inode_wf (slot buf k)"
  using bytes_to_inode_wf [of "take 128 (drop (k * 128) buf) @ replicate 8 0"]
  by (simp add: slot_def core_def inode_wf_def)

lemma buffer_inode_wf:
  assumes "length buf = 512" and "length past = 8" and "k < 4"
  shows "inode_wf (buffer_inode past buf k)"
  unfolding buffer_inode_def using assms by (intro bytes_to_inode_wf) simp

definition put_slot :: "u8 list \<Rightarrow> nat \<Rightarrow> inode \<Rightarrow> u8 list" where
  "put_slot buf k i = take (k * 128) buf @ inode_bytes i @ drop (k * 128 + 128) buf"

lemma length_put_slot: "length buf = 512 \<Longrightarrow> k < 4 \<Longrightarrow> inode_wf i \<Longrightarrow> length (put_slot buf k i) = 512"
  by (simp add: put_slot_def length_inode_bytes)

lemma take_drop_prefix:
  "m + n \<le> p \<Longrightarrow> p \<le> length xs \<Longrightarrow> take n (drop m (take p xs @ ys)) = take n (drop m xs)"
  by (rule nth_equalityI) (auto simp: nth_append)

lemma slot_put_slot:
  assumes "length buf = 512" and "k < 4" and "j < 4" and "inode_wf i"
  shows "slot (put_slot buf k i) j = (if j = k then core i else slot buf j)"
proof -
  have len: "min (length buf) (k * 128) = k * 128" "length (inode_bytes i) = 128"
    using assms by (simp_all add: length_inode_bytes)
  consider "j = k" | "j < k" | "k < j" by linarith
  then show ?thesis
  proof cases
    case 1
    have "take 128 (drop (k * 128) (put_slot buf k i)) = inode_bytes i"
      by (simp add: put_slot_def len)
    then show ?thesis
      using bytes_to_inode_image [OF assms(4), of "replicate 8 0"] 1
      by (simp add: slot_def core_def)
  next
    case 2
    then have "j * 128 + 128 \<le> k * 128" by simp
    then have "take 128 (drop (j * 128) (put_slot buf k i)) = take 128 (drop (j * 128) buf)"
      unfolding put_slot_def using assms by (intro take_drop_prefix) simp_all
    with 2 show ?thesis by (simp add: slot_def)
  next
    case 3
    then have "k * 128 + 128 \<le> j * 128" by simp
    then obtain m where "j * 128 = k * 128 + 128 + m" by (auto simp: le_iff_add)
    then have "drop (j * 128) (put_slot buf k i) = drop (j * 128) buf"
      unfolding put_slot_def by (simp add: len add.commute)
    with 3 show ?thesis by (simp add: slot_def)
  qed
qed

section \<open>Searching and updating the table\<close>

text \<open>The inode a reader of slot \<open>n\<close> gets, and the two searches as searches of the whole table.\<close>

definition table_inode :: "u8 list \<Rightarrow> fs_io \<Rightarrow> nat \<Rightarrow> inode" where
  "table_inode past d n = buffer_inode past (sectors d (INODE_TABLE_START + of_nat (n div 4))) (n mod 4)"

definition lookup :: "fs_io \<Rightarrow> u8 list \<Rightarrow> nat option" where
  "lookup d name = List.find (\<lambda>n. in_use (inode_at d n) \<noteq> 0 \<and> get_name (inode_at d n) = name) [0..<256]"

definition free_slot :: "fs_io \<Rightarrow> nat option" where
  "free_slot d = List.find (\<lambda>n. in_use (inode_at d n) = 0) [0..<256]"

lemma core_table_inode:
  "disk_good d \<Longrightarrow> length past = 8 \<Longrightarrow> core (table_inode past d n) = inode_at d n"
  unfolding table_inode_def inode_at_def by (rule core_buffer_inode) (simp_all add: length_sector)

lemma table_inode_wf: "disk_good d \<Longrightarrow> length past = 8 \<Longrightarrow> inode_wf (table_inode past d n)"
  unfolding table_inode_def by (rule buffer_inode_wf) (simp_all add: length_sector)

lemma find_map_index: "List.find P (map f xs) = map_option f (List.find (P o f) xs)"
  by (induction xs) auto

lemma slots_of_sector: "[s * 4..<s * 4 + 4] = map (\<lambda>i. s * 4 + i) [0..<4]"
  by (simp add: upt_rec)

lemma find_slots:
  "List.find P [s * 4..<s * 4 + 4] = map_option (\<lambda>i. s * 4 + i) (List.find (\<lambda>i. P (s * 4 + i)) [0..<4])"
  unfolding slots_of_sector by (simp add: find_map_index o_def)

lemma find_cong_set: "(\<And>x. x \<in> set xs \<Longrightarrow> P x = Q x) \<Longrightarrow> List.find P xs = List.find Q xs"
  by (induction xs) auto

lemma find_in_sectors_good:
  assumes "disk_good d" and "length past = 8"
  shows "\<exists>k. find_in_sectors past name ss d =
    (map_option (\<lambda>n. (of_nat n, table_inode past d n))
       (List.find (\<lambda>n. in_use (inode_at d n) \<noteq> 0 \<and> get_name (inode_at d n) = name)
          (concat (map (\<lambda>s. [s * 4..<s * 4 + 4]) ss))), d\<lparr>io_count := k\<rparr>)"
  using assms
proof (induction ss arbitrary: d)
  case Nil
  have "d = d\<lparr>io_count := io_count d\<rparr>" by simp
  then show ?case by (metis concat.simps(1) find.simps(1) find_in_sectors.simps(1) list.simps(8) option.simps(8))
next
  case (Cons s ss)
  let ?d = "d\<lparr>io_count := Suc (io_count d)\<rparr>" and ?buf = "sectors d (INODE_TABLE_START + of_nat s)"
  have eq: "List.find (\<lambda>i. in_use (buffer_inode past ?buf i) \<noteq> 0 \<and> get_name (buffer_inode past ?buf i) = name) [0..<4] =
      List.find (\<lambda>i. in_use (inode_at d (s * 4 + i)) \<noteq> 0 \<and> get_name (inode_at d (s * 4 + i)) = name) [0..<4]"
    by (rule find_cong_set)
      (use Cons.prems in \<open>simp add: inode_at_def buffer_inode_fields length_sector\<close>)
  have ti: "table_inode past ?d n = table_inode past d n" "inode_at ?d n = inode_at d n" for n
    by (simp_all add: table_inode_def inode_at_def)
  show ?case
  proof (cases "List.find (\<lambda>i. in_use (inode_at d (s * 4 + i)) \<noteq> 0 \<and> get_name (inode_at d (s * 4 + i)) = name) [0..<4]")
    case None
    from Cons.IH [of ?d] Cons.prems obtain k where
      "find_in_sectors past name ss ?d =
        (map_option (\<lambda>n. (of_nat n, table_inode past d n))
         (List.find (\<lambda>n. in_use (inode_at d n) \<noteq> 0 \<and> get_name (inode_at d n) = name)
           (concat (map (\<lambda>s. [s * 4..<s * 4 + 4]) ss))), d\<lparr>io_count := k\<rparr>)"
      by (auto simp: ti)
    with None eq Cons.prems show ?thesis
      by (intro exI [of _ k]) (simp add: disk_read_good find_slots find_append)
  next
    case (Some i)
    then have "i < 4" by (auto simp: find_Some_iff)
    then have "table_inode past d (s * 4 + i) = buffer_inode past ?buf i" by (simp add: table_inode_def)
    then show ?thesis
      using Some eq Cons.prems
      by (intro exI [of _ "Suc (io_count d)"]) (simp add: disk_read_good find_slots find_append del: of_nat_add)
  qed
qed

lemma free_in_sectors_good:
  assumes "disk_good d" and "length past = 8"
  shows "\<exists>k. free_in_sectors past ss d =
    (map_option of_nat (List.find (\<lambda>n. in_use (inode_at d n) = 0)
          (concat (map (\<lambda>s. [s * 4..<s * 4 + 4]) ss))), d\<lparr>io_count := k\<rparr>)"
  using assms
proof (induction ss arbitrary: d)
  case Nil
  have "d = d\<lparr>io_count := io_count d\<rparr>" by simp
  then show ?case by (metis concat.simps(1) find.simps(1) free_in_sectors.simps(1) list.simps(8) option.simps(8))
next
  case (Cons s ss)
  let ?d = "d\<lparr>io_count := Suc (io_count d)\<rparr>" and ?buf = "sectors d (INODE_TABLE_START + of_nat s)"
  have eq: "List.find (\<lambda>i. in_use (buffer_inode past ?buf i) = 0) [0..<4] =
      List.find (\<lambda>i. in_use (inode_at d (s * 4 + i)) = 0) [0..<4]"
    by (rule find_cong_set)
      (use Cons.prems in \<open>simp add: inode_at_def buffer_inode_fields length_sector\<close>)
  have ti: "inode_at ?d n = inode_at d n" for n by (simp add: inode_at_def)
  from Cons.IH [of ?d] Cons.prems obtain k where
    "free_in_sectors past ss ?d =
      (map_option of_nat (List.find (\<lambda>n. in_use (inode_at d n) = 0)
         (concat (map (\<lambda>s. [s * 4..<s * 4 + 4]) ss))), d\<lparr>io_count := k\<rparr>)"
    by (auto simp: ti)
  then show ?case
    using eq Cons.prems
    by (cases "List.find (\<lambda>i. in_use (inode_at d (s * 4 + i)) = 0) [0..<4]")
      (auto simp: disk_read_good find_slots find_append simp del: of_nat_add)
qed

lemma all_slots: "concat (map (\<lambda>s. [s * 4..<s * 4 + 4]) [0..<n]) = [0..<n * 4]"
proof (induction n)
  case (Suc n)
  have "[0..<n * 4 + 4] = [0..<n * 4] @ [n * 4..<n * 4 + 4]" by (rule upt_add_eq_append) simp
  with Suc show ?case by (simp add: add.commute)
qed simp

lemma find_inode_by_name_good:
  assumes "disk_good (fs_disk w)" and "length past = 8"
  shows "\<exists>k. find_inode_by_name past name w =
    (map_option (\<lambda>n. (of_nat n, table_inode past (fs_disk w) n)) (lookup (fs_disk w) name),
     w\<lparr>fs_disk := (fs_disk w)\<lparr>io_count := k\<rparr>\<rparr>)"
  using find_in_sectors_good [OF assms, of name "[0..<INODE_TABLE_SECTORS]"]
  by (auto simp: find_inode_by_name_def lookup_def all_slots INODE_TABLE_SECTORS_def)

lemma find_free_inode_good:
  assumes "disk_good (fs_disk w)" and "length past = 8"
  shows "\<exists>k. find_free_inode past w =
    (map_option of_nat (free_slot (fs_disk w)), w\<lparr>fs_disk := (fs_disk w)\<lparr>io_count := k\<rparr>\<rparr>)"
  using free_in_sectors_good [OF assms, of "[0..<INODE_TABLE_SECTORS]"]
  by (auto simp: find_free_inode_def free_slot_def all_slots INODE_TABLE_SECTORS_def)

lemma unat_inode_num:
  assumes "n < 256"
  shows "unat (of_nat n mod 4 :: u32) = n mod 4" and "ucast (of_nat n div 4 :: u32) = (of_nat (n div 4) :: u64)"
proof -
  have n: "unat (of_nat n :: u32) = n" using assms by (intro unat_of_nat_small) simp
  show "unat (of_nat n mod 4 :: u32) = n mod 4" by (simp add: unat_mod n)
  have "unat (of_nat n div 4 :: u32) = n div 4" by (simp add: unat_div n)
  then show "ucast (of_nat n div 4 :: u32) = (of_nat (n div 4) :: u64)" by (metis of_nat_unat)
qed

definition with_inode :: "nat \<Rightarrow> inode \<Rightarrow> fs_io \<Rightarrow> fs_io" where
  "with_inode n i d = (let s = INODE_TABLE_START + of_nat (n div 4)
     in d\<lparr>sectors := (sectors d)(s := put_slot (sectors d s) (n mod 4) i)\<rparr>)"

lemma with_inode_good: "disk_good d \<Longrightarrow> inode_wf i \<Longrightarrow> disk_good (with_inode n i d)"
  by (simp add: disk_good_defs with_inode_def Let_def length_put_slot)

lemma table_sector_inj:
  assumes "m < 256" and "n < 256"
  shows "INODE_TABLE_START + of_nat (m div 4) = INODE_TABLE_START + of_nat (n div 4) \<longleftrightarrow> m div 4 = n div 4"
proof -
  have "unat (of_nat (m div 4) :: u64) = m div 4" "unat (of_nat (n div 4) :: u64) = n div 4"
    using assms by (auto intro!: unat_of_nat_u64)
  then show ?thesis by (metis add_left_cancel)
qed

lemma inode_at_with_inode:
  assumes "disk_good d" and "inode_wf i" and "n < 256" and "m < 256"
  shows "inode_at (with_inode n i d) m = (if m = n then core i else inode_at d m)"
proof (cases "m div 4 = n div 4")
  case True
  then have "m mod 4 = n mod 4 \<longleftrightarrow> m = n" by (metis div_mult_mod_eq)
  with True assms show ?thesis
    by (simp add: inode_at_def with_inode_def Let_def slot_put_slot length_sector)
next
  case False
  then have "m \<noteq> n" by auto
  with False table_sector_inj [OF assms(4,3)] show ?thesis
    by (simp add: inode_at_def with_inode_def Let_def)
qed

lemma table_inode_core_fields:
  assumes "disk_good d" and "length past = 8"
  shows "in_use (table_inode past d n) = in_use (inode_at d n)"
  using core_table_inode [OF assms] by (metis core_simps(1))

lemma write_inode_good:
  assumes "disk_good (fs_disk w)" and "length past = 8" and "inode_wf i" and "n < 256"
  shows "\<exists>k. write_inode past (of_nat n) i w =
    (True, w\<lparr>fs_disk := (with_inode n i (fs_disk w))\<lparr>io_count := k\<rparr>\<rparr>)"
proof -
  let ?d = "with_inode n i (fs_disk w)" and ?s = "INODE_TABLE_START + of_nat (n div 4) :: u64"
  have good: "disk_good ?d" using assms by (intro with_inode_good)
  have put: "take (n mod 4 * 128) (sectors (fs_disk w) ?s) @ inode_bytes i @
      drop (n mod 4 * 128 + 128) (sectors (fs_disk w) ?s) = put_slot (sectors (fs_disk w) ?s) (n mod 4) i"
    by (simp add: put_slot_def)
  have "in_use (buffer_inode past (sectors ?d ?s) (n mod 4)) = in_use i"
    using table_inode_core_fields [OF good assms(2), of n] inode_at_with_inode [OF assms(1,3,4,4)]
    by (simp add: table_inode_def)
  moreover have "sectors ?d ?s = put_slot (sectors (fs_disk w) ?s) (n mod 4) i"
    by (simp add: with_inode_def Let_def)
  ultimately have same: "in_use (buffer_inode past (put_slot (sectors (fs_disk w) ?s) (n mod 4) i) (n mod 4)) = in_use i"
    by simp
  have "write_inode past (of_nat n) i w = (True, w\<lparr>fs_disk := (fs_disk w)\<lparr>
      sectors := (sectors (fs_disk w))(?s := put_slot (sectors (fs_disk w) ?s) (n mod 4) i),
      io_count := Suc (Suc (Suc (io_count (fs_disk w))))\<rparr>\<rparr>)"
    using assms same
    by (simp add: write_inode_def unat_inode_num put Let_def disk_read_good disk_write_good
        disk_good_write length_put_slot length_sector inode_to_bytes_good disk_good_frame)
  then show ?thesis
    by (intro exI [of _ "Suc (Suc (Suc (io_count (fs_disk w))))"]) (simp add: with_inode_def Let_def)
qed

section \<open>Creating files\<close>

lemma lookup_Some:
  "lookup d name = Some n \<Longrightarrow> n < 256 \<and> in_use (inode_at d n) \<noteq> 0 \<and> get_name (inode_at d n) = name"
  by (auto simp: lookup_def find_Some_iff)

lemma lookup_None:
  "lookup d name = None \<longleftrightarrow> (\<forall>n<256. in_use (inode_at d n) = 0 \<or> get_name (inode_at d n) \<noteq> name)"
  by (auto simp: lookup_def find_None_iff)

lemma free_slot_Some: "free_slot d = Some n \<Longrightarrow> n < 256 \<and> in_use (inode_at d n) = 0"
  by (auto simp: free_slot_def find_Some_iff)

text \<open>No two inodes in use have the same name.\<close>

definition names_unique :: "fs_io \<Rightarrow> bool" where
  "names_unique d \<longleftrightarrow> (\<forall>m<256. \<forall>n<256. in_use (inode_at d m) \<noteq> 0 \<and> in_use (inode_at d n) \<noteq> 0 \<and>
     get_name (inode_at d m) = get_name (inode_at d n) \<longrightarrow> m = n)"

lemma lookup_unique:
  assumes "names_unique d" and "n < 256" and "in_use (inode_at d n) \<noteq> 0"
  shows "lookup d (get_name (inode_at d n)) = Some n"
proof (cases "lookup d (get_name (inode_at d n))")
  case None
  with assms show ?thesis unfolding lookup_None by blast
next
  case (Some m)
  with lookup_Some [OF Some] assms show ?thesis by (auto simp: names_unique_def)
qed

lemma lookup_count [simp]: "lookup (d\<lparr>io_count := k\<rparr>) = lookup d" "inode_at (d\<lparr>io_count := k\<rparr>) = inode_at d"
    "free_slot (d\<lparr>io_count := k\<rparr>) = free_slot d" "names_unique (d\<lparr>io_count := k\<rparr>) = names_unique d"
  by (simp_all add: lookup_def inode_at_def fun_eq_iff free_slot_def names_unique_def)

definition created_inode :: "u8 list \<Rightarrow> u64 \<Rightarrow> inode" where
  "created_inode name t = set_name name (new_inode\<lparr>in_use := 1\<rparr>)\<lparr>created_time := t, modified_time := t\<rparr>"

lemma created_inode_fields:
  "inode_wf (created_inode name t)" "in_use (created_inode name t) = 1" "i_size (created_inode name t) = 0"
  "extents (created_inode name t) = replicate 4 empty_extent"
  by (simp_all add: created_inode_def set_name_def new_inode_def inode_wf_def Let_def fs_consts)

lemma created_inode_name:
  assumes "length name < 48" and "0 \<notin> set name" and "utf8_valid name"
  shows "get_name (created_inode name t) = name"
  using get_set_name [OF assms, of "new_inode\<lparr>in_use := 1\<rparr>"]
  by (simp add: created_inode_def get_name_def new_inode_def MAX_FILENAME_LEN_def)

lemma fs_create_good:
  assumes "disk_good (fs_disk w)" and "length past = 8"
  shows "\<exists>k. fs_create past name w =
    (case free_slot (fs_disk w) of
       Some n \<Rightarrow> if length name < 48 \<and> lookup (fs_disk w) name = None
                 then (True, w\<lparr>fs_disk := (with_inode n (created_inode name (ticks w)) (fs_disk w))\<lparr>io_count := k\<rparr>\<rparr>)
                 else (False, w\<lparr>fs_disk := (fs_disk w)\<lparr>io_count := k\<rparr>\<rparr>)
     | None \<Rightarrow> (False, w\<lparr>fs_disk := (fs_disk w)\<lparr>io_count := k\<rparr>\<rparr>))"
proof -
  obtain k1 where find: "find_inode_by_name past name w =
      (map_option (\<lambda>n. (of_nat n, table_inode past (fs_disk w) n)) (lookup (fs_disk w) name),
       w\<lparr>fs_disk := (fs_disk w)\<lparr>io_count := k1\<rparr>\<rparr>)"
    using find_inode_by_name_good [OF assms] by blast
  let ?w1 = "w\<lparr>fs_disk := (fs_disk w)\<lparr>io_count := k1\<rparr>\<rparr>"
  obtain k2 where free: "find_free_inode past ?w1 =
      (map_option of_nat (free_slot (fs_disk w)), w\<lparr>fs_disk := (fs_disk w)\<lparr>io_count := k2\<rparr>\<rparr>)"
    using find_free_inode_good [of ?w1 past] assms by auto
  show ?thesis
  proof (cases "length name < 48 \<and> lookup (fs_disk w) name = None")
    case False
    have *: "fs_create past name w = (False, w\<lparr>fs_disk := (fs_disk w)\<lparr>io_count :=
        if length name < 48 then k1 else io_count (fs_disk w)\<rparr>\<rparr>)"
      using False find by (auto simp: fs_create_def MAX_FILENAME_LEN_def)
    show ?thesis
      unfolding * by (intro exI [of _ "if length name < 48 then k1 else io_count (fs_disk w)"])
        (use False in \<open>auto split: option.splits\<close>)
  next
    case True
    show ?thesis
    proof (cases "free_slot (fs_disk w)")
      case None
      with True find free show ?thesis by (auto simp: fs_create_def MAX_FILENAME_LEN_def)
    next
      case (Some n)
      let ?w2 = "w\<lparr>fs_disk := (fs_disk w)\<lparr>io_count := k2\<rparr>\<rparr>"
      have "fs_create past name w = write_inode past (of_nat n) (created_inode name (ticks w)) ?w2"
        using True Some find free by (simp add: fs_create_def MAX_FILENAME_LEN_def created_inode_def)
      moreover obtain k where "write_inode past (of_nat n) (created_inode name (ticks w)) ?w2 =
          (True, ?w2\<lparr>fs_disk := (with_inode n (created_inode name (ticks w)) (fs_disk ?w2))\<lparr>io_count := k\<rparr>\<rparr>)"
        using write_inode_good [of ?w2 past "created_inode name (ticks w)" n] assms
          free_slot_Some [OF Some] created_inode_fields by auto
      ultimately show ?thesis using True Some by (auto simp: with_inode_def Let_def)
    qed
  qed
qed

section \<open>Synchronisation and single blocks\<close>

definition fs_ok :: "psychicfs \<Rightarrow> bool" where
  "fs_ok p \<longleftrightarrow> mounted p \<and> length (block_bitmap p) = 1024 \<and> length (sb_reserved (superblock p)) = 485"

definition meta_sectors :: "u64 set" where
  "meta_sectors = {SUPERBLOCK_SECTOR, BITMAP_SECTOR, BITMAP_SECTOR + 1}"

text \<open>Whatever the disk does, synchronisation changes neither the bitmap nor the counter in memory, and
  only the superblock and bitmap sectors on disk.\<close>

lemma disk_write_sector_other:
  "disk_write_sector s buf d = (ok, d') \<Longrightarrow> t \<noteq> s \<Longrightarrow> sectors d' t = sectors d t"
  by (auto simp: disk_write_sector_def split: if_splits option.splits)

lemma disk_write_sector_ok: "disk_write_sector s buf d = (True, d') \<Longrightarrow> sectors d' s = buf"
  by (auto simp: disk_write_sector_def split: if_splits)

lemma disk_write_sector_frame: "disk_write_sector s buf d = (ok, d') \<Longrightarrow> frame_ok d' = frame_ok d"
  by (auto simp: disk_write_sector_def frame_ok_def split: if_splits option.splits)

lemma write_bitmap_to_disk_frame:
  "write_bitmap_to_disk p d = (ok, d') \<Longrightarrow> s \<notin> meta_sectors \<Longrightarrow> sectors d' s = sectors d s"
  by (auto simp: write_bitmap_to_disk_def meta_sectors_def dest!: disk_write_sector_other
      split: prod.splits if_splits)

lemma sync_frame:
  assumes "sync p d = (ok, p', d')"
  shows "block_bitmap p' = block_bitmap p \<and> mounted p' = mounted p \<and>
      (\<exists>b. superblock p' = (superblock p)\<lparr>sb_dirty := b\<rparr>)"
    and "s \<notin> meta_sectors \<Longrightarrow> sectors d' s = sectors d s"
proof -
  have id: "\<exists>b. superblock p = (superblock p)\<lparr>sb_dirty := b\<rparr>" by (intro exI [of _ "sb_dirty (superblock p)"]) simp
  obtain ok1 p1 d1 where 1: "sync_bitmap p d = (ok1, p1, d1)" by (cases "sync_bitmap p d") auto
  obtain ok2 p2 d2 where 2: "sync_superblock p1 d1 = (ok2, p2, d2)" by (cases "sync_superblock p1 d1") auto
  have p1: "block_bitmap p1 = block_bitmap p \<and> mounted p1 = mounted p \<and> superblock p1 = superblock p"
    using 1 by (auto simp: sync_bitmap_def split: prod.splits if_splits)
  have p2: "block_bitmap p2 = block_bitmap p1 \<and> mounted p2 = mounted p1 \<and>
      (superblock p2 = superblock p1 \<or> superblock p2 = (superblock p1)\<lparr>sb_dirty := 0\<rparr>)"
    using 2 by (auto simp: sync_superblock_def Let_def split: prod.splits if_splits)
  show "block_bitmap p' = block_bitmap p \<and> mounted p' = mounted p \<and>
      (\<exists>b. superblock p' = (superblock p)\<lparr>sb_dirty := b\<rparr>)"
    using assms 1 2 p1 p2 id by (auto simp: sync_def split: if_splits)
  show "s \<notin> meta_sectors \<Longrightarrow> sectors d' s = sectors d s"
  proof -
    assume s: "s \<notin> meta_sectors"
    have "sectors d1 s = sectors d s"
      using 1 s by (auto simp: sync_bitmap_def dest: write_bitmap_to_disk_frame split: prod.splits if_splits)
    moreover have "sectors d2 s = sectors d1 s"
      using 2 s by (auto simp: sync_superblock_def superblock_to_bytes_def copy_to_local_def Let_def
          meta_sectors_def dest: disk_write_sector_other split: prod.splits if_splits)
    ultimately show "sectors d' s = sectors d s"
      using assms 1 2 by (auto simp: sync_def split: if_splits)
  qed
qed

text \<open>A successful synchronisation of a dirty bitmap leaves the bitmap on disk; under the hypothesis on
  the frame no synchronisation, successful or not, writes past a buffer.\<close>

lemma write_bitmap_to_disk_ok:
  assumes "write_bitmap_to_disk p d = (True, d')"
  shows "sectors d' BITMAP_SECTOR = take 512 (block_bitmap p) \<and>
    sectors d' (BITMAP_SECTOR + 1) = take 512 (drop 512 (block_bitmap p))"
proof -
  obtain d1 where d1: "disk_write_sector BITMAP_SECTOR (take 512 (block_bitmap p)) d = (True, d1)"
      "disk_write_sector (BITMAP_SECTOR + 1) (take 512 (drop 512 (block_bitmap p))) d1 = (True, d')"
    using assms by (auto simp: write_bitmap_to_disk_def split: prod.splits if_splits)
  have "BITMAP_SECTOR \<noteq> BITMAP_SECTOR + 1" by (simp add: BITMAP_SECTOR_def)
  with disk_write_sector_other [OF d1(2)] disk_write_sector_ok [OF d1(1)] disk_write_sector_ok [OF d1(2)]
  show ?thesis by simp
qed

definition disk_bitmap :: "fs_io \<Rightarrow> u8 list" where
  "disk_bitmap d = sectors d BITMAP_SECTOR @ sectors d (BITMAP_SECTOR + 1)"

lemma sync_bitmap_on_disk:
  assumes "sync p d = (ok, p', d')" and "bitmap_dirty p" and "mounted p" and "length (block_bitmap p) = 1024"
    and "ok \<or> present d \<and> io_ok d (io_count d) \<and> io_ok d (Suc (io_count d))"
  shows "disk_bitmap d' = block_bitmap p \<and> \<not> bitmap_dirty p'"
proof -
  obtain ok1 p1 d1 ok2 where 1: "sync_bitmap p d = (ok1, p1, d1)" and 2: "sync_superblock p1 d1 = (ok2, p', d')"
      and ok: "ok = (ok1 \<and> ok2)"
    using assms(1,3) by (auto simp: sync_def split: prod.splits)
  have "present d \<Longrightarrow> io_ok d (io_count d) \<Longrightarrow> io_ok d (Suc (io_count d)) \<Longrightarrow> fst (write_bitmap_to_disk p d)"
    by (simp add: write_bitmap_to_disk_def disk_write_sector_def)
  then have "ok1" using assms(2,5) 1 ok by (auto simp: sync_bitmap_def split: prod.splits if_splits)
  with 1 assms(2) have w: "write_bitmap_to_disk p d = (True, d1)" "p1 = p\<lparr>bitmap_dirty := False\<rparr>"
    by (auto simp: sync_bitmap_def split: prod.splits if_splits)
  have "sectors d' s = sectors d1 s" if "s \<noteq> SUPERBLOCK_SECTOR" for s
    using 2 that by (auto simp: sync_superblock_def superblock_to_bytes_def copy_to_local_def Let_def
        split: prod.splits if_splits dest: disk_write_sector_other)
  with write_bitmap_to_disk_ok [OF w(1)] have "disk_bitmap d' = block_bitmap p"
    using assms(4) by (simp add: disk_bitmap_def BITMAP_SECTOR_def SUPERBLOCK_SECTOR_def)
  moreover have "\<not> bitmap_dirty p'"
    using 2 w(2) by (auto simp: sync_superblock_def Let_def split: prod.splits if_splits)
  ultimately show ?thesis by simp
qed

lemma sync_frame_ok:
  assumes "sync p d = (ok, p', d')" and "frame_ok d" and "length (sb_reserved (superblock p)) = 485"
  shows "frame_ok d'"
proof -
  obtain ok1 p1 d1 where 1: "sync_bitmap p d = (ok1, p1, d1)" by (cases "sync_bitmap p d") auto
  obtain ok2 p2 d2 where 2: "sync_superblock p1 d1 = (ok2, p2, d2)" by (cases "sync_superblock p1 d1") auto
  have p1: "superblock p1 = superblock p"
    using 1 by (auto simp: sync_bitmap_def split: prod.splits if_splits)
  have d1: "frame_ok d1"
    using 1 assms(2) by (auto simp: sync_bitmap_def write_bitmap_to_disk_def split: prod.splits if_splits
        dest: disk_write_sector_frame)
  have "superblock_to_bytes ((superblock p)\<lparr>sb_dirty := 0\<rparr>) d1 = (superblock_bytes ((superblock p)\<lparr>sb_dirty := 0\<rparr>), d1)"
    using assms(3) d1 by (intro superblock_to_bytes_good) simp_all
  then have "frame_ok d2"
    using 2 d1 p1 by (auto simp: sync_superblock_def Let_def split: prod.splits if_splits dest: disk_write_sector_frame)
  then show ?thesis using assms(1,2) 1 2 by (auto simp: sync_def split: if_splits)
qed

lemma sync_good:
  assumes "disk_good d" and "fs_ok p" and "sync p d = (ok, p', d')"
  shows "ok \<and> disk_good d' \<and> fs_ok p' \<and>
    (bitmap_dirty p \<longrightarrow> sectors d' BITMAP_SECTOR = take 512 (block_bitmap p) \<and>
       sectors d' (BITMAP_SECTOR + 1) = drop 512 (block_bitmap p))"
proof -
  have len: "length (block_bitmap p) = 1024" "length (sb_reserved (superblock p)) = 485" "mounted p"
    using assms(2) by (simp_all add: fs_ok_def)
  let ?d1 = "if bitmap_dirty p then d\<lparr>sectors := (sectors d)(BITMAP_SECTOR := take 512 (block_bitmap p),
      BITMAP_SECTOR + 1 := take 512 (drop 512 (block_bitmap p))), io_count := Suc (Suc (io_count d))\<rparr> else d"
  let ?p1 = "if bitmap_dirty p then p\<lparr>bitmap_dirty := False\<rparr> else p"
  have step1: "sync_bitmap p d = (True, ?p1, ?d1)"
    using assms(1) len
    by (simp add: sync_bitmap_def write_bitmap_to_disk_def disk_write_good disk_good_write)
  have good1: "disk_good ?d1" using assms(1) len by (auto simp: disk_good_defs)
  have "sync_superblock ?p1 ?d1 = (True, if superblock_dirty p then ?p1\<lparr>superblock := (superblock p)\<lparr>sb_dirty := 0\<rparr>,
      superblock_dirty := False\<rparr> else ?p1, if superblock_dirty p then ?d1\<lparr>sectors := (sectors ?d1)(SUPERBLOCK_SECTOR :=
      superblock_bytes ((superblock p)\<lparr>sb_dirty := 0\<rparr>)), io_count := Suc (io_count ?d1)\<rparr> else ?d1)"
    using disk_write_good [OF good1] disk_good_frame [OF good1] len
    by (simp add: sync_superblock_def Let_def superblock_to_bytes_good)
  then have "sync p d = (True, if superblock_dirty p then ?p1\<lparr>superblock := (superblock p)\<lparr>sb_dirty := 0\<rparr>,
      superblock_dirty := False\<rparr> else ?p1, if superblock_dirty p then ?d1\<lparr>sectors := (sectors ?d1)(SUPERBLOCK_SECTOR :=
      superblock_bytes ((superblock p)\<lparr>sb_dirty := 0\<rparr>)), io_count := Suc (io_count ?d1)\<rparr> else ?d1)"
    using step1 len(3) by (simp add: sync_def)
  with assms(3) have eq: "ok" "p' = (if superblock_dirty p then ?p1\<lparr>superblock := (superblock p)\<lparr>sb_dirty := 0\<rparr>,
      superblock_dirty := False\<rparr> else ?p1)" "d' = (if superblock_dirty p then ?d1\<lparr>sectors := (sectors ?d1)(SUPERBLOCK_SECTOR :=
      superblock_bytes ((superblock p)\<lparr>sb_dirty := 0\<rparr>)), io_count := Suc (io_count ?d1)\<rparr> else ?d1)"
    by simp_all
  have "disk_good d'"
    unfolding eq(3) using good1 len by (simp add: disk_good_write length_superblock_bytes)
  moreover have "fs_ok p'" unfolding eq(2) using assms(2) by (simp add: fs_ok_def)
  ultimately show ?thesis
    using eq(1) len by (auto simp: eq(3) BITMAP_SECTOR_def SUPERBLOCK_SECTOR_def)
qed

lemma is_block_allocated_iff:
  "is_block_allocated p b \<longleftrightarrow>
     unat b < 128 \<or> 8320 \<le> unat b \<or> bm_test (block_bitmap p) (unat b - 128)"
proof (cases "unat b < 128")
  case True
  then show ?thesis by (simp add: is_block_allocated_def DATA_BLOCKS_START_def word_less_nat_alt)
next
  case False
  then have idx: "unat (b - 128) = unat b - 128"
    by (subst unat_sub) (simp_all add: word_le_nat_alt)
  have "1024 \<le> (unat b - 128) div 8 \<longleftrightarrow> 8320 \<le> unat b" using False by linarith
  with False idx show ?thesis
    by (simp add: is_block_allocated_def DATA_BLOCKS_START_def word_less_nat_alt Let_def bm_test_def)
qed

lemma bm_clear_set:
  fixes bm :: "u8 list"
  assumes "i < length bm * 8" and "\<not> bm_test bm i"
  shows "bm_clear (bm_set bm i) i = bm"
proof (rule nth_equalityI)
  fix j
  assume "j < length (bm_clear (bm_set bm i) i)"
  then have j: "j < length bm" by simp
  show "bm_clear (bm_set bm i) i ! j = bm ! j"
  proof (rule bit_word_eqI)
    fix k
    assume "k < LENGTH(8)"
    then have k: "(j * 8 + k) div 8 = j" "(j * 8 + k) mod 8 = k" by simp_all
    have "bm_test (bm_clear (bm_set bm i) i) (j * 8 + k) = bm_test bm (j * 8 + k)"
      using assms by (auto simp: bitmap_simps)
    then show "bit (bm_clear (bm_set bm i) i ! j) k = bit (bm ! j) k"
      using k by (simp add: bm_test_bit)
  qed
qed simp

lemma first_free_index:
  assumes "List.find (\<lambda>i. block_bitmap p ! (i div 8) AND push_bit (i mod 8) 1 = 0)
      [0..<min (8192 - unat DATA_BLOCKS_START) (1024 * 8)] = r"
  shows "case r of
      None \<Rightarrow> \<forall>b. 128 \<le> unat b \<and> unat b < 8192 \<longrightarrow> is_block_allocated p b
    | Some i \<Rightarrow> i < 8064 \<and> \<not> bm_test (block_bitmap p) i \<and>
        (\<forall>b. 128 \<le> unat b \<and> unat b < 128 + i \<longrightarrow> is_block_allocated p b)"
proof -
  have test: "block_bitmap p ! (i div 8) AND push_bit (i mod 8) 1 = 0 \<longleftrightarrow> \<not> bm_test (block_bitmap p) i" for i
    by (simp add: bm_test_def)
  have range: "[0..<min (8192 - unat DATA_BLOCKS_START) (1024 * 8)] = [0..<8064]"
    by (simp add: DATA_BLOCKS_START_def)
  have r: "List.find (\<lambda>i. \<not> bm_test (block_bitmap p) i) [0..<8064] = r"
    using assms unfolding range test .
  show ?thesis
  proof (cases r)
    case None
    with r have "\<forall>i<8064. bm_test (block_bitmap p) i"
      by (simp add: find_None_upt)
    then have "is_block_allocated p b" if "128 \<le> unat b" "unat b < 8192" for b
      using that by (simp add: is_block_allocated_iff)
    with None show ?thesis by simp
  next
    case (Some i)
    with r have i: "i < 8064" "\<not> bm_test (block_bitmap p) i" "\<forall>j<i. bm_test (block_bitmap p) j"
      using find_Some_least [of "\<lambda>i. \<not> bm_test (block_bitmap p) i" 0 8064 i] by simp_all
    then have "is_block_allocated p b" if "128 \<le> unat b" "unat b < 128 + i" for b
      using that by (simp add: is_block_allocated_iff)
    with Some i show ?thesis by simp
  qed
qed

lemma is_block_allocated_set:
  assumes "length (block_bitmap p) = 1024" and "i < 8064" and "block_bitmap p' = bm_set (block_bitmap p) i"
  shows "is_block_allocated p' c \<longleftrightarrow> unat c = 128 + i \<or> is_block_allocated p c"
  using assms by (auto simp: is_block_allocated_iff bitmap_simps)

lemma unat_data_block: "i < 8192 \<Longrightarrow> unat (DATA_BLOCKS_START + of_nat i) = 128 + i"
proof -
  assume "i < 8192"
  then have "unat (of_nat i :: u32) = i" by (intro unat_of_nat_small) simp
  with \<open>i < 8192\<close> show "unat (DATA_BLOCKS_START + of_nat i) = 128 + i"
    by (simp add: DATA_BLOCKS_START_def unat_word_ariths)
qed

definition lowest_free :: "psychicfs \<Rightarrow> u32 \<Rightarrow> bool" where
  "lowest_free p b \<longleftrightarrow> 128 \<le> unat b \<and> unat b < 8192 \<and> \<not> is_block_allocated p b \<and>
     (\<forall>c. 128 \<le> unat c \<and> unat c < unat b \<longrightarrow> is_block_allocated p c)"

lemma allocate_block_cases:
  assumes "psychic w = Some p" and "fs_ok p"
  obtains (full) "allocate_block w = (None, w)"
      "\<forall>b. 128 \<le> unat b \<and> unat b < 8192 \<longrightarrow> is_block_allocated p b"
  | (failed) w' p' b where "allocate_block w = (None, w')" "psychic w' = Some p'" "block_bitmap p' = block_bitmap p"
      "\<forall>s. s \<notin> meta_sectors \<longrightarrow> sectors (fs_disk w') s = sectors (fs_disk w) s"
      "frame_ok (fs_disk w) \<Longrightarrow> frame_ok (fs_disk w')" "\<not> disk_good (fs_disk w)" "lowest_free p b"
      "present (fs_disk w) \<and> io_ok (fs_disk w) (io_count (fs_disk w)) \<and> io_ok (fs_disk w) (Suc (io_count (fs_disk w))) \<longrightarrow>
         \<not> bitmap_dirty p' \<and> disk_bitmap (fs_disk w') = bm_set (block_bitmap p) (unat b - 128)"
  | (success) w' p' b where "allocate_block w = (Some b, w')" "psychic w' = Some p'" "lowest_free p b"
      "\<forall>c. is_block_allocated p' c \<longleftrightarrow> c = b \<or> is_block_allocated p c"
      "\<forall>s. s \<notin> meta_sectors \<longrightarrow> sectors (fs_disk w') s = sectors (fs_disk w) s"
      "frame_ok (fs_disk w) \<Longrightarrow> frame_ok (fs_disk w')" "disk_bitmap (fs_disk w') = block_bitmap p'"
proof -
  have len: "length (block_bitmap p) = 1024" using assms(2) by (simp add: fs_ok_def)
  define r where "r = List.find (\<lambda>i. block_bitmap p ! (i div 8) AND push_bit (i mod 8) 1 = 0)
      [0..<min (8192 - unat DATA_BLOCKS_START) (1024 * 8)]"
  note ff = first_free_index [OF r_def [symmetric]]
  show thesis
  proof (cases r)
    case None
    have "allocate_block w = (None, w)" by (simp only: allocate_block_def assms(1) option.case r_def [symmetric] None)
    with ff None full show thesis by simp
  next
    case (Some i)
    let ?sb = "superblock p"
    define p1 where "p1 = mark_dirty (p\<lparr>block_bitmap := bm_set (block_bitmap p) i,
      superblock := ?sb\<lparr>free_blocks := if 0 < free_blocks ?sb then free_blocks ?sb - 1 else free_blocks ?sb\<rparr>\<rparr>)"
    obtain ok p2 d' where s: "sync p1 (fs_disk w) = (ok, p2, d')" by (cases "sync p1 (fs_disk w)") auto
    have bm: "block_bitmap p2 = bm_set (block_bitmap p) i"
      using sync_frame(1) [OF s] by (simp add: p1_def mark_dirty_def)
    have i: "i < 8064" "\<not> bm_test (block_bitmap p) i"
        "\<forall>b. 128 \<le> unat b \<and> unat b < 128 + i \<longrightarrow> is_block_allocated p b"
      using ff Some by simp_all
    have p1: "fs_ok p1" "bitmap_dirty p1" "block_bitmap p1 = bm_set (block_bitmap p) i"
      using assms(2) by (simp_all add: p1_def mark_dirty_def fs_ok_def)
    have ok: "ok" if "disk_good (fs_disk w)" using sync_good [OF that p1(1) s] by simp
    have frame: "frame_ok d'" if "frame_ok (fs_disk w)"
      using sync_frame_ok [OF s that] p1(1) by (simp add: fs_ok_def)
    let ?d = "fs_disk w"
    have on: "disk_bitmap d' = bm_set (block_bitmap p) i \<and> \<not> bitmap_dirty p2"
      if "ok \<or> present ?d \<and> io_ok ?d (io_count ?d) \<and> io_ok ?d (Suc (io_count ?d))"
      using sync_bitmap_on_disk [OF s p1(2) _ _ that] p1 by (simp add: fs_ok_def)
    let ?b = "DATA_BLOCKS_START + of_nat i :: u32"
    have b: "unat ?b = 128 + i" using i(1) by (simp add: unat_data_block)
    have low: "lowest_free p ?b" using i b by (simp add: lowest_free_def is_block_allocated_iff)
    note body = allocate_block_def assms(1) option.case r_def [symmetric] Some Let_def
      p1_def [symmetric] s prod.case
    show thesis
    proof (cases ok)
      case False
      have "allocate_block w = (None, w\<lparr>fs_disk := d', psychic := Some (p2\<lparr>
          block_bitmap := bm_clear (block_bitmap p2) i,
          superblock := (superblock p2)\<lparr>free_blocks := free_blocks (superblock p2) + 1\<rparr>\<rparr>)\<rparr>)"
        using False by (simp only: body if_False if_True simp_thms)
      from failed [OF this _ _ _ _ _ low] False show thesis
        using bm_clear_set [of i "block_bitmap p"] len i sync_frame(2) [OF s] ok frame on
        by (simp add: bm b) blast
    next
      case True
      have "allocate_block w = (Some ?b, w\<lparr>fs_disk := d', psychic := Some p2\<rparr>)"
        using True by (simp only: body if_False if_True simp_thms)
      moreover have "is_block_allocated p2 c \<longleftrightarrow> c = ?b \<or> is_block_allocated p c" for c
        using is_block_allocated_set [OF len i(1) bm] b by (metis unsigned_word_eqI)
      ultimately show thesis
        using success [of ?b "w\<lparr>fs_disk := d', psychic := Some p2\<rparr>" p2] low sync_frame(2) [OF s] frame on True bm by simp
    qed
  qed
qed

section \<open>Contiguous runs\<close>

text \<open>The reference: the first block from which \<open>n\<close> free blocks follow.\<close>

definition free_run :: "psychicfs \<Rightarrow> nat \<Rightarrow> nat \<Rightarrow> nat \<Rightarrow> bool" where
  "free_run p n t s \<longleftrightarrow> s + n \<le> t \<and> (\<forall>k<n. \<not> is_block_allocated p (of_nat (s + k)))"

lemma find_run_least:
  assumes "rl < n" and "rl \<le> a" and "lo \<le> a - rl"
    and "\<And>k. a - rl \<le> k \<Longrightarrow> k < a \<Longrightarrow> \<not> is_block_allocated p (of_nat k)"
    and "rl \<noteq> 0 \<Longrightarrow> rs = of_nat (a - rl)"
    and "\<And>s. lo \<le> s \<Longrightarrow> s < a - rl \<Longrightarrow> \<not> free_run p n t s"
  shows "find_run p n rs rl (map of_nat [a..<t]) = map_option of_nat (List.find (free_run p n t) [lo..<t])"
  using assms
proof (induction "t - a" arbitrary: a rs rl)
  case 0
  have "\<not> free_run p n t s" if "lo \<le> s" "s < t" for s
  proof (cases "s < a - rl")
    case True
    with 0 that show ?thesis by simp
  next
    case False
    with 0 show ?thesis by (auto simp: free_run_def)
  qed
  then show ?case using 0 by (simp add: find_upt_None)
next
  case (Suc x)
  then have at: "a < t" "x = t - Suc a" by simp_all
  then have upt: "map of_nat [a..<t] = (of_nat a :: u32) # map of_nat [Suc a..<t]" by (simp add: upt_conv_Cons)
  show ?case
  proof (cases "is_block_allocated p (of_nat a)")
    case True
    have no: "\<not> free_run p n t s" if "lo \<le> s" "s < Suc a" for s
    proof (cases "s < a - rl")
      case True
      with Suc.prems that show ?thesis by simp
    next
      case False
      with that Suc.prems(1) have "s + (a - s) = a" "a - s < n" by simp_all
      with True show ?thesis by (metis free_run_def)
    qed
    from Suc.hyps(1) [OF at(2), of 0 rs] no Suc.prems at(1) True show ?thesis
      unfolding upt by simp
  next
    case False
    let ?s = "if rl = 0 then of_nat a else rs"
    have s: "?s = of_nat (a - rl)" using Suc.prems(5) by simp
    have freek: "\<not> is_block_allocated p (of_nat k)" if "a - rl \<le> k" "k < Suc a" for k
      using that False Suc.prems(4) by (cases "k = a") auto
    show ?thesis
    proof (cases "n \<le> rl + 1")
      case True
      with Suc.prems(1) have n: "n = Suc rl" by simp
      have "free_run p n t (a - rl)"
        unfolding free_run_def
      proof (intro conjI allI impI)
        fix k
        assume "k < n"
        then show "\<not> is_block_allocated p (of_nat (a - rl + k))"
          using n Suc.prems(2) by (intro freek) simp_all
      qed (use at(1) Suc.prems(2) n in simp)
      with Suc.prems at(1) n have "List.find (free_run p n t) [lo..<t] = Some (a - rl)"
        by (intro find_upt_Some) auto
      with False True s show ?thesis unfolding upt by simp
    next
      case False': False
      have "find_run p n ?s (Suc rl) (map of_nat [Suc a..<t]) =
          map_option of_nat (List.find (free_run p n t) [lo..<t])"
        by (rule Suc.hyps(1) [OF at(2)]) (use Suc.prems False' freek s in simp_all)
      with False False' show ?thesis unfolding upt by (simp add: Let_def)
    qed
  qed
qed

lemma find_contiguous_blocks_least:
  assumes "psychic w = Some p" and "0 < n"
  shows "find_contiguous_blocks n w = map_option of_nat
    (List.find (free_run p n (unat (total_blocks (superblock p)))) [128..<unat (total_blocks (superblock p))])"
proof -
  let ?t = "unat (total_blocks (superblock p))"
  have run: "find_run p n 0 0 (data_blocks p) = map_option of_nat (List.find (free_run p n ?t) [128..<?t])"
    unfolding data_blocks_def using find_run_least [of 0 n 128 128 p 0 ?t] assms(2)
    by (simp add: DATA_BLOCKS_START_def)
  have "List.find (\<lambda>b. \<not> is_block_allocated p b) (data_blocks p) = None"
    if "List.find (free_run p 1 ?t) [128..<?t] = None"
    using that unfolding data_blocks_def
    by (auto simp: find_None_iff free_run_def DATA_BLOCKS_START_def)
  moreover have "[128..<?t] = []" if "total_blocks (superblock p) \<le> DATA_BLOCKS_START"
    using that by (simp add: DATA_BLOCKS_START_def word_le_nat_alt)
  ultimately show ?thesis
    using assms(1) run by (auto simp: find_contiguous_blocks_def split: option.splits)
qed

text \<open>
  Allocation marks block \<open>b\<close> at bit \<open>b\<close> of the bitmap, but the bitmap is read with the data
  area at bit zero: what gets marked is the block 128 further on.
\<close>

lemma mark_block_test:
  assumes "length (block_bitmap p) = 1024"
  shows "length (block_bitmap (mark_block b p)) = 1024"
    and "bm_test (block_bitmap (mark_block b p)) j \<longleftrightarrow> (j = unat b \<and> unat b < 8192) \<or> bm_test (block_bitmap p) j"
  using assms by (auto simp: mark_block_def bitmap_simps)

lemma mark_blocks_test:
  assumes "length (block_bitmap p) = 1024" and "unat start + n < 2 ^ 32"
  shows "length (block_bitmap (fold (\<lambda>i. mark_block (start + of_nat i)) [0..<n] p)) = 1024 \<and>
    (\<forall>j. bm_test (block_bitmap (fold (\<lambda>i. mark_block (start + of_nat i)) [0..<n] p)) j \<longleftrightarrow>
       (unat start \<le> j \<and> j < unat start + n \<and> j < 8192) \<or> bm_test (block_bitmap p) j)"
  using assms(2)
proof (induction n)
  case 0
  then show ?case using assms(1) by auto
next
  case (Suc n)
  have "unat (of_nat n :: u32) = n" using Suc.prems by (intro unat_of_nat_small) simp
  then have b: "unat (start + of_nat n) = unat start + n" using Suc.prems by (simp add: unat_word_ariths)
  let ?p = "fold (\<lambda>i. mark_block (start + of_nat i)) [0..<n] p"
  have IH: "length (block_bitmap ?p) = 1024" "\<And>j. bm_test (block_bitmap ?p) j \<longleftrightarrow>
      (unat start \<le> j \<and> j < unat start + n \<and> j < 8192) \<or> bm_test (block_bitmap p) j"
    using Suc by auto
  have eq: "fold (\<lambda>i. mark_block (start + of_nat i)) [0..<Suc n] p = mark_block (start + of_nat n) ?p" by simp
  show ?case
    unfolding eq mark_block_test(2) [OF IH(1)] IH(2) b using mark_block_test(1) [OF IH(1)]
    by (simp add: less_Suc_eq) auto
qed

lemma allocate_contiguous_blocks_effect:
  assumes "psychic w = Some p" and "fs_ok p" and "unat start + unat n < 2 ^ 32"
  shows "\<exists>p'. allocate_contiguous_blocks start n w = (True, w\<lparr>psychic := Some p'\<rparr>) \<and> fs_ok p' \<and>
    total_blocks (superblock p') = total_blocks (superblock p) \<and>
    (\<forall>b. is_block_allocated p' b \<longleftrightarrow> is_block_allocated p b \<or>
       (128 + unat start \<le> unat b \<and> unat b < 128 + unat start + unat n))"
proof -
  let ?p1 = "fold (\<lambda>i. mark_block (start + of_nat i)) [0..<unat n] p"
  define p' where "p' = ?p1\<lparr>superblock := (superblock ?p1)\<lparr>free_blocks :=
      if free_blocks (superblock ?p1) < ucast n then 0 else free_blocks (superblock ?p1) - ucast n\<rparr>\<rparr>"
  have keep: "superblock (fold (\<lambda>i. mark_block (start + of_nat i)) xs q) = superblock q \<and>
      mounted (fold (\<lambda>i. mark_block (start + of_nat i)) xs q) = mounted q" for xs q
    by (induction xs arbitrary: q) (simp_all add: mark_block_def)
  have len: "length (block_bitmap p) = 1024" using assms(2) by (simp add: fs_ok_def)
  note marks = mark_blocks_test [OF len assms(3)]
  have ok: "fs_ok p'" using marks keep [of "[0..<unat n]" p] assms(2) by (simp add: p'_def fs_ok_def)
  have "is_block_allocated p' b \<longleftrightarrow> is_block_allocated p b \<or>
       (128 + unat start \<le> unat b \<and> unat b < 128 + unat start + unat n)" for b
    using marks by (simp add: is_block_allocated_iff p'_def) linarith
  moreover have "allocate_contiguous_blocks start n w = (True, w\<lparr>psychic := Some p'\<rparr>)"
    using assms(1) by (simp add: allocate_contiguous_blocks_def Let_def p'_def)
  moreover have "total_blocks (superblock p') = total_blocks (superblock p)"
    using keep [of "[0..<unat n]" p] by (simp add: p'_def)
  ultimately show ?thesis using ok by blast
qed

section \<open>File contents\<close>

text \<open>What \<^verbatim>\<open>fs_write\<close> puts into the \<open>l\<close>-th block of a file.\<close>

definition chunk :: "u8 list \<Rightarrow> nat \<Rightarrow> u8 list" where
  "chunk dat l = take 512 (drop (l * 512) dat @ replicate 512 0)"

lemma length_chunk [simp]: "length (chunk dat l) = 512"
  by (simp add: chunk_def)

lemma chunk_eq:
  assumes "l * 512 < length dat"
  shows "take (min (l * 512 + 512) (length dat) - l * 512) (drop (l * 512) dat) @
      replicate (512 - (min (l * 512 + 512) (length dat) - l * 512)) 0 = chunk dat l"
  using assms by (cases "l * 512 + 512 \<le> length dat") (simp_all add: chunk_def)

lemma blocks_for_bounds:
  "l < blocks_for n \<Longrightarrow> l * 512 < n" "n \<le> blocks_for n * 512" "blocks_for n = 0 \<longleftrightarrow> n = 0"
  unfolding blocks_for_def BLOCK_SIZE_def by linarith+

lemma unat_ucast_u32: "unat (ucast (a :: u32) :: u64) = unat a"
  using unsigned_less [of a, where 'a = nat] by (simp add: unsigned_ucast_eq take_bit_nat_eq_self)

lemma ucast_u32_inj: "(ucast (a :: u32) :: u64) = ucast b \<longleftrightarrow> a = b"
  by (metis unat_ucast_u32 unsigned_word_eqI)

lemma write_blocks_good:
  assumes "disk_good (fs_disk w)" and "ext_repr i bl" and "distinct bl" and "distinct ls"
    and "\<forall>l\<in>set ls. l < length bl \<and> l * 512 < length dat"
  shows "\<exists>d. write_blocks i dat ls w = (True, w\<lparr>fs_disk := d\<rparr>) \<and> disk_good d \<and>
    (\<forall>l\<in>set ls. sectors d (ucast (bl ! l)) = chunk dat l) \<and>
    (\<forall>s. s \<notin> (\<lambda>l. ucast (bl ! l)) ` set ls \<longrightarrow> sectors d s = sectors (fs_disk w) s)"
  using assms
proof (induction ls arbitrary: w)
  case Nil
  then show ?case by (intro exI [of _ "fs_disk w"]) simp
next
  case (Cons l ls)
  have len: "length bl < 65536"
    using Cons.prems(2) ext_seq_bound [of 0] unfolding ext_repr_def by fastforce
  have "unat (of_nat l :: u16) = l" using Cons.prems(5) len by (intro unat_of_nat_small) simp
  then have phys: "get_physical_block i (of_nat l) = Some (bl ! l)"
    using get_physical_block_repr [OF Cons.prems(2), of "of_nat l"] Cons.prems(5) by simp
  let ?d = "(fs_disk w)\<lparr>sectors := (sectors (fs_disk w))(ucast (bl ! l) := chunk dat l),
      io_count := Suc (io_count (fs_disk w))\<rparr>"
  have good: "disk_good ?d" using Cons.prems(1) by (simp add: disk_good_write)
  have step: "write_blocks i dat (l # ls) w = write_blocks i dat ls (w\<lparr>fs_disk := ?d\<rparr>)"
    using phys Cons.prems(1,5) chunk_eq [of l dat]
    by (simp add: BLOCK_SIZE_def Let_def disk_write_good)
  obtain d where d: "write_blocks i dat ls (w\<lparr>fs_disk := ?d\<rparr>) = (True, w\<lparr>fs_disk := d\<rparr>)" "disk_good d"
      "\<forall>l\<in>set ls. sectors d (ucast (bl ! l)) = chunk dat l"
      "\<forall>s. s \<notin> (\<lambda>l. ucast (bl ! l)) ` set ls \<longrightarrow> sectors d s = sectors ?d s"
    using Cons.IH [of "w\<lparr>fs_disk := ?d\<rparr>"] Cons.prems good by auto
  have "(ucast (bl ! l) :: u64) \<notin> (\<lambda>l. ucast (bl ! l)) ` set ls"
  proof
    assume "(ucast (bl ! l) :: u64) \<in> (\<lambda>l. ucast (bl ! l)) ` set ls"
    then obtain m where m: "m \<in> set ls" "(ucast (bl ! l) :: u64) = ucast (bl ! m)" by auto
    then have "bl ! l = bl ! m" by (simp add: ucast_u32_inj)
    with m Cons.prems(3-5) show False by (auto simp: nth_eq_iff_index_eq)
  qed
  with d have "sectors d (ucast (bl ! l)) = chunk dat l" by simp
  with d step show ?case by (intro exI [of _ d]) auto
qed

lemma take_chunk: "n \<le> 512 \<Longrightarrow> l * 512 + n \<le> length dat \<Longrightarrow> take n (chunk dat l) = take n (drop (l * 512) dat)"
  by (rule nth_equalityI) (auto simp: chunk_def nth_append)

lemma chunk_prefix:
  assumes "l < blocks_for n" and "n \<le> length dat"
  shows "take (min (n - l * 512) 512) (chunk dat l) = take 512 (drop (l * 512) (take n dat))"
proof -
  have "l * 512 < n" by (rule blocks_for_bounds(1) [OF assms(1)])
  with assms(2) have "take (min (n - l * 512) 512) (chunk dat l) = take (min (n - l * 512) 512) (drop (l * 512) dat)"
    by (intro take_chunk) auto
  also have "\<dots> = take 512 (drop (l * 512) (take n dat))" by (simp add: drop_take min.commute)
  finally show ?thesis .
qed

lemma read_blocks_good:
  assumes "disk_good (fs_disk w)" and "ext_repr i bl" and "length bl = blocks_for (length dat)"
    and "\<forall>l<length bl. take (min (length dat - l * 512) 512) (sectors (fs_disk w) (ucast (bl ! l))) =
      take 512 (drop (l * 512) dat)" and "k \<le> length bl"
  shows "\<exists>c. read_blocks i (length dat) [k..<length bl] (take (k * 512) dat) w =
    (Some dat, w\<lparr>fs_disk := (fs_disk w)\<lparr>io_count := c\<rparr>\<rparr>)"
  using assms
proof (induction "length bl - k" arbitrary: k w)
  case 0
  then have "k = length bl" by simp
  then have "length dat \<le> k * 512" using 0 blocks_for_bounds(2) [of "length dat"] by simp
  with 0 show ?case by (intro exI [of _ "io_count (fs_disk w)"]) simp
next
  case (Suc x)
  then have k: "k < length bl" "x = length bl - Suc k" by simp_all
  then have upt: "[k..<length bl] = k # [Suc k..<length bl]" by (simp add: upt_conv_Cons)
  have len: "length bl < 65536"
    using Suc.prems(2) ext_seq_bound [of 0] unfolding ext_repr_def by fastforce
  have "unat (of_nat k :: u16) = k" using k(1) len by (intro unat_of_nat_small) simp
  then have phys: "get_physical_block i (of_nat k) = Some (bl ! k)"
    using get_physical_block_repr [OF Suc.prems(2), of "of_nat k"] k(1) by simp
  have kd: "k * 512 < length dat" using blocks_for_bounds(1) [of k "length dat"] k(1) Suc.prems(3) by simp
  let ?n = "min (length dat - k * 512) 512"
  have acc: "take (k * 512) dat @ take ?n (sectors (fs_disk w) (ucast (bl ! k))) = take (Suc k * 512) dat"
    using Suc.prems(4) k(1) take_add [of "k * 512" 512 dat] by (simp add: add.commute)
  let ?w = "w\<lparr>fs_disk := (fs_disk w)\<lparr>io_count := Suc (io_count (fs_disk w))\<rparr>\<rparr>"
  have "read_blocks i (length dat) [k..<length bl] (take (k * 512) dat) w =
      read_blocks i (length dat) [Suc k..<length bl] (take (Suc k * 512) dat) ?w"
    unfolding upt using phys Suc.prems(1,4) k(1) kd acc
    by (simp add: BLOCK_SIZE_def Let_def disk_read_good min_def)
  moreover obtain c where "read_blocks i (length dat) [Suc k..<length bl] (take (Suc k * 512) dat) ?w =
      (Some dat, ?w\<lparr>fs_disk := (fs_disk ?w)\<lparr>io_count := c\<rparr>\<rparr>)"
    using Suc.hyps(1) [OF k(2), of ?w] Suc.prems k(1) by auto
  ultimately show ?case by (intro exI [of _ c]) simp
qed

lemma block_range_props:
  assumes "unat start + unat n < 2 ^ 32" and "l < unat n"
  shows "unat (block_range start n ! l) = unat start + l"
proof -
  have "unat (of_nat l :: u32) = l" using assms by (intro unat_of_nat_small) simp
  with assms show ?thesis by (simp add: block_range_def unat_word_ariths)
qed

lemma distinct_block_range:
  assumes "unat start + unat n < 2 ^ 32"
  shows "distinct (block_range start n)"
proof (rule distinct_conv_nth [THEN iffD2], intro allI impI)
  fix a b
  assume "a < length (block_range start n)" "b < length (block_range start n)" "a \<noteq> b"
  then show "block_range start n ! a \<noteq> block_range start n ! b"
    using block_range_props [OF assms, of a] block_range_props [OF assms, of b] by auto
qed

lemma find_contiguous_bounds:
  assumes "psychic w = Some p" and "0 < n" and "find_contiguous_blocks n w = Some start"
  shows "128 \<le> unat start \<and> unat start + n \<le> unat (total_blocks (superblock p)) \<and>
    free_run p n (unat (total_blocks (superblock p))) (unat start)"
proof -
  let ?t = "unat (total_blocks (superblock p))"
  obtain s where s: "start = of_nat s" "List.find (free_run p n ?t) [128..<?t] = Some s"
    using assms find_contiguous_blocks_least [OF assms(1,2)] by auto
  from find_Some_least [OF s(2)] have "128 \<le> s" "s + n \<le> ?t" "free_run p n ?t s"
    by (simp_all add: free_run_def)
  moreover have "?t < 2 ^ 32" using unsigned_less [of "total_blocks (superblock p)", where 'a = nat] by simp
  then have "unat start = s" unfolding s(1) using \<open>s + n \<le> ?t\<close> by (intro unat_of_nat_small) simp
  ultimately show ?thesis by simp
qed

lemma meta_not_table: "m < 256 \<Longrightarrow> INODE_TABLE_START + of_nat (m div 4) \<notin> meta_sectors"
proof -
  assume "m < 256"
  then have "unat (of_nat (m div 4) :: u64) = m div 4" by (intro unat_of_nat_u64) simp
  with \<open>m < 256\<close> have "unat (INODE_TABLE_START + of_nat (m div 4)) = 1 + m div 4" "1 + m div 4 \<le> 64"
    by (simp_all add: INODE_TABLE_START_def unat_word_ariths)
  moreover have "unat SUPERBLOCK_SECTOR = 0" "unat BITMAP_SECTOR = 65" "unat (BITMAP_SECTOR + 1) = 66"
    by (simp_all add: SUPERBLOCK_SECTOR_def BITMAP_SECTOR_def)
  ultimately show ?thesis by (auto simp: meta_sectors_def)
qed

text \<open>The sectors of the data area are neither metadata nor inode table.\<close>

lemma data_sector:
  assumes "128 \<le> unat b"
  shows "ucast (b :: u32) \<notin> meta_sectors" and "m < 256 \<Longrightarrow> ucast b \<noteq> INODE_TABLE_START + of_nat (m div 4)"
proof -
  have b: "unat (ucast b :: u64) = unat b" by (rule unat_ucast_u32)
  have "unat SUPERBLOCK_SECTOR = 0" "unat BITMAP_SECTOR = 65" "unat (BITMAP_SECTOR + 1) = 66"
    by (simp_all add: SUPERBLOCK_SECTOR_def BITMAP_SECTOR_def)
  with b assms show "ucast b \<notin> meta_sectors" by (auto simp: meta_sectors_def)
  assume "m < 256"
  then have "unat (of_nat (m div 4) :: u64) = m div 4" by (intro unat_of_nat_u64) simp
  with \<open>m < 256\<close> have "unat (INODE_TABLE_START + of_nat (m div 4)) \<le> 64"
    by (simp add: INODE_TABLE_START_def unat_word_ariths)
  with b assms show "ucast b \<noteq> INODE_TABLE_START + of_nat (m div 4)" by auto
qed

lemma inode_at_cong:
  "(\<And>m. m < 256 \<Longrightarrow> sectors d' (INODE_TABLE_START + of_nat (m div 4)) = sectors d (INODE_TABLE_START + of_nat (m div 4)))
   \<Longrightarrow> n < 256 \<Longrightarrow> inode_at d' n = inode_at d n"
  by (simp add: inode_at_def)

lemma add_extent_cleared:
  assumes "inode_wf i" and "n \<noteq> 0"
  shows "\<exists>j. add_extent start n (clear_extents i) = Some j \<and> ext_repr j (block_range start n) \<and>
    inode_wf j \<and> in_use j = in_use i \<and> i_name j = i_name i"
proof -
  let ?c = "clear_extents i"
  have ex: "extents ?c = replicate 4 empty_extent"
    using assms(1) by (simp add: clear_extents_def inode_wf_def map_replicate_const)
  have "List.find (\<lambda>k. ext_is_empty (extents ?c ! k)) [0..<length (extents ?c)] = Some 0"
    unfolding ex using find_first_empty [of "[]"] by simp
  then obtain j where j: "add_extent start n ?c = Some j" "in_use j = in_use i" "i_name j = i_name i"
      "length (extents j) = 4" "i_reserved j = i_reserved i"
    unfolding add_extent_def by (simp add: clear_extents_def Let_def) (use ex assms(1) in \<open>auto simp: clear_extents_def inode_wf_def\<close>)
  have "unat n < 65536" using unsigned_less [of n, where 'a = nat] by simp
  then have "ext_repr j ([] @ block_range start n)"
    using add_extent_repr [OF ext_repr_clear assms(2) _ j(1)] assms(1) by (simp add: inode_wf_def)
  with j assms(1) show ?thesis by (auto simp: inode_wf_def)
qed

lemma fs_sync_good:
  assumes "disk_good (fs_disk w)" and "psychic w = Some p" and "fs_ok p"
  shows "\<exists>p' d. fs_sync w = w\<lparr>psychic := Some p', fs_disk := d\<rparr> \<and> disk_good d \<and> fs_ok p' \<and>
    block_bitmap p' = block_bitmap p \<and> total_blocks (superblock p') = total_blocks (superblock p) \<and>
    (\<forall>s. s \<notin> meta_sectors \<longrightarrow> sectors d s = sectors (fs_disk w) s)"
proof -
  obtain ok p' d where s: "sync p (fs_disk w) = (ok, p', d)" by (cases "sync p (fs_disk w)") auto
  from sync_good [OF assms(1,3) s] sync_frame [OF s] assms(2) s show ?thesis
    by (intro exI [of _ p'] exI [of _ d]) (auto simp: fs_sync_def)
qed

text \<open>The second half of a write, once the inode describes the blocks \<open>bl\<close> of the data area.\<close>

definition store_contents :: "u8 list \<Rightarrow> nat \<Rightarrow> inode \<Rightarrow> u8 list \<Rightarrow> fs_world \<Rightarrow> bool \<times> fs_world" where
  "store_contents past n i dat w =
     (case write_blocks i dat [0..<blocks_for (length dat)] w of (ok, w2) \<Rightarrow>
        if \<not> ok then (False, w2)
        else (case write_inode past (of_nat n) (i\<lparr>i_size := of_nat (length dat),
                     modified_time := ticks w2, i_dirty := 1\<rparr>) w2 of
                (r, w3) \<Rightarrow> (r, if r then fs_sync w3 else w3)))"

definition stored_inode :: "inode \<Rightarrow> u8 list \<Rightarrow> u64 \<Rightarrow> inode" where
  "stored_inode i dat t = i\<lparr>i_size := of_nat (length dat), modified_time := t, i_dirty := 1\<rparr>"

lemma store_contents_steps:
  assumes "disk_good (fs_disk w)" and "psychic w = Some p" and "fs_ok p" and "ext_repr i bl" and "distinct bl"
    and "length bl = blocks_for (length dat)" and "n < 256" and "inode_wf i" and "length past = 8"
  shows "\<exists>d2 d4 p'. store_contents past n i dat w = (True, w\<lparr>fs_disk := d4, psychic := Some p'\<rparr>) \<and>
    disk_good d2 \<and> disk_good d4 \<and> fs_ok p' \<and> block_bitmap p' = block_bitmap p \<and>
    total_blocks (superblock p') = total_blocks (superblock p) \<and>
    (\<forall>l<length bl. sectors d2 (ucast (bl ! l)) = chunk dat l) \<and>
    (\<forall>s. s \<notin> ucast ` set bl \<longrightarrow> sectors d2 s = sectors (fs_disk w) s) \<and>
    (\<forall>s. s \<notin> meta_sectors \<longrightarrow> sectors d4 s = sectors (with_inode n (stored_inode i dat (ticks w)) d2) s)"
proof -
  let ?k = "blocks_for (length dat)"
  have img: "(\<lambda>l. ucast (bl ! l)) ` set [0..<?k] = ucast ` set bl"
    using assms(6) by (force simp: in_set_conv_nth)
  obtain d2 where d2: "write_blocks i dat [0..<?k] w = (True, w\<lparr>fs_disk := d2\<rparr>)" "disk_good d2"
      "\<forall>l<length bl. sectors d2 (ucast (bl ! l)) = chunk dat l"
      "\<forall>s. s \<notin> ucast ` set bl \<longrightarrow> sectors d2 s = sectors (fs_disk w) s"
    using write_blocks_good [OF assms(1,4,5), of "[0..<?k]" dat] assms(6) blocks_for_bounds(1)
    unfolding img by auto
  let ?w2 = "w\<lparr>fs_disk := d2\<rparr>" and ?j = "stored_inode i dat (ticks w)"
  have j: "inode_wf ?j" using assms(8) by (simp add: stored_inode_def inode_wf_def)
  obtain c where wi: "write_inode past (of_nat n) ?j ?w2 = (True, ?w2\<lparr>fs_disk := (with_inode n ?j d2)\<lparr>io_count := c\<rparr>\<rparr>)"
    using write_inode_good [of ?w2 past ?j n] d2(2) assms(7,9) j by auto
  let ?w3 = "?w2\<lparr>fs_disk := (with_inode n ?j d2)\<lparr>io_count := c\<rparr>\<rparr>"
  have "disk_good (fs_disk ?w3)" using with_inode_good [OF d2(2) j] by simp
  then obtain p4 d4 where f: "fs_sync ?w3 = ?w3\<lparr>psychic := Some p4, fs_disk := d4\<rparr>" "disk_good d4" "fs_ok p4"
      "block_bitmap p4 = block_bitmap p" "total_blocks (superblock p4) = total_blocks (superblock p)"
      "\<forall>s. s \<notin> meta_sectors \<longrightarrow> sectors d4 s = sectors (fs_disk ?w3) s"
    using fs_sync_good [of ?w3 p] assms(2,3) by auto
  have "store_contents past n i dat w = (True, w\<lparr>fs_disk := d4, psychic := Some p4\<rparr>)"
    using d2(1) wi f(1) by (simp add: store_contents_def stored_inode_def)
  with f d2 show ?thesis by (intro exI [of _ d2] exI [of _ d4] exI [of _ p4]) simp
qed

lemma store_contents_good:
  assumes "disk_good (fs_disk w)" and "psychic w = Some p" and "fs_ok p" and "ext_repr i bl" and "distinct bl"
    and "length bl = blocks_for (length dat)" and "n < 256" and "inode_wf i" and "length past = 8"
    and high: "\<forall>b\<in>set bl. 128 \<le> unat b"
  shows "\<exists>d p'. store_contents past n i dat w = (True, w\<lparr>fs_disk := d, psychic := Some p'\<rparr>) \<and>
    disk_good d \<and> fs_ok p' \<and> block_bitmap p' = block_bitmap p \<and>
    total_blocks (superblock p') = total_blocks (superblock p) \<and>
    (\<forall>m<256. inode_at d m = (if m = n then core (stored_inode i dat (ticks w)) else inode_at (fs_disk w) m)) \<and>
    (\<forall>l<length bl. sectors d (ucast (bl ! l)) = chunk dat l)"
proof -
  let ?j = "stored_inode i dat (ticks w)"
  have j: "inode_wf ?j" using assms(8) by (simp add: stored_inode_def inode_wf_def)
  obtain d2 d4 p' where s: "store_contents past n i dat w = (True, w\<lparr>fs_disk := d4, psychic := Some p'\<rparr>)"
    "disk_good d2" "disk_good d4" "fs_ok p'" "block_bitmap p' = block_bitmap p"
    "total_blocks (superblock p') = total_blocks (superblock p)"
    "\<forall>l<length bl. sectors d2 (ucast (bl ! l)) = chunk dat l"
    "\<forall>s. s \<notin> ucast ` set bl \<longrightarrow> sectors d2 s = sectors (fs_disk w) s"
    "\<forall>s. s \<notin> meta_sectors \<longrightarrow> sectors d4 s = sectors (with_inode n ?j d2) s"
    using store_contents_steps [OF assms(1-9)] by blast
  have "inode_at d4 m = (if m = n then core ?j else inode_at (fs_disk w) m)" if m: "m < 256" for m
  proof -
    have "inode_at d4 m = inode_at (with_inode n ?j d2) m"
      using s(9) meta_not_table [OF m] by (simp add: inode_at_def)
    moreover have "INODE_TABLE_START + of_nat (m div 4) \<notin> ucast ` set bl"
      using data_sector(2) high m by force
    then have "inode_at d2 m = inode_at (fs_disk w) m" using s(8) by (simp add: inode_at_def)
    ultimately show ?thesis using inode_at_with_inode [OF s(2) j assms(7) m] by simp
  qed
  moreover have "sectors d4 (ucast (bl ! l)) = chunk dat l" if l: "l < length bl" for l
  proof -
    have b: "128 \<le> unat (bl ! l)" using high l by simp
    have "sectors d4 (ucast (bl ! l)) = sectors (with_inode n ?j d2) (ucast (bl ! l))"
      using s(9) data_sector(1) [OF b] by blast
    also have "\<dots> = sectors d2 (ucast (bl ! l))"
      using data_sector(2) [OF b assms(7)] by (simp add: with_inode_def Let_def)
    finally show ?thesis using s(7) l by simp
  qed
  ultimately show ?thesis using s by (intro exI [of _ d4] exI [of _ p']) simp
qed

lemma allocate_loop_run:
  assumes "psychic v = Some p" and "fs_ok p" and "find_contiguous_blocks k v = Some start"
    and "0 < k" and "k < 65536" and "inode_wf i"
  shows "\<exists>p1 j. allocate_loop k 0 (clear_extents i) v = (Some j, v\<lparr>psychic := Some p1\<rparr>) \<and> fs_ok p1 \<and>
    total_blocks (superblock p1) = total_blocks (superblock p) \<and>
    (\<forall>b. is_block_allocated p1 b \<longleftrightarrow> is_block_allocated p b \<or>
       (128 + unat start \<le> unat b \<and> unat b < 128 + unat start + k)) \<and>
    ext_repr j (block_range start (of_nat k)) \<and> inode_wf j \<and> in_use j = in_use i \<and> i_name j = i_name i \<and>
    unat start + unat (of_nat k :: u16) < 2 ^ 32 \<and> 128 \<le> unat start"
proof -
  have k16: "unat (of_nat k :: u16) = k" using assms(5) by (intro unat_of_nat_small) simp
  then have k0: "(of_nat k :: u16) \<noteq> 0" using assms(4) by (metis neq0_conv unat_0)
  note run = find_contiguous_bounds [OF assms(1,4,3)]
  then have fits: "unat start + unat (of_nat k :: u16) < 2 ^ 32"
    using k16 unsigned_less [of "total_blocks (superblock p)", where 'a = nat] by simp
  obtain p1 where p1: "allocate_contiguous_blocks start (of_nat k) v = (True, v\<lparr>psychic := Some p1\<rparr>)" "fs_ok p1"
      "total_blocks (superblock p1) = total_blocks (superblock p)"
      "\<forall>b. is_block_allocated p1 b \<longleftrightarrow> is_block_allocated p b \<or>
         (128 + unat start \<le> unat b \<and> unat b < 128 + unat start + k)"
    using allocate_contiguous_blocks_effect [OF assms(1,2) fits] k16 by auto
  obtain j where j: "add_extent start (of_nat k) (clear_extents i) = Some j"
      "ext_repr j (block_range start (of_nat k))" "inode_wf j" "in_use j = in_use i" "i_name j = i_name i"
    using add_extent_cleared [OF assms(6) k0] by blast
  have "allocate_loop k 0 (clear_extents i) v = (Some j, v\<lparr>psychic := Some p1\<rparr>)"
    using assms(3-5) p1(1) j(1)
    by (subst allocate_loop.simps) (simp add: Let_def min_def allocate_loop.simps [of k k])
  with p1 j fits run show ?thesis by blast
qed

text \<open>
  Writing a file whose blocks fit a contiguous run: the data is in the run, the inode describes it,
  every other inode is unchanged, and the blocks marked as used are those 128 after the run.
\<close>

lemma write_contents_run:
  assumes "disk_good (fs_disk v)" and "psychic v = Some p" and "fs_ok p" and "free_extents i w = v"
    and "find_contiguous_blocks (blocks_for (length dat)) v = Some start"
    and "0 < blocks_for (length dat)" and "blocks_for (length dat) < 65536"
    and "n < 256" and "inode_wf i" and "length past = 8"
  shows "\<exists>d p' j. write_contents past (of_nat n) i dat w = (True, v\<lparr>fs_disk := d, psychic := Some p'\<rparr>) \<and>
    disk_good d \<and> fs_ok p' \<and> total_blocks (superblock p') = total_blocks (superblock p) \<and>
    (\<forall>b. is_block_allocated p' b \<longleftrightarrow> is_block_allocated p b \<or>
       (128 + unat start \<le> unat b \<and> unat b < 128 + unat start + blocks_for (length dat))) \<and>
    (\<forall>m<256. inode_at d m = (if m = n then j else inode_at (fs_disk v) m)) \<and>
    in_use j = in_use i \<and> get_name j = get_name i \<and> unat (i_size j) = length dat \<and>
    ext_repr j (block_range start (of_nat (blocks_for (length dat)))) \<and>
    (\<forall>l<blocks_for (length dat). sectors d (ucast (start + of_nat l)) = chunk dat l)"
proof -
  let ?k = "blocks_for (length dat)" and ?bl = "block_range start (of_nat (blocks_for (length dat)))"
  obtain p1 i1 where a: "allocate_loop ?k 0 (clear_extents i) v = (Some i1, v\<lparr>psychic := Some p1\<rparr>)" "fs_ok p1"
    "total_blocks (superblock p1) = total_blocks (superblock p)"
    "\<forall>b. is_block_allocated p1 b \<longleftrightarrow> is_block_allocated p b \<or>
       (128 + unat start \<le> unat b \<and> unat b < 128 + unat start + ?k)"
    "ext_repr i1 ?bl" "inode_wf i1" "in_use i1 = in_use i" "i_name i1 = i_name i"
    "unat start + unat (of_nat ?k :: u16) < 2 ^ 32" "128 \<le> unat start"
    using allocate_loop_run [OF assms(2,3,5-7,9)] by blast
  have k16: "unat (of_nat ?k :: u16) = ?k" using assms(7) by (intro unat_of_nat_small) simp
  have bl: "length ?bl = ?k" "distinct ?bl" "\<forall>b\<in>set ?bl. 128 \<le> unat b"
    using k16 distinct_block_range [OF a(9)] block_range_props [OF a(9)] a(10)
    by (auto simp: in_set_conv_nth)
  obtain d p' where s: "store_contents past n i1 dat (v\<lparr>psychic := Some p1\<rparr>) =
      (True, v\<lparr>psychic := Some p1\<rparr>\<lparr>fs_disk := d, psychic := Some p'\<rparr>)"
    "disk_good d" "fs_ok p'" "block_bitmap p' = block_bitmap p1"
    "total_blocks (superblock p') = total_blocks (superblock p1)"
    "\<forall>m<256. inode_at d m = (if m = n then core (stored_inode i1 dat (ticks v)) else inode_at (fs_disk v) m)"
    "\<forall>l<?k. sectors d (ucast (?bl ! l)) = chunk dat l"
    using store_contents_good [of "v\<lparr>psychic := Some p1\<rparr>" p1 i1 ?bl dat n past] assms(1,8,10) a(2,5,6) bl
    by auto
  have "write_contents past (of_nat n) i dat w = store_contents past n i1 dat (v\<lparr>psychic := Some p1\<rparr>)"
    using assms(4,6) a(1) by (simp add: write_contents_def store_contents_def Let_def)
  moreover have "length dat < 2 ^ 32" using blocks_for_bounds(2) [of "length dat"] assms(7) by simp
  then have "unat (i_size (core (stored_inode i1 dat (ticks v)))) = length dat"
    by (simp add: stored_inode_def unat_of_nat_small)
  moreover have "?bl ! l = start + of_nat l" if "l < ?k" for l using that k16 by (simp add: block_range_def)
  moreover have "is_block_allocated p' b = is_block_allocated p1 b" for b
    using s(4) by (simp add: is_block_allocated_iff)
  ultimately show ?thesis
    using s a(3-8)
    by (intro exI [of _ d] exI [of _ p'] exI [of _ "core (stored_inode i1 dat (ticks v))"])
      (simp add: stored_inode_def ext_repr_def get_name_def core_def)
qed

section \<open>Releasing blocks\<close>

text \<open>On a good disk, what releasing does to the state in memory does not depend on the disk.\<close>

definition cleaned :: "psychicfs \<Rightarrow> psychicfs" where
  "cleaned p = p\<lparr>bitmap_dirty := False, superblock_dirty := False,
     superblock := if superblock_dirty p then (superblock p)\<lparr>sb_dirty := 0\<rparr> else superblock p\<rparr>"

lemma sync_cleaned:
  assumes "disk_good d" and "fs_ok p"
  shows "\<exists>d'. sync p d = (True, cleaned p, d') \<and> disk_good d' \<and>
    (\<forall>s. s \<notin> meta_sectors \<longrightarrow> sectors d' s = sectors d s)"
proof -
  obtain ok p' d' where s: "sync p d = (ok, p', d')" by (cases "sync p d") auto
  have ok: "ok" using sync_good [OF assms s] by simp
  obtain ok1 p1 d1 where 1: "sync_bitmap p d = (ok1, p1, d1)" by (cases "sync_bitmap p d") auto
  obtain ok2 p2 d2 where 2: "sync_superblock p1 d1 = (ok2, p2, d2)" by (cases "sync_superblock p1 d1") auto
  have "ok1" "ok2" "p' = p2" using s ok 1 2 assms(2) by (auto simp: sync_def fs_ok_def split: if_splits)
  moreover have "ok1 \<Longrightarrow> p1 = p\<lparr>bitmap_dirty := False\<rparr>"
    using 1 by (auto simp: sync_bitmap_def split: prod.splits if_splits)
  ultimately have "p' = cleaned p"
    using 2 by (auto simp: sync_superblock_def cleaned_def Let_def split: prod.splits if_splits)
  with s ok sync_good [OF assms s] sync_frame(2) [OF s] show ?thesis
    by (intro exI [of _ d']) simp
qed

definition released :: "u32 \<Rightarrow> psychicfs \<Rightarrow> psychicfs" where
  "released b p =
     (if 128 \<le> unat b \<and> unat b < 8320 \<and> is_block_allocated p b
      then cleaned (mark_dirty (p\<lparr>block_bitmap := bm_clear (block_bitmap p) (unat b - 128),
        superblock := (superblock p)\<lparr>free_blocks := free_blocks (superblock p) + 1\<rparr>\<rparr>))
      else p)"

lemma free_block_good:
  assumes "disk_good (fs_disk w)" and "psychic w = Some p" and "fs_ok p"
  shows "\<exists>d. free_block b w = w\<lparr>fs_disk := d, psychic := Some (released b p)\<rparr> \<and> disk_good d \<and>
    (\<forall>s. s \<notin> meta_sectors \<longrightarrow> sectors d s = sectors (fs_disk w) s)"
proof (cases "128 \<le> unat b \<and> unat b < 8320 \<and> is_block_allocated p b")
  case True
  let ?p1 = "mark_dirty (p\<lparr>block_bitmap := bm_clear (block_bitmap p) (unat b - 128),
      superblock := (superblock p)\<lparr>free_blocks := free_blocks (superblock p) + 1\<rparr>\<rparr>)"
  have "fs_ok ?p1" using assms(3) by (simp add: fs_ok_def mark_dirty_def)
  then obtain d where d: "sync ?p1 (fs_disk w) = (True, cleaned ?p1, d)" "disk_good d"
      "\<forall>s. s \<notin> meta_sectors \<longrightarrow> sectors d s = sectors (fs_disk w) s"
    using sync_cleaned [OF assms(1)] by blast
  have idx: "unat (b - DATA_BLOCKS_START) = unat b - 128" "\<not> b < DATA_BLOCKS_START"
    using True by (simp_all add: DATA_BLOCKS_START_def unat_sub word_le_nat_alt word_less_nat_alt)
  have "(unat b - 128) div 8 < 1024" using True by linarith
  moreover have "block_bitmap p ! ((unat b - 128) div 8) AND push_bit ((unat b - 128) mod 8) 1 \<noteq> 0"
    using True by (auto simp: is_block_allocated_iff bm_test_def)
  ultimately have "free_block b w = w\<lparr>fs_disk := d, psychic := Some (cleaned ?p1)\<rparr>"
    using assms(2) d(1) by (simp only: free_block_def option.case idx Let_def if_True if_False prod.case)
  with True d show ?thesis by (intro exI [of _ d]) (simp add: released_def)
next
  case False
  then have "free_block b w = w"
    using assms(2) unfolding free_block_def DATA_BLOCKS_START_def is_block_allocated_def
    by (auto simp: Let_def word_less_nat_alt unat_sub word_le_nat_alt)
  with False assms show ?thesis by (intro exI [of _ "fs_disk w"]) (auto simp: released_def)
qed

lemma released_ok: "fs_ok p \<Longrightarrow> fs_ok (released b p)"
  by (simp add: released_def cleaned_def mark_dirty_def fs_ok_def)

lemma fold_free_block_good:
  assumes "disk_good (fs_disk w)" and "psychic w = Some p" and "fs_ok p"
  shows "\<exists>d. fold free_block bs w = w\<lparr>fs_disk := d, psychic := Some (fold released bs p)\<rparr> \<and> disk_good d \<and>
    fs_ok (fold released bs p) \<and> (\<forall>s. s \<notin> meta_sectors \<longrightarrow> sectors d s = sectors (fs_disk w) s)"
  using assms
proof (induction bs arbitrary: w p)
  case Nil
  then show ?case by (intro exI [of _ "fs_disk w"]) simp
next
  case (Cons b bs)
  obtain d1 where d1: "free_block b w = w\<lparr>fs_disk := d1, psychic := Some (released b p)\<rparr>" "disk_good d1"
      "\<forall>s. s \<notin> meta_sectors \<longrightarrow> sectors d1 s = sectors (fs_disk w) s"
    using free_block_good [OF Cons.prems] by blast
  from Cons.IH [of "w\<lparr>fs_disk := d1, psychic := Some (released b p)\<rparr>" "released b p"] d1 Cons.prems(3)
  show ?case by (auto simp: released_ok)
qed

definition extent_blocks :: "inode \<Rightarrow> u32 list" where
  "extent_blocks i = concat (map ext_blocks (extents i))"

lemma fold_concat_blocks: "fold f (concat xss) s = fold (fold f) xss s"
  by (induction xss arbitrary: s) simp_all

lemma free_extents_fold: "free_extents i w = fold free_block (extent_blocks i) w"
proof -
  have "(if ext_is_empty e then w else free_block_range (physical_block e) (ext_count e) w) =
      fold free_block (ext_blocks e) w" for e w
    by (simp add: ext_is_empty_def ext_blocks_def free_block_range_def fold_map o_def)
  then show ?thesis
    by (simp add: free_extents_def extent_blocks_def fold_concat_blocks fold_map o_def)
qed

lemma free_extents_good:
  assumes "disk_good (fs_disk w)" and "psychic w = Some p" and "fs_ok p"
  shows "\<exists>d. free_extents i w = w\<lparr>fs_disk := d, psychic := Some (fold released (extent_blocks i) p)\<rparr> \<and>
    disk_good d \<and> fs_ok (fold released (extent_blocks i) p) \<and>
    (\<forall>s. s \<notin> meta_sectors \<longrightarrow> sectors d s = sectors (fs_disk w) s)"
  unfolding free_extents_fold by (rule fold_free_block_good [OF assms])

lemma find_contiguous_psychic:
  "psychic w = psychic w' \<Longrightarrow> find_contiguous_blocks n w = find_contiguous_blocks n w'"
  by (simp add: find_contiguous_blocks_def)

section \<open>Reading back\<close>

lemma fs_read_good:
  assumes "disk_good (fs_disk w)" and "length past = 8" and "lookup (fs_disk w) name = Some n"
    and "ext_repr (inode_at (fs_disk w) n) bl" and "unat (i_size (inode_at (fs_disk w) n)) = length dat"
    and "length bl = blocks_for (length dat)"
    and "\<forall>l<length bl. take (min (length dat - l * 512) 512) (sectors (fs_disk w) (ucast (bl ! l))) =
      take 512 (drop (l * 512) dat)"
  shows "fst (fs_read past name w) = Some dat"
proof -
  let ?i = "table_inode past (fs_disk w) n"
  have core: "core ?i = inode_at (fs_disk w) n" by (rule core_table_inode [OF assms(1,2)])
  then have i: "ext_repr ?i bl" "unat (i_size ?i) = length dat"
    using assms(4,5) by (metis core_simps(11), metis core_simps(2))
  obtain k where "find_inode_by_name past name w = (Some (of_nat n, ?i), w\<lparr>fs_disk := (fs_disk w)\<lparr>io_count := k\<rparr>\<rparr>)"
    using find_inode_by_name_good [OF assms(1,2), of name] assms(3) by auto
  moreover have "\<exists>c. read_blocks ?i (length dat) [0..<length bl] (take (0 * 512) dat) (w\<lparr>fs_disk := (fs_disk w)\<lparr>io_count := k\<rparr>\<rparr>) =
      (Some dat, w\<lparr>fs_disk := (fs_disk w)\<lparr>io_count := c\<rparr>\<rparr>)"
    using read_blocks_good [of "w\<lparr>fs_disk := (fs_disk w)\<lparr>io_count := k\<rparr>\<rparr>" ?i bl dat 0] assms(1,6,7) i(1) by auto
  ultimately show ?thesis
    using i(2) assms(6) by (auto simp: fs_read_def unat_eq_0 [symmetric] simp del: unat_eq_0)
qed

end
