(* ===== verification/Fs_Theorems.thy ===== *)
theory Fs_Theorems
  imports Fs_Files
begin

text \<open>
  The properties of PsychicFS: the directory operations, what a read returns after a write, the
  allocation of blocks under disk failures, the first-fit search, the extents of an inode, and the
  consequence of marking the wrong bitmap bits: files written one after the other share their blocks.
\<close>

section \<open>Lookups after an update of one slot\<close>

definition slot_updated :: "fs_io \<Rightarrow> fs_io \<Rightarrow> nat \<Rightarrow> inode \<Rightarrow> bool" where
  "slot_updated d d' n j \<longleftrightarrow> (\<forall>m<256. inode_at d' m = (if m = n then j else inode_at d m))"

lemma lookup_updated:
  assumes "slot_updated d d' n j" and "n < 256" and "in_use j \<noteq> 0"
    and "\<forall>m<256. m \<noteq> n \<longrightarrow> in_use (inode_at d m) = 0 \<or> get_name (inode_at d m) \<noteq> get_name j"
  shows "lookup d' (get_name j) = Some n"
  unfolding lookup_def using assms
  by (intro find_upt_Some) (auto simp: slot_updated_def)

lemma lookup_updated_other:
  assumes "slot_updated d d' n j" and "name \<noteq> get_name j \<or> in_use j = 0"
    and "in_use (inode_at d n) = 0 \<or> get_name (inode_at d n) \<noteq> name"
  shows "lookup d' name = lookup d name"
  unfolding lookup_def using assms
  by (intro find_cong_set) (auto simp: slot_updated_def)


lemma slot_updated_with_inode:
  "disk_good d \<Longrightarrow> inode_wf i \<Longrightarrow> n < 256 \<Longrightarrow> slot_updated d ((with_inode n i d)\<lparr>io_count := k\<rparr>) n (core i)"
  by (simp add: slot_updated_def inode_at_with_inode)

section \<open>Writing a file\<close>

definition valid_name :: "u8 list \<Rightarrow> bool" where
  "valid_name name \<longleftrightarrow> length name < 48 \<and> 0 \<notin> set name \<and> utf8_valid name"

text \<open>The outcome of a write of \<open>dat\<close> into slot \<open>n\<close> from block \<open>start\<close>.\<close>

definition written :: "fs_world \<Rightarrow> psychicfs \<Rightarrow> u8 list \<Rightarrow> u8 list \<Rightarrow> u32 \<Rightarrow> nat \<Rightarrow> fs_world \<Rightarrow> bool" where
  "written w p name dat start n w' \<longleftrightarrow>
     (\<exists>p' j. disk_good (fs_disk w') \<and> psychic w' = Some p' \<and> fs_ok p' \<and>
        total_blocks (superblock p') = total_blocks (superblock p) \<and>
        (\<forall>b. is_block_allocated p' b \<longleftrightarrow> is_block_allocated p b \<or>
           (128 + unat start \<le> unat b \<and> unat b < 128 + unat start + blocks_for (length dat))) \<and>
        slot_updated (fs_disk w) (fs_disk w') n j \<and> in_use j \<noteq> 0 \<and> get_name j = name \<and>
        unat (i_size j) = length dat \<and> ext_repr j (block_range start (of_nat (blocks_for (length dat)))) \<and>
        (\<forall>l<blocks_for (length dat). sectors (fs_disk w') (ucast (start + of_nat l)) = chunk dat l))"

lemma write_contents_written:
  assumes "disk_good (fs_disk w)" and "psychic w = Some p" and "fs_ok p" and "length past = 8"
    and "q = fold released (extent_blocks i) p"
    and "find_contiguous_blocks (blocks_for (length dat)) (w\<lparr>psychic := Some q\<rparr>) = Some start"
    and "dat \<noteq> []" and "blocks_for (length dat) < 65536" and "n < 256" and "inode_wf i"
    and "in_use i \<noteq> 0" and "get_name i = name"
  shows "\<exists>w'. write_contents past (of_nat n) i dat w = (True, w') \<and> written w q name dat start n w'"
proof -
  obtain d where v: "free_extents i w = w\<lparr>fs_disk := d, psychic := Some q\<rparr>" "disk_good d" "fs_ok q"
      "\<forall>s. s \<notin> meta_sectors \<longrightarrow> sectors d s = sectors (fs_disk w) s"
    using free_extents_good [OF assms(1-3), of i] assms(5) by auto
  let ?v = "w\<lparr>fs_disk := d, psychic := Some q\<rparr>"
  have find: "find_contiguous_blocks (blocks_for (length dat)) ?v = Some start"
    using assms(6) find_contiguous_psychic [of ?v "w\<lparr>psychic := Some q\<rparr>"] by simp
  have "0 < blocks_for (length dat)" using blocks_for_bounds(3) [of "length dat"] assms(7) by simp
  with write_contents_run [of ?v q i w dat start n past] v find assms(4,8-10) obtain d' p' j where
    r: "write_contents past (of_nat n) i dat w = (True, ?v\<lparr>fs_disk := d', psychic := Some p'\<rparr>)"
    "disk_good d'" "fs_ok p'" "total_blocks (superblock p') = total_blocks (superblock q)"
    "\<forall>b. is_block_allocated p' b \<longleftrightarrow> is_block_allocated q b \<or>
       (128 + unat start \<le> unat b \<and> unat b < 128 + unat start + blocks_for (length dat))"
    "\<forall>m<256. inode_at d' m = (if m = n then j else inode_at d m)"
    "in_use j = in_use i" "get_name j = get_name i" "unat (i_size j) = length dat"
    "ext_repr j (block_range start (of_nat (blocks_for (length dat))))"
    "\<forall>l<blocks_for (length dat). sectors d' (ucast (start + of_nat l)) = chunk dat l"
    by auto
  have "inode_at d m = inode_at (fs_disk w) m" if "m < 256" for m
    using v(4) meta_not_table [OF that] by (simp add: inode_at_def)
  with r(6) have "slot_updated (fs_disk w) d' n j" by (simp add: slot_updated_def)
  then have "written w q name dat start n (?v\<lparr>fs_disk := d', psychic := Some p'\<rparr>)"
    unfolding written_def using r(2-5,7-11) assms(11,12) by (intro exI [of _ p'] exI [of _ j]) simp
  with r(1) show ?thesis by blast
qed

lemma extent_blocks_created: "extent_blocks (core (created_inode name t)) = []"
  by (simp add: extent_blocks_def created_inode_fields ext_blocks_def empty_extent_def)

lemma written_count: "written (w\<lparr>fs_disk := (fs_disk w)\<lparr>io_count := k\<rparr>\<rparr>) = written w"
  by (simp add: written_def fun_eq_iff slot_updated_def)

lemma extent_blocks_core: "extent_blocks (core i) = extent_blocks i"
  by (simp add: extent_blocks_def)

lemma fs_write_existing:
  assumes "disk_good (fs_disk w)" and "psychic w = Some p" and "fs_ok p" and "length past = 8"
    and "lookup (fs_disk w) name = Some n"
    and "q = fold released (extent_blocks (inode_at (fs_disk w) n)) p"
    and "find_contiguous_blocks (blocks_for (length dat)) (w\<lparr>psychic := Some q\<rparr>) = Some start"
    and "dat \<noteq> []" and "blocks_for (length dat) < 65536"
  shows "\<exists>w'. fs_write past name dat w = (True, w') \<and> written w q name dat start n w'"
proof -
  let ?i = "table_inode past (fs_disk w) n"
  obtain k where find: "find_inode_by_name past name w =
      (Some (of_nat n, ?i), w\<lparr>fs_disk := (fs_disk w)\<lparr>io_count := k\<rparr>\<rparr>)"
    using find_inode_by_name_good [OF assms(1,4), of name] assms(5) by auto
  let ?w = "w\<lparr>fs_disk := (fs_disk w)\<lparr>io_count := k\<rparr>\<rparr>"
  note core = core_table_inode [OF assms(1,4), of n] and n = lookup_Some [OF assms(5)]
  have i: "in_use ?i \<noteq> 0" "get_name ?i = name" "extent_blocks ?i = extent_blocks (inode_at (fs_disk w) n)"
    using core n by (metis core_simps(1), metis core_simps(5), metis extent_blocks_core)
  have "find_contiguous_blocks (blocks_for (length dat)) (?w\<lparr>psychic := Some q\<rparr>) = Some start"
    using assms(7) find_contiguous_psychic [of "?w\<lparr>psychic := Some q\<rparr>" "w\<lparr>psychic := Some q\<rparr>"] by simp
  then obtain w' where "write_contents past (of_nat n) ?i dat ?w = (True, w')" "written ?w q name dat start n w'"
    using write_contents_written [of ?w p past q ?i dat start n name] assms i n
      table_inode_wf [OF assms(1,4), of n] by auto
  with find show ?thesis by (simp add: fs_write_def written_count)
qed

lemma fs_create_updated:
  assumes "disk_good (fs_disk w)" and "length past = 8" and "valid_name name"
    and "lookup (fs_disk w) name = None" and "free_slot (fs_disk w) = Some n"
  shows "\<exists>d. fs_create past name w = (True, w\<lparr>fs_disk := d\<rparr>) \<and> disk_good d \<and>
    slot_updated (fs_disk w) d n (core (created_inode name (ticks w))) \<and> lookup d name = Some n"
proof -
  let ?i = "created_inode name (ticks w)"
  note n = free_slot_Some [OF assms(5)]
  obtain k where k: "fs_create past name w = (True, w\<lparr>fs_disk := (with_inode n ?i (fs_disk w))\<lparr>io_count := k\<rparr>\<rparr>)"
    using fs_create_good [OF assms(1,2), of name] assms(3-5) by (auto simp: valid_name_def)
  let ?d = "(with_inode n ?i (fs_disk w))\<lparr>io_count := k\<rparr>"
  have upd: "slot_updated (fs_disk w) ?d n (core ?i)"
    using slot_updated_with_inode [OF assms(1)] created_inode_fields(1) n by blast
  moreover have "get_name (core ?i) = name" "in_use (core ?i) \<noteq> 0"
    using created_inode_name [of name "ticks w"] assms(3) created_inode_fields(2) [of name "ticks w"]
    by (simp_all add: valid_name_def)
  ultimately have "lookup ?d name = Some n"
    using lookup_updated [OF upd] n assms(4) unfolding lookup_None by auto
  moreover have "disk_good ?d" using with_inode_good [OF assms(1)] created_inode_fields(1) by simp
  ultimately show ?thesis using k upd by blast
qed

lemma slot_updated_twice: "slot_updated d d1 n i \<Longrightarrow> slot_updated d1 d2 n j \<Longrightarrow> slot_updated d d2 n j"
  by (simp add: slot_updated_def)

lemma fs_write_new:
  assumes "disk_good (fs_disk w)" and "psychic w = Some p" and "fs_ok p" and "length past = 8"
    and "valid_name name" and "lookup (fs_disk w) name = None" and "free_slot (fs_disk w) = Some n"
    and "find_contiguous_blocks (blocks_for (length dat)) w = Some start"
    and "dat \<noteq> []" and "blocks_for (length dat) < 65536"
  shows "\<exists>w'. fs_write past name dat w = (True, w') \<and> written w p name dat start n w'"
proof -
  obtain k where find: "find_inode_by_name past name w = (None, w\<lparr>fs_disk := (fs_disk w)\<lparr>io_count := k\<rparr>\<rparr>)"
    using find_inode_by_name_good [OF assms(1,4), of name] assms(6) by auto
  let ?w = "w\<lparr>fs_disk := (fs_disk w)\<lparr>io_count := k\<rparr>\<rparr>"
  obtain d where c: "fs_create past name ?w = (True, ?w\<lparr>fs_disk := d\<rparr>)" "disk_good d"
      "slot_updated (fs_disk w) d n (core (created_inode name (ticks w)))" "lookup d name = Some n"
    using fs_create_updated [of ?w past name n] assms(1,4-7) by (auto simp: slot_updated_def)
  have "inode_at d n = core (created_inode name (ticks w))"
    using c(3) free_slot_Some [OF assms(7)] by (simp add: slot_updated_def)
  then have "fold released (extent_blocks (inode_at d n)) p = p" by (simp add: extent_blocks_created)
  moreover have "find_contiguous_blocks (blocks_for (length dat)) (?w\<lparr>fs_disk := d, psychic := Some p\<rparr>) = Some start"
    using assms(2,8) find_contiguous_psychic [of "?w\<lparr>fs_disk := d, psychic := Some p\<rparr>" w] by simp
  ultimately obtain w' where w': "fs_write past name dat (?w\<lparr>fs_disk := d\<rparr>) = (True, w')"
      "written (?w\<lparr>fs_disk := d\<rparr>) p name dat start n w'"
    using fs_write_existing [of "?w\<lparr>fs_disk := d\<rparr>" p past name n p dat start] c assms(2-4,9,10) by auto
  have "fs_write past name dat w = fs_write past name dat (?w\<lparr>fs_disk := d\<rparr>)"
  proof -
    obtain r w3 where "find_inode_by_name past name (?w\<lparr>fs_disk := d\<rparr>) = (Some r, w3)"
      using find_inode_by_name_good [of "?w\<lparr>fs_disk := d\<rparr>" past name] c(2,4) assms(4) by auto
    with find c(1) show ?thesis by (cases r) (simp add: fs_write_def)
  qed
  moreover have "written w p name dat start n w'"
    using w'(2) slot_updated_twice [OF c(3)] unfolding written_def by auto
  ultimately show ?thesis using w'(1) by auto
qed

lemma fs_read_written:
  assumes "written w p name dat start n w'" and "length past = 8" and "n < 256" and "blocks_for (length dat) < 65536"
    and "\<forall>m<256. m \<noteq> n \<longrightarrow> in_use (inode_at (fs_disk w) m) = 0 \<or> get_name (inode_at (fs_disk w) m) \<noteq> name"
  shows "fst (fs_read past name w') = Some dat"
proof -
  obtain j where j: "slot_updated (fs_disk w) (fs_disk w') n j" "in_use j \<noteq> 0" "get_name j = name"
      "unat (i_size j) = length dat" "ext_repr j (block_range start (of_nat (blocks_for (length dat))))"
      "\<forall>l<blocks_for (length dat). sectors (fs_disk w') (ucast (start + of_nat l)) = chunk dat l"
      "disk_good (fs_disk w')"
    using assms(1) unfolding written_def by blast
  have k16: "unat (of_nat (blocks_for (length dat)) :: u16) = blocks_for (length dat)"
    using assms(4) by (intro unat_of_nat_small) simp
  have "lookup (fs_disk w') name = Some n"
    using lookup_updated [OF j(1) assms(3) j(2)] assms(5) j(3) by auto
  moreover have "inode_at (fs_disk w') n = j" using j(1) assms(3) by (simp add: slot_updated_def)
  ultimately show ?thesis
    using fs_read_good [OF j(7) assms(2), of name n "block_range start (of_nat (blocks_for (length dat)))" dat] j k16
      chunk_prefix [of _ "length dat" dat] by (simp add: block_range_def)
qed

section \<open>Formatting and mounting\<close>

lemma write_zero_sectors_good:
  assumes "disk_good d"
  shows "\<exists>d'. write_zero_sectors ss d = (True, d') \<and> disk_good d' \<and>
    (\<forall>s. sectors d' s = (if s \<in> set ss then replicate 512 0 else sectors d s))"
  using assms
proof (induction ss arbitrary: d)
  case (Cons s ss)
  let ?d = "d\<lparr>sectors := (sectors d)(s := replicate 512 0), io_count := Suc (io_count d)\<rparr>"
  have "disk_good ?d" using Cons.prems by (simp add: disk_good_write)
  with Cons.IH [of ?d] Cons.prems show ?case by (fastforce simp: disk_write_good)
qed auto

lemma slot_zero: "k < 4 \<Longrightarrow> in_use (slot (replicate 512 0) k) = 0"
  by (simp add: slot_def bytes_to_inode_def nth_append)

text \<open>A freshly formatted and mounted filesystem.\<close>

definition fresh_fs :: "fs_world \<Rightarrow> psychicfs \<Rightarrow> bool" where
  "fresh_fs w p \<longleftrightarrow> disk_good (fs_disk w) \<and> psychic w = Some p \<and> fs_ok p \<and>
     (\<forall>n<256. in_use (inode_at (fs_disk w) n) = 0) \<and> (\<forall>j. \<not> bm_test (block_bitmap p) j \<or> 8192 \<le> j) \<and>
     magic (superblock p) = FS_MAGIC \<and> total_blocks (superblock p) = 8192 \<and>
     free_blocks (superblock p) = 8064"

lemma fs_format_good:
  assumes "disk_good (fs_disk w)"
  shows "\<exists>d. fs_format w = (True, w\<lparr>fs_disk := d\<rparr>) \<and> disk_good d \<and>
    sectors d SUPERBLOCK_SECTOR = superblock_bytes format_superblock \<and>
    sectors d BITMAP_SECTOR = replicate 512 0 \<and> sectors d (BITMAP_SECTOR + 1) = replicate 512 0 \<and>
    (\<forall>n<256. in_use (inode_at d n) = 0)"
proof -
  let ?d1 = "(fs_disk w)\<lparr>sectors := (sectors (fs_disk w))(SUPERBLOCK_SECTOR := superblock_bytes format_superblock),
      io_count := Suc (io_count (fs_disk w))\<rparr>"
  let ?ss = "map (\<lambda>i. INODE_TABLE_START + of_nat i) [0..<INODE_TABLE_SECTORS] @ [BITMAP_SECTOR, BITMAP_SECTOR + 1]"
  have len: "length (superblock_bytes format_superblock) = 512"
    by (simp add: length_superblock_bytes format_superblock_def)
  then have good: "disk_good ?d1" using assms by (simp add: disk_good_write)
  obtain d where d: "write_zero_sectors ?ss ?d1 = (True, d)" "disk_good d"
      "\<forall>s. sectors d s = (if s \<in> set ?ss then replicate 512 0 else sectors ?d1 s)"
    using write_zero_sectors_good [OF good, of ?ss] by blast
  have "SUPERBLOCK_SECTOR \<notin> set ?ss"
  proof
    assume "SUPERBLOCK_SECTOR \<in> set ?ss"
    then obtain i where "i < 64" "SUPERBLOCK_SECTOR = INODE_TABLE_START + of_nat i"
      by (auto simp: INODE_TABLE_SECTORS_def SUPERBLOCK_SECTOR_def BITMAP_SECTOR_def)
    then show False
      using meta_not_table [of "4 * i"] by (simp add: meta_sectors_def)
  qed
  moreover have "in_use (inode_at d n) = 0" if "n < 256" for n
  proof -
    have "INODE_TABLE_START + of_nat (n div 4) \<in> set ?ss" using that by (auto simp: INODE_TABLE_SECTORS_def)
    then show ?thesis using d(3) by (simp add: inode_at_def slot_zero)
  qed
  moreover have "fs_format w = (True, w\<lparr>fs_disk := d\<rparr>)"
    using assms d(1) disk_good_frame [OF assms]
    by (simp add: fs_format_def disk_is_present_def disk_write_good superblock_to_bytes_good format_superblock_def
        [THEN arg_cong, of sb_reserved] disk_present)
  ultimately show ?thesis using d by (intro exI [of _ d]) simp
qed

lemma bm_test_zero: "bm_test (replicate 1024 (0 :: u8)) j \<Longrightarrow> 8192 \<le> j"
  by (rule ccontr) (simp add: bm_test_def less_mult_imp_div_less)

lemma fs_mount_formatted:
  assumes "disk_good (fs_disk w)" and "length past = 8"
    and "sectors (fs_disk w) SUPERBLOCK_SECTOR = superblock_bytes format_superblock"
    and "sectors (fs_disk w) BITMAP_SECTOR = replicate 512 0" and "sectors (fs_disk w) (BITMAP_SECTOR + 1) = replicate 512 0"
    and "\<forall>n<256. in_use (inode_at (fs_disk w) n) = 0"
  shows "\<exists>w' p. fs_mount past w = (True, w') \<and> fresh_fs w' p"
proof -
  let ?sb = "bytes_to_superblock (superblock_bytes format_superblock @ take 4 past)"
  have sb: "?sb = format_superblock\<lparr>sb_reserved := replicate 481 0 @ take 4 past\<rparr>"
    using bytes_to_superblock_image [of format_superblock "take 4 past"] assms(2)
    by (simp add: format_superblock_def)
  have fields: "magic ?sb = FS_MAGIC" "total_blocks ?sb = 8192" "free_blocks ?sb = 8064" "length (sb_reserved ?sb) = 485"
    unfolding sb using assms(2) by (simp_all add: format_superblock_def DATA_BLOCKS_START_def)
  define p where "p = new_psychicfs\<lparr>block_bitmap := replicate 512 0 @ replicate 512 0, superblock := ?sb\<lparr>sb_dirty := 1\<rparr>,
      mounted := True, superblock_dirty := True\<rparr>"
  obtain c where "fs_mount past w = (True, w\<lparr>fs_disk := (fs_disk w)\<lparr>io_count := c\<rparr>, psychic := Some p\<rparr>)"
    using assms(1,3-5) fields(1)
    by (auto simp: fs_mount_def disk_is_present_def disk_present disk_read_good
        read_bitmap_from_disk_def new_psychicfs_def p_def)
  moreover have "replicate 512 0 @ replicate 512 0 = replicate 1024 (0 :: u8)"
    by (simp add: replicate_add [symmetric])
  then have "fresh_fs (w\<lparr>fs_disk := (fs_disk w)\<lparr>io_count := c\<rparr>, psychic := Some p\<rparr>) p"
    using assms(1,6) bm_test_zero fields
    by (auto simp: fresh_fs_def p_def fs_ok_def new_psychicfs_def not_le)
  ultimately show ?thesis by blast
qed

lemma first_fit_start:
  assumes "psychic w = Some p" and "0 < k" and "128 + k \<le> unat (total_blocks (superblock p))"
    and "\<And>b. 128 \<le> b \<Longrightarrow> b < 128 + k \<Longrightarrow> \<not> is_block_allocated p (of_nat b)"
  shows "find_contiguous_blocks k w = Some 128"
proof -
  have "free_run p k (unat (total_blocks (superblock p))) 128"
    unfolding free_run_def using assms(3) by (intro conjI allI impI assms(4)) simp_all
  then have "List.find (free_run p k (unat (total_blocks (superblock p)))) [128..<unat (total_blocks (superblock p))] = Some 128"
    using assms(2,3) by (intro find_upt_Some) auto
  then show ?thesis using find_contiguous_blocks_least [OF assms(1,2)] by simp
qed

lemma unat_of_nat_block: "b < 8320 \<Longrightarrow> unat (of_nat b :: u32) = b"
  by (intro unat_of_nat_small) simp

lemma fresh_fs_free:
  assumes "fresh_fs w p" and "128 \<le> b" and "b < 8320"
  shows "\<not> is_block_allocated p (of_nat b)"
  using assms
  by (auto simp: fresh_fs_def is_block_allocated_iff unat_of_nat_block dest: spec [of _ "b - 128"])

lemma fresh_fs_start:
  assumes "fresh_fs w p" and "0 < k" and "k \<le> 8064"
  shows "find_contiguous_blocks k w = Some 128"
proof (rule first_fit_start)
  fix b
  assume "128 \<le> b" "b < 128 + k"
  with assms show "\<not> is_block_allocated p (of_nat b)" by (intro fresh_fs_free) simp_all
qed (use assms in \<open>auto simp: fresh_fs_def\<close>)

lemma fresh_fs_empty:
  assumes "fresh_fs w p"
  shows "lookup (fs_disk w) name = None" and "free_slot (fs_disk w) = Some 0"
proof -
  show "lookup (fs_disk w) name = None" using assms by (simp add: fresh_fs_def lookup_None)
  show "free_slot (fs_disk w) = Some 0"
    unfolding free_slot_def using assms by (intro find_upt_Some) (simp_all add: fresh_fs_def)
qed



section \<open>Deleting files\<close>




section \<open>Properties\<close>

text \<open>C18: On a disk that does not fail, and under a compiler that leaves eight dead bytes behind the buffers
  of the conversions (both in \<open>disk_good\<close>): a file with a new name, when a contiguous run of free
  blocks is found for it, reads back exactly as written; the write reports success, causes no overrun, and
  leaves every other inode of the table, and so the lookup of every other name, as it was.\<close>

theorem fs_write_then_read:
  assumes "disk_good (fs_disk w)" and "psychic w = Some p" and "fs_ok p" and "length past = 8"
    and "valid_name name" and "lookup (fs_disk w) name = None" and "free_slot (fs_disk w) = Some n"
    and "find_contiguous_blocks (blocks_for (length dat)) w = Some start"
    and "dat \<noteq> []" and "blocks_for (length dat) < 65536"
  shows "\<exists>w'. fs_write past name dat w = (True, w') \<and> disk_good (fs_disk w') \<and> fst (fs_read past name w') = Some dat \<and>
    (\<forall>m<256. m \<noteq> n \<longrightarrow> inode_at (fs_disk w') m = inode_at (fs_disk w) m) \<and>
    (\<forall>other. other \<noteq> name \<longrightarrow> lookup (fs_disk w') other = lookup (fs_disk w) other)"
proof -
  obtain w' where w': "fs_write past name dat w = (True, w')" "written w p name dat start n w'"
    using fs_write_new [OF assms] by blast
  obtain j where j: "slot_updated (fs_disk w) (fs_disk w') n j" "get_name j = name" "disk_good (fs_disk w')"
    using w'(2) unfolding written_def by blast
  note n = free_slot_Some [OF assms(7)]
  have "fst (fs_read past name w') = Some dat"
    using fs_read_written [OF w'(2) assms(4) _ assms(10)] n assms(6) unfolding lookup_None by blast
  moreover have "lookup (fs_disk w') other = lookup (fs_disk w) other" if "other \<noteq> name" for other
    using lookup_updated_other [OF j(1)] j(2) that n by auto
  ultimately show ?thesis using w'(1) j(1,3) by (auto simp: slot_updated_def)
qed

text \<open>Formatting a working disk and mounting it gives an empty filesystem: both operations succeed, no
  inode is in use, every data block is free, and the superblock read back from the disk has the magic
  number and the sizes that formatting wrote.\<close>

theorem format_then_mount:
  assumes "disk_good (fs_disk w)" and "length past = 8"
  shows "\<exists>w1 w2 p. fs_format w = (True, w1) \<and> fs_mount past w1 = (True, w2) \<and> fresh_fs w2 p"
proof -
  obtain d where d: "fs_format w = (True, w\<lparr>fs_disk := d\<rparr>)" "disk_good d"
    "sectors d SUPERBLOCK_SECTOR = superblock_bytes format_superblock"
    "sectors d BITMAP_SECTOR = replicate 512 0" "sectors d (BITMAP_SECTOR + 1) = replicate 512 0"
    "\<forall>n<256. in_use (inode_at d n) = 0"
    using fs_format_good [OF assms(1)] by blast
  with fs_mount_formatted [of "w\<lparr>fs_disk := d\<rparr>" past] assms(2) show ?thesis by auto
qed

text \<open>A blank disk for the examples.\<close>

definition blank_world :: fs_world where
  "blank_world = \<lparr>fs_disk = \<lparr>sectors = (\<lambda>_. replicate 512 0), present = True, io_ok = (\<lambda>_. True),
     io_torn = (\<lambda>_. None), io_count = 0, frame_slack = 8, overrun = False\<rparr>,
     psychic = None, ticks = 0\<rparr>"

lemma blank_world_good: "disk_good (fs_disk blank_world)"
  by (simp add: blank_world_def disk_good_defs)


text \<open>An example of a fresh filesystem, and two names.\<close>

lemma fresh_example: "\<exists>w p. fresh_fs w p"
  using fs_format_good [OF blank_world_good] fs_mount_formatted [of _ "replicate 8 0"]
  by (metis fs_world.select_convs(1) fs_world.surjective fs_world.update_convs(1) length_replicate)

lemma valid_name_example: "valid_name [97]" "valid_name [98]"
  by (simp_all add: valid_name_def)


theorem fs_write_then_read_witness:
  "\<exists>w w'. fs_write (replicate 8 0) [97] [1, 2, 3] w = (True, w') \<and>
    fst (fs_read (replicate 8 0) [97] w') = Some [1, 2, 3]"
proof -
  obtain w p where f: "fresh_fs w p" using fresh_example by blast
  have k: "blocks_for (length [1, 2, 3 :: u8]) = 1" by (simp add: blocks_for_def BLOCK_SIZE_def)
  have "disk_good (fs_disk w)" "psychic w = Some p" "fs_ok p" using f by (simp_all add: fresh_fs_def)
  from fs_write_then_read [OF this _ valid_name_example(1) fresh_fs_empty [OF f],
      of "replicate 8 0" "[1, 2, 3]" 128] fresh_fs_start [OF f, of 1] k
  show ?thesis by auto
qed




text \<open>The search for contiguous blocks is first fit: it returns the lowest block number from which the
  requested number of blocks, all inside the data area, are free, and nothing exactly when there is no
  such run.\<close>

theorem find_contiguous_first_fit:
  assumes "psychic w = Some p" and "0 < n"
  shows "find_contiguous_blocks n w = map_option of_nat
    (List.find (free_run p n (unat (total_blocks (superblock p)))) [128..<unat (total_blocks (superblock p))])"
  using find_contiguous_blocks_least [OF assms] .

text \<open>C23: The extents of an inode implement the list of its disk blocks: the translation of a logical
  block is the element of the list at that index and fails past its end, and adding an extent appends
  its blocks, whether it extends the last extent or takes a new slot.\<close>

theorem extents_refine_block_list:
  assumes "ext_repr i bl" and "n \<noteq> 0" and "length bl + unat n < 65536"
  shows "get_physical_block i l = (if unat l < length bl then Some (bl ! unat l) else None) \<and>
    (\<forall>j. add_extent start n i = Some j \<longrightarrow> ext_repr j (bl @ block_range start n))"
  using get_physical_block_repr [OF assms(1)] add_extent_repr [OF assms] by blast

theorem extents_refine_block_list_witness:
  "\<exists>j. add_extent 128 3 (clear_extents new_inode) = Some j \<and> ext_repr j ([] @ block_range 128 3)"
proof -
  have wf: "inode_wf new_inode" by (simp add: inode_wf_def new_inode_def fs_consts)
  obtain j where "add_extent 128 3 (clear_extents new_inode) = Some j"
    using add_extent_cleared [OF wf, of 3 128] by auto
  with extents_refine_block_list [OF ext_repr_clear, of new_inode 3 0 128] wf show ?thesis
    by (auto simp: inode_wf_def)
qed





lemma overrun_write: "disk_write_sector s buf d = (ok, d') \<Longrightarrow> overrun d' = overrun d \<and> frame_slack d' = frame_slack d"
  by (auto simp: disk_write_sector_def split: if_splits option.splits)

lemma overrun_read: "disk_read_sector s d = (r, d') \<Longrightarrow> overrun d' = overrun d \<and> frame_slack d' = frame_slack d"
  by (auto simp: disk_read_sector_def split: if_splits)

text \<open>C22: The conversions of PsychicFS write past their local buffers, whatever the disk does: every inode write
  that reports success overruns its frame unless the compiler happens to leave eight dead bytes behind the
  buffer, and every synchronisation of a changed superblock unless it leaves four. The other theorems of this
  theory hold under that hypothesis only.\<close>

theorem conversions_overrun:
  assumes "inode_wf i" and "psychic w = Some p" and "fs_ok p" and "superblock_dirty p"
  shows "(fst (write_inode past m i w) \<longrightarrow>
      (overrun (fs_disk (snd (write_inode past m i w))) \<longleftrightarrow> overrun (fs_disk w) \<or> frame_slack (fs_disk w) < 8)) \<and>
    (overrun (fs_disk (fs_sync w)) \<longleftrightarrow> overrun (fs_disk w) \<or> frame_slack (fs_disk w) < 4)"
proof
  show "fst (write_inode past m i w) \<longrightarrow>
      (overrun (fs_disk (snd (write_inode past m i w))) \<longleftrightarrow> overrun (fs_disk w) \<or> frame_slack (fs_disk w) < 8)"
    by (auto simp: write_inode_def Let_def inode_to_bytes_overrun [OF assms(1)] split: prod.splits option.splits if_splits
        dest!: overrun_write overrun_read)
  obtain ok1 p1 d1 where 1: "sync_bitmap p (fs_disk w) = (ok1, p1, d1)" by (cases "sync_bitmap p (fs_disk w)") auto
  have p1: "superblock p1 = superblock p" "superblock_dirty p1"
    using 1 assms(4) by (auto simp: sync_bitmap_def split: prod.splits if_splits)
  have d1: "overrun d1 = overrun (fs_disk w)" "frame_slack d1 = frame_slack (fs_disk w)"
    using 1 by (auto simp: sync_bitmap_def write_bitmap_to_disk_def split: prod.splits if_splits dest!: overrun_write)
  have "length (sb_reserved ((superblock p)\<lparr>sb_dirty := 0\<rparr>)) = 485" "mounted p" using assms(3) by (simp_all add: fs_ok_def)
  then show "overrun (fs_disk (fs_sync w)) \<longleftrightarrow> overrun (fs_disk w) \<or> frame_slack (fs_disk w) < 4"
    using assms(2) 1 p1 d1
    by (auto simp: fs_sync_def sync_def sync_superblock_def superblock_to_bytes_overrun Let_def split: prod.splits if_splits
        dest!: overrun_write)
qed

theorem conversions_overrun_witness:
  "\<exists>w. \<not> overrun (fs_disk w) \<and> overrun (fs_disk (fs_sync w)) \<and> fst (write_inode (replicate 8 0) 0 new_inode w) \<and>
    overrun (fs_disk (snd (write_inode (replicate 8 0) 0 new_inode w)))"
proof -
  define p where "p = new_psychicfs\<lparr>mounted := True, superblock_dirty := True\<rparr>"
  define w where "w = blank_world\<lparr>fs_disk := (fs_disk blank_world)\<lparr>frame_slack := 0\<rparr>, psychic := Some p\<rparr>"
  have wf: "inode_wf new_inode" by (simp add: inode_wf_def new_inode_def fs_consts)
  have p: "fs_ok p" "superblock_dirty p" "psychic w = Some p"
    by (simp_all add: p_def w_def fs_ok_def new_psychicfs_def zero_superblock_def)
  have first: "inode_bytes new_inode ! 0 = in_use new_inode" by (simp add: inode_bytes_def inode_image_def)
  have "fst (write_inode (replicate 8 0) 0 new_inode w)"
    by (simp add: write_inode_def w_def blank_world_def disk_read_sector_def disk_write_sector_def
        inode_to_bytes_overrun [OF wf] buffer_inode_def bytes_to_inode_def nth_append length_inode_bytes [OF wf] first)
  with conversions_overrun [OF wf p(3,1,2), of "replicate 8 0" 0] show ?thesis
    by (intro exI [of _ w]) (simp add: w_def blank_world_def)
qed

end
