(* ===== verification/Fs_Cache.thy ===== *)
theory Fs_Cache
  imports Fs_Files
begin

text \<open>
  The block cache and the access patterns of PsychicFS (\<^verbatim>\<open>cached_read\<close>, \<^verbatim>\<open>cached_write\<close>,
  \<^verbatim>\<open>cache_insert\<close>, \<^verbatim>\<open>flush_cache\<close>, \<^verbatim>\<open>record_access\<close>, \<^verbatim>\<open>predict_prefetch\<close>). An entry is live when its access
  count is not zero. The clock value of a call is a parameter. The lemmas show that the cache over a
  working disk behaves like a disk: reads return what was last written, and flushing makes the disk
  agree with it.
\<close>

definition CACHE_SIZE :: nat where "CACHE_SIZE = 32"

record cache_entry =
  block_num :: u32
  cached_data :: "u8 list"
  entry_dirty :: bool
  access_count :: u32
  last_access :: u64

definition empty_entry :: cache_entry where
  "empty_entry = \<lparr>block_num = 0, cached_data = replicate BLOCK_SIZE 0, entry_dirty = False,
     access_count = 0, last_access = 0\<rparr>"

record block_cache =
  cache :: "cache_entry list"
  cache_hits :: u64
  cache_misses :: u64

definition new_block_cache :: block_cache where
  "new_block_cache = \<lparr>cache = replicate CACHE_SIZE empty_entry, cache_hits = 0, cache_misses = 0\<rparr>"

definition hit :: "u32 \<Rightarrow> cache_entry \<Rightarrow> bool" where
  "hit b e \<longleftrightarrow> block_num e = b \<and> 0 < access_count e"

definition find_hit :: "u32 \<Rightarrow> cache_entry list \<Rightarrow> nat option" where
  "find_hit b es = List.find (\<lambda>k. hit b (es ! k)) [0..<length es]"

text \<open>The slot to fill: the first unused entry, or the first least recently used one before it.\<close>

fun victim :: "nat \<Rightarrow> u64 \<Rightarrow> nat \<Rightarrow> cache_entry list \<Rightarrow> nat" where
  "victim i min_access min_idx [] = min_idx"
| "victim i min_access min_idx (e # es) =
     (if access_count e = 0 then i
      else if last_access e < min_access then victim (Suc i) (last_access e) i es
      else victim (Suc i) min_access min_idx es)"

definition cache_insert :: "u64 \<Rightarrow> u32 \<Rightarrow> u8 list \<Rightarrow> bool \<Rightarrow> block_cache \<Rightarrow> disk \<Rightarrow> block_cache \<times> disk" where
  "cache_insert now b dat dirty c d =
     (let v = victim 0 (- 1) 0 (cache c); e = cache c ! v;
          d' = if entry_dirty e \<and> 0 < access_count e
               then snd (disk_write_sector (ucast (block_num e)) (cached_data e) d) else d
      in (c\<lparr>cache := (cache c)[v := \<lparr>block_num = b, cached_data = dat, entry_dirty = dirty,
             access_count = 1, last_access = now\<rparr>]\<rparr>, d'))"

definition cached_read :: "u64 \<Rightarrow> u32 \<Rightarrow> block_cache \<Rightarrow> disk \<Rightarrow> u8 list option \<times> block_cache \<times> disk" where
  "cached_read now b c d =
     (case find_hit b (cache c) of
        Some k \<Rightarrow>
          (let e = cache c ! k
           in (Some (cached_data e),
               c\<lparr>cache := (cache c)[k := e\<lparr>access_count := access_count e + 1, last_access := now\<rparr>],
                 cache_hits := cache_hits c + 1\<rparr>, d))
      | None \<Rightarrow>
          (let c1 = c\<lparr>cache_misses := cache_misses c + 1\<rparr>
           in case disk_read_sector (ucast b) d of
                (None, d1) \<Rightarrow> (None, c1, d1)
              | (Some buf, d1) \<Rightarrow> (case cache_insert now b buf False c1 d1 of (c2, d2) \<Rightarrow> (Some buf, c2, d2))))"

definition cached_write :: "u64 \<Rightarrow> u32 \<Rightarrow> u8 list \<Rightarrow> block_cache \<Rightarrow> disk \<Rightarrow> bool \<times> block_cache \<times> disk" where
  "cached_write now b dat c d =
     (case find_hit b (cache c) of
        Some k \<Rightarrow>
          (let e = cache c ! k
           in (True, c\<lparr>cache := (cache c)[k := e\<lparr>cached_data := dat, entry_dirty := True,
                 access_count := access_count e + 1, last_access := now\<rparr>]\<rparr>, d))
      | None \<Rightarrow> (case cache_insert now b dat True c d of (c1, d1) \<Rightarrow> (True, c1, d1)))"

fun flush_entries :: "cache_entry list \<Rightarrow> disk \<Rightarrow> bool \<times> cache_entry list \<times> disk" where
  "flush_entries [] d = (True, [], d)"
| "flush_entries (e # es) d =
     (if entry_dirty e \<and> 0 < access_count e
      then case disk_write_sector (ucast (block_num e)) (cached_data e) d of (ok, d1) \<Rightarrow>
             (case flush_entries es d1 of (ok', es', d2) \<Rightarrow>
                (ok \<and> ok', (if ok then e\<lparr>entry_dirty := False\<rparr> else e) # es', d2))
      else case flush_entries es d of (ok', es', d2) \<Rightarrow> (ok', e # es', d2))"

definition flush_cache :: "block_cache \<Rightarrow> disk \<Rightarrow> bool \<times> block_cache \<times> disk" where
  "flush_cache c d = (case flush_entries (cache c) d of (ok, es, d') \<Rightarrow> (ok, c\<lparr>cache := es\<rparr>, d'))"

section \<open>Access patterns\<close>

record access_pattern =
  pat_inode :: u32
  last_block :: u32
  pat_count :: u32
  sequential_count :: u32

definition empty_pattern :: access_pattern where
  "empty_pattern = \<lparr>pat_inode = 0, last_block = 0, pat_count = 0, sequential_count = 0\<rparr>"

fun least_accessed :: "nat \<Rightarrow> u32 \<Rightarrow> nat \<Rightarrow> access_pattern list \<Rightarrow> nat" where
  "least_accessed i min_access min_idx [] = min_idx"
| "least_accessed i min_access min_idx (p # ps) =
     (if pat_count p < min_access then least_accessed (Suc i) (pat_count p) i ps
      else least_accessed (Suc i) min_access min_idx ps)"

definition record_access :: "u32 \<Rightarrow> u32 \<Rightarrow> access_pattern list \<Rightarrow> access_pattern list" where
  "record_access ino b ps =
     (case List.find (\<lambda>k. pat_inode (ps ! k) = ino) [0..<length ps] of
        Some k \<Rightarrow>
          (let p = ps ! k
           in ps[k := p\<lparr>sequential_count := if b = last_block p + 1 then sequential_count p + 1 else sequential_count p,
                        last_block := b, pat_count := pat_count p + 1\<rparr>])
      | None \<Rightarrow>
          ps[least_accessed 0 (- 1) 0 ps := \<lparr>pat_inode = ino, last_block = b, pat_count = 1, sequential_count = 0\<rparr>])"

definition predict_prefetch :: "u32 \<Rightarrow> access_pattern list \<Rightarrow> u32 option" where
  "predict_prefetch ino ps =
     map_option (\<lambda>p. last_block p + 1)
       (List.find (\<lambda>p. pat_inode p = ino \<and> 2 < sequential_count p) ps)"

section \<open>The cache as a disk\<close>

text \<open>What the cache and the disk together hold in a block.\<close>

definition cview :: "cache_entry list \<Rightarrow> disk \<Rightarrow> u32 \<Rightarrow> u8 list" where
  "cview es d b = (case find_hit b es of Some k \<Rightarrow> cached_data (es ! k) | None \<Rightarrow> sectors d (ucast b))"

text \<open>Live entries are of different blocks, and clean ones agree with the disk.\<close>

definition cache_ok :: "cache_entry list \<Rightarrow> disk \<Rightarrow> bool" where
  "cache_ok es d \<longleftrightarrow> length es = 32 \<and> device_good d \<and> (\<forall>e\<in>set es. length (cached_data e) = 512) \<and>
     (\<forall>j<32. \<forall>k<32. 0 < access_count (es ! j) \<and> 0 < access_count (es ! k) \<and>
        block_num (es ! j) = block_num (es ! k) \<longrightarrow> j = k) \<and>
     (\<forall>k<32. 0 < access_count (es ! k) \<and> \<not> entry_dirty (es ! k) \<longrightarrow>
        sectors d (ucast (block_num (es ! k))) = cached_data (es ! k))"

lemma find_hit_Some: "find_hit b es = Some k \<Longrightarrow> k < length es \<and> hit b (es ! k)"
  by (auto simp: find_hit_def find_Some_iff)

lemma find_hit_None: "find_hit b es = None \<longleftrightarrow> (\<forall>k<length es. \<not> hit b (es ! k))"
  by (auto simp: find_hit_def find_None_iff)

lemma find_hit_unique:
  assumes "cache_ok es d" and "k < 32" and "hit b (es ! k)"
  shows "find_hit b es = Some k"
proof (cases "find_hit b es")
  case None
  with assms show ?thesis by (auto simp: find_hit_None cache_ok_def)
next
  case (Some j)
  with find_hit_Some [OF Some] assms show ?thesis by (auto simp: cache_ok_def hit_def)
qed

lemma cview_hit: "cache_ok es d \<Longrightarrow> k < 32 \<Longrightarrow> hit b (es ! k) \<Longrightarrow> cview es d b = cached_data (es ! k)"
  by (simp add: cview_def find_hit_unique)

lemma cview_miss: "(\<And>k. k < length es \<Longrightarrow> \<not> hit b (es ! k)) \<Longrightarrow> cview es d b = sectors d (ucast b)"
  by (simp add: cview_def find_hit_None [THEN iffD2])

lemma cache_ok_cases:
  assumes "cache_ok es d"
  obtains k where "k < 32" "hit b (es ! k)" "cview es d b = cached_data (es ! k)"
  | "\<And>k. k < 32 \<Longrightarrow> \<not> hit b (es ! k)" "cview es d b = sectors d (ucast b)"
  using assms cview_hit [OF assms] cview_miss [of es b d] unfolding cache_ok_def by metis

lemma victim_bound: "victim i m idx es < i + length es \<or> victim i m idx es = idx"
proof (induction i m idx es rule: victim.induct)
  case (2 i m idx e es)
  then show ?case by (cases "access_count e = 0"; cases "last_access e < m") auto
qed simp

lemma victim_less: "length es = 32 \<Longrightarrow> victim 0 m 0 es < 32"
  using victim_bound [of 0 m 0 es] by auto

text \<open>Replacing the entry of one slot.\<close>

lemma cache_ok_update:
  assumes "cache_ok es d" and "k < 32" and "device_good d'" and "length (cached_data e) = 512"
    and "\<And>j. j < 32 \<Longrightarrow> j \<noteq> k \<Longrightarrow> 0 < access_count e \<Longrightarrow> \<not> hit (block_num e) (es ! j)"
    and "0 < access_count e \<Longrightarrow> \<not> entry_dirty e \<Longrightarrow> sectors d' (ucast (block_num e)) = cached_data e"
    and "\<And>j. j < 32 \<Longrightarrow> j \<noteq> k \<Longrightarrow> 0 < access_count (es ! j) \<Longrightarrow> \<not> entry_dirty (es ! j) \<Longrightarrow>
      sectors d' (ucast (block_num (es ! j))) = sectors d (ucast (block_num (es ! j)))"
  shows "cache_ok (es[k := e]) d'"
proof -
  have len: "length es = 32" using assms(1) by (simp add: cache_ok_def)
  have "\<forall>x\<in>set (es[k := e]). length (cached_data x) = 512"
    using assms(1,4) set_update_subset_insert [of es k e] by (auto simp: cache_ok_def)
  moreover have "i = j" if "i < 32" "j < 32" "0 < access_count (es[k := e] ! i)" "0 < access_count (es[k := e] ! j)"
      "block_num (es[k := e] ! i) = block_num (es[k := e] ! j)" for i j
  proof -
    consider "i = k" "j = k" | "i = k" "j \<noteq> k" | "i \<noteq> k" "j = k" | "i \<noteq> k" "j \<noteq> k" by blast
    then show ?thesis
    proof cases
      case 2
      with that assms(5) [of j] len assms(2) show ?thesis by (simp add: hit_def)
    next
      case 3
      with that assms(5) [of i] len assms(2) show ?thesis by (simp add: hit_def)
    next
      case 4
      with that len assms(1) show ?thesis unfolding cache_ok_def by simp
    qed simp
  qed
  moreover have "sectors d' (ucast (block_num (es[k := e] ! j))) = cached_data (es[k := e] ! j)"
    if "j < 32" "0 < access_count (es[k := e] ! j)" "\<not> entry_dirty (es[k := e] ! j)" for j
  proof (cases "j = k")
    case True
    with that assms(2,6) len show ?thesis by simp
  next
    case False
    with that assms(7) [of j] have "sectors d' (ucast (block_num (es ! j))) = sectors d (ucast (block_num (es ! j)))"
      by simp
    with False that assms(1) show ?thesis unfolding cache_ok_def by simp
  qed
  ultimately show ?thesis
    using len assms(3) unfolding cache_ok_def by (intro conjI) (auto simp del: nth_list_update)
qed

lemma evict_good:
  assumes "cache_ok es d" and "v < 32"
    and "d' = (if entry_dirty (es ! v) \<and> 0 < access_count (es ! v)
      then snd (disk_write_sector (ucast (block_num (es ! v))) (cached_data (es ! v)) d) else d)"
  shows "device_good d' \<and> (0 < access_count (es ! v) \<longrightarrow> sectors d' (ucast (block_num (es ! v))) = cached_data (es ! v)) \<and>
    (\<forall>x. \<not> hit x (es ! v) \<longrightarrow> sectors d' (ucast x) = sectors d (ucast x))"
proof -
  have "device_good d" "length (cached_data (es ! v)) = 512" using assms(1,2) by (auto simp: cache_ok_def)
  with assms show ?thesis
    by (auto simp: device_write device_good_write cache_ok_def hit_def ucast_u32_inj)
qed

lemma cview_update:
  assumes "cache_ok es d" and "cache_ok (es[k := e]) d'" and "k < 32" and "0 < access_count e"
    and "0 < access_count (es ! k) \<Longrightarrow> block_num (es ! k) \<noteq> block_num e \<Longrightarrow>
      sectors d' (ucast (block_num (es ! k))) = cached_data (es ! k)"
    and "\<And>x. \<not> hit x (es ! k) \<Longrightarrow> sectors d' (ucast x) = sectors d (ucast x)"
  shows "cview (es[k := e]) d' x = (if x = block_num e then cached_data e else cview es d x)"
proof (cases "x = block_num e")
  case True
  have len: "length es = 32" using assms(1) by (simp add: cache_ok_def)
  with True assms(3,4) have "hit x (es[k := e] ! k)" by (simp add: hit_def)
  from cview_hit [OF assms(2,3) this] len assms(3) True show ?thesis by simp
next
  case False
  have len: "length es = 32" using assms(1) by (simp add: cache_ok_def)
  show ?thesis
  proof (cases rule: cache_ok_cases [OF assms(1), of x])
    case (1 j)
    show ?thesis
    proof (cases "j = k")
      case True
      have "\<not> hit x (es[k := e] ! i)" if "i < 32" for i
        using that 1 True False len assms(1) by (cases "i = k") (auto simp: hit_def cache_ok_def)
      then have "cview (es[k := e]) d' x = sectors d' (ucast x)" using len by (intro cview_miss) simp
      also have "\<dots> = cached_data (es ! k)" using assms(5) 1 True False by (simp add: hit_def)
      finally show ?thesis using 1 True False by simp
    next
      case False': False
      with 1 have "hit x (es[k := e] ! j)" by simp
      from cview_hit [OF assms(2) 1(1) this] 1 False False' show ?thesis by simp
    qed
  next
    case 2
    have "\<not> hit x (es[k := e] ! i)" if "i < 32" for i
      using that 2 False len assms(3) by (cases "i = k") (auto simp: hit_def)
    then have "cview (es[k := e]) d' x = sectors d' (ucast x)" using len by (intro cview_miss) simp
    with 2 assms(3,6) False show ?thesis by simp
  qed
qed

lemma cache_insert_ok:
  assumes "cache_ok (cache c) d" and "\<And>k. k < 32 \<Longrightarrow> \<not> hit b (cache c ! k)" and "length dat = 512"
    and "\<not> dirty \<Longrightarrow> dat = sectors d (ucast b)" and "cache_insert now b dat dirty c d = (c', d')"
  shows "cache_ok (cache c') d' \<and> (\<forall>x. cview (cache c') d' x = (if x = b then dat else cview (cache c) d x))"
proof -
  let ?es = "cache c"
  define v where "v = victim 0 (- 1) 0 ?es"
  define e where "e = \<lparr>block_num = b, cached_data = dat, entry_dirty = dirty, access_count = 1, last_access = now\<rparr>"
  have v: "v < 32" using assms(1) victim_less by (simp add: v_def cache_ok_def)
  have c': "cache c' = ?es[v := e]"
    and d': "d' = (if entry_dirty (?es ! v) \<and> 0 < access_count (?es ! v)
      then snd (disk_write_sector (ucast (block_num (?es ! v))) (cached_data (?es ! v)) d) else d)"
    using assms(5) by (auto simp: cache_insert_def Let_def v_def [symmetric] e_def)
  note ev = evict_good [OF assms(1) v d']
  have ok: "cache_ok (?es[v := e]) d'"
  proof (rule cache_ok_update [OF assms(1) v])
    fix j
    assume j: "j < 32" "j \<noteq> v" "0 < access_count (?es ! j)"
    have "\<not> hit (block_num (?es ! j)) (?es ! v)"
      using j v assms(1) unfolding cache_ok_def hit_def by metis
    then show "sectors d' (ucast (block_num (?es ! j))) = sectors d (ucast (block_num (?es ! j)))" using ev by blast
  qed (use ev assms(2-4) v in \<open>auto simp: e_def\<close>)
  have "cview (?es[v := e]) d' x = (if x = block_num e then cached_data e else cview ?es d x)" for x
    by (rule cview_update [OF assms(1) ok v]) (use ev in \<open>auto simp: e_def\<close>)
  with ok c' show ?thesis by (simp add: e_def)
qed

lemma cache_touch:
  assumes "cache_ok es d" and "k < 32" and "hit b (es ! k)" and "e = es ! k" and "access_count e \<noteq> - 1"
    and "length dat = 512" and "e' = e\<lparr>cached_data := dat, entry_dirty := dirty,
      access_count := access_count e + 1, last_access := now\<rparr>"
    and "\<not> dirty \<Longrightarrow> \<not> entry_dirty e \<and> dat = cached_data e"
  shows "cache_ok (es[k := e']) d \<and> (\<forall>x. cview (es[k := e']) d x = (if x = b then dat else cview es d x))"
proof -
  have "access_count e + 1 \<noteq> 0"
    using assms(5) by (metis add_diff_cancel_right' diff_0)
  then have live: "0 < access_count e'" by (simp add: assms(7) word_gt_0)
  have b: "block_num e' = b" "block_num (es ! k) = b" using assms(3,4,7) by (simp_all add: hit_def)
  have good: "device_good d" using assms(1) by (simp add: cache_ok_def)
  have ok: "cache_ok (es[k := e']) d"
  proof (rule cache_ok_update [OF assms(1,2) good])
    fix j
    assume "j < 32" "j \<noteq> k"
    then show "\<not> hit (block_num e') (es ! j)"
      using b assms(1-3) unfolding cache_ok_def hit_def by metis
  next
    assume "\<not> entry_dirty e'"
    then show "sectors d (ucast (block_num e')) = cached_data e'"
      using assms b unfolding cache_ok_def hit_def by auto
  qed (use assms(6,7) in simp_all)
  have "cview (es[k := e']) d x = (if x = block_num e' then cached_data e' else cview es d x)" for x
    by (rule cview_update [OF assms(1) ok assms(2) live]) (use b in auto)
  with ok b show ?thesis by (simp add: assms(7))
qed

lemma flush_entries_good:
  assumes "device_good d" and "\<forall>e\<in>set es. length (cached_data e) = 512"
  shows "\<exists>d'. flush_entries es d =
      (True, map (\<lambda>e. if 0 < access_count e then e\<lparr>entry_dirty := False\<rparr> else e) es, d') \<and> device_good d' \<and>
    (\<forall>s. (\<forall>e\<in>set es. entry_dirty e \<and> 0 < access_count e \<longrightarrow> s \<noteq> ucast (block_num e)) \<longrightarrow> sectors d' s = sectors d s) \<and>
    (distinct (map block_num (filter (\<lambda>e. 0 < access_count e) es)) \<longrightarrow>
      (\<forall>e\<in>set es. entry_dirty e \<and> 0 < access_count e \<longrightarrow> sectors d' (ucast (block_num e)) = cached_data e))"
  using assms
proof (induction es arbitrary: d)
  case (Cons e es)
  show ?case
  proof (cases "entry_dirty e \<and> 0 < access_count e")
    case True
    let ?d = "d\<lparr>sectors := (sectors d)(ucast (block_num e) := cached_data e), io_count := Suc (io_count d)\<rparr>"
    have "device_good ?d" using Cons.prems by (simp add: device_good_write)
    from Cons.IH [OF this] Cons.prems obtain d' where d': "flush_entries es ?d =
        (True, map (\<lambda>e. if 0 < access_count e then e\<lparr>entry_dirty := False\<rparr> else e) es, d')" "device_good d'"
      "\<forall>s. (\<forall>e\<in>set es. entry_dirty e \<and> 0 < access_count e \<longrightarrow> s \<noteq> ucast (block_num e)) \<longrightarrow> sectors d' s = sectors ?d s"
      "distinct (map block_num (filter (\<lambda>e. 0 < access_count e) es)) \<longrightarrow>
        (\<forall>e\<in>set es. entry_dirty e \<and> 0 < access_count e \<longrightarrow> sectors d' (ucast (block_num e)) = cached_data e)"
      by auto
    have "sectors d' (ucast (block_num e)) = cached_data e"
      if "distinct (map block_num (filter (\<lambda>e. 0 < access_count e) (e # es)))"
    proof -
      have "\<forall>x\<in>set es. entry_dirty x \<and> 0 < access_count x \<longrightarrow> (ucast (block_num e) :: u64) \<noteq> ucast (block_num x)"
        using that True by (auto simp: ucast_u32_inj)
      with d'(3) show ?thesis by simp
    qed
    with True d' Cons.prems show ?thesis by (intro exI [of _ d']) (auto simp: device_write)
  next
    case False
    from Cons.IH [OF Cons.prems(1)] Cons.prems obtain d' where d': "flush_entries es d =
        (True, map (\<lambda>e. if 0 < access_count e then e\<lparr>entry_dirty := False\<rparr> else e) es, d')" "device_good d'"
      "\<forall>s. (\<forall>e\<in>set es. entry_dirty e \<and> 0 < access_count e \<longrightarrow> s \<noteq> ucast (block_num e)) \<longrightarrow> sectors d' s = sectors d s"
      "distinct (map block_num (filter (\<lambda>e. 0 < access_count e) es)) \<longrightarrow>
        (\<forall>e\<in>set es. entry_dirty e \<and> 0 < access_count e \<longrightarrow> sectors d' (ucast (block_num e)) = cached_data e)"
      by auto
    have "e = (if 0 < access_count e then e\<lparr>entry_dirty := False\<rparr> else e)" using False by auto
    with False d' show ?thesis by (intro exI [of _ d']) auto
  qed
qed simp

lemma cached_read_ok:
  assumes "cache_ok (cache c) d" and "\<forall>e\<in>set (cache c). access_count e \<noteq> - 1"
    and "cached_read now b c d = (r, c', d')"
  shows "r = Some (cview (cache c) d b) \<and> cache_ok (cache c') d' \<and> cview (cache c') d' = cview (cache c) d"
proof (cases "find_hit b (cache c)")
  case (Some k)
  let ?e = "cache c ! k"
  have k: "k < 32" "hit b ?e" using find_hit_Some [OF Some] assms(1) by (simp_all add: cache_ok_def)
  have view: "cview (cache c) d b = cached_data ?e" by (rule cview_hit [OF assms(1) k])
  have e: "access_count ?e \<noteq> - 1" "length (cached_data ?e) = 512"
    using assms(1,2) k(1) by (auto simp: cache_ok_def)
  from cache_touch [where now = now and dirty = "entry_dirty ?e", OF assms(1) k refl e refl] view
  have "cache_ok ((cache c)[k := ?e\<lparr>access_count := access_count ?e + 1, last_access := now\<rparr>]) d"
    "\<forall>x. cview ((cache c)[k := ?e\<lparr>access_count := access_count ?e + 1, last_access := now\<rparr>]) d x = cview (cache c) d x"
    by simp_all
  with assms(3) Some view show ?thesis by (auto simp: cached_read_def Let_def fun_eq_iff)
next
  case None
  have miss: "\<not> hit b (cache c ! k)" if "k < 32" for k
    using None that assms(1) by (simp add: find_hit_None cache_ok_def)
  have good: "device_good d" using assms(1) by (simp add: cache_ok_def)
  let ?d1 = "d\<lparr>io_count := Suc (io_count d)\<rparr>" and ?c1 = "c\<lparr>cache_misses := cache_misses c + 1\<rparr>"
  have view: "cview (cache c) d b = sectors d (ucast b)"
    using miss assms(1) by (intro cview_miss) (simp add: cache_ok_def)
  have ok1: "cache_ok (cache ?c1) ?d1" "cview (cache c) ?d1 = cview (cache c) d"
    using assms(1) by (simp_all add: cache_ok_def cview_def fun_eq_iff split: option.splits)
  obtain c2 d2 where ci: "cache_insert now b (sectors d (ucast b)) False ?c1 ?d1 = (c2, d2)"
    by (cases "cache_insert now b (sectors d (ucast b)) False ?c1 ?d1") auto
  have "cached_read now b c d = (Some (sectors d (ucast b)), c2, d2)"
    using None good ci by (simp add: cached_read_def device_read)
  with assms(3) have r: "r = Some (sectors d (ucast b))" "c' = c2" "d' = d2" by simp_all
  have "cache_ok (cache c2) d2 \<and>
      (\<forall>x. cview (cache c2) d2 x = (if x = b then sectors d (ucast b) else cview (cache ?c1) ?d1 x))"
    by (rule cache_insert_ok [OF ok1(1) _ _ _ ci]) (use miss device_length [OF good] in simp_all)
  with view ok1(2) r show ?thesis by (simp add: fun_eq_iff)
qed

lemma cached_write_ok:
  assumes "cache_ok (cache c) d" and "\<forall>e\<in>set (cache c). access_count e \<noteq> - 1" and "length dat = 512"
    and "cached_write now b dat c d = (r, c', d')"
  shows "r \<and> cache_ok (cache c') d' \<and> cview (cache c') d' = (cview (cache c) d)(b := dat)"
proof (cases "find_hit b (cache c)")
  case (Some k)
  let ?e = "cache c ! k"
  have k: "k < 32" "hit b ?e" using find_hit_Some [OF Some] assms(1) by (simp_all add: cache_ok_def)
  have e: "access_count ?e \<noteq> - 1" using assms(1,2) k(1) by (auto simp: cache_ok_def)
  from cache_touch [where now = now and dirty = True, OF assms(1) k refl e assms(3) refl] assms(4) Some
  show ?thesis by (auto simp: cached_write_def Let_def fun_eq_iff)
next
  case None
  then have miss: "\<not> hit b (cache c ! k)" if "k < 32" for k
    using that assms(1) by (simp add: find_hit_None cache_ok_def)
  from assms(4) None have "r" "cache_insert now b dat True c d = (c', d')"
    by (auto simp: cached_write_def split: prod.splits)
  with cache_insert_ok [OF assms(1) _ assms(3) _ this(2)] miss show ?thesis by (auto simp: fun_eq_iff)
qed

lemma distinct_live_blocks:
  assumes "cache_ok es d"
  shows "distinct (map block_num (filter (\<lambda>e. 0 < access_count e) es))"
proof -
  have "length es = 32" and inj: "\<And>j k. j < 32 \<Longrightarrow> k < 32 \<Longrightarrow> 0 < access_count (es ! j) \<Longrightarrow>
      0 < access_count (es ! k) \<Longrightarrow> block_num (es ! j) = block_num (es ! k) \<Longrightarrow> j = k"
    using assms by (auto simp: cache_ok_def)
  have "map block_num (filter (\<lambda>e. 0 < access_count e) es) =
      map (\<lambda>k. block_num (es ! k)) (filter (\<lambda>k. 0 < access_count (es ! k)) [0..<length es])"
    by (subst map_nth [of es, symmetric]) (simp only: filter_map map_map o_def)
  then show ?thesis
    using inj \<open>length es = 32\<close> by (auto simp: distinct_map inj_on_def)
qed

lemma clean_block:
  assumes "length es = 32" and "\<And>k. k < 32 \<Longrightarrow> hit b (es ! k) \<Longrightarrow> \<not> entry_dirty (es ! k)"
  shows "\<forall>e\<in>set es. entry_dirty e \<and> 0 < access_count e \<longrightarrow> ucast b \<noteq> (ucast (block_num e) :: u64)"
proof (intro ballI impI)
  fix e
  assume "e \<in> set es" "entry_dirty e \<and> 0 < access_count e"
  then obtain k where "k < 32" "e = es ! k" "entry_dirty (es ! k)" "0 < access_count (es ! k)"
    using assms(1) by (auto simp: in_set_conv_nth)
  with assms(2) [of k] show "ucast b \<noteq> (ucast (block_num e) :: u64)"
    by (auto simp: ucast_u32_inj hit_def)
qed

lemma flush_cache_ok:
  assumes "cache_ok (cache c) d" and "flush_cache c d = (r, c', d')"
  shows "r \<and> (\<forall>e\<in>set (cache c'). 0 < access_count e \<longrightarrow> \<not> entry_dirty e) \<and>
    (\<forall>b. sectors d' (ucast b) = cview (cache c) d b) \<and> cache_ok (cache c') d' \<and> cview (cache c') d' = cview (cache c) d"
proof -
  let ?es = "cache c"
  have pre: "device_good d" "\<forall>e\<in>set ?es. length (cached_data e) = 512" "length ?es = 32"
    using assms(1) by (simp_all add: cache_ok_def)
  obtain d1 where d1: "flush_entries ?es d =
      (True, map (\<lambda>e. if 0 < access_count e then e\<lparr>entry_dirty := False\<rparr> else e) ?es, d1)"
      "\<forall>s. (\<forall>e\<in>set ?es. entry_dirty e \<and> 0 < access_count e \<longrightarrow> s \<noteq> ucast (block_num e)) \<longrightarrow> sectors d1 s = sectors d s"
      "\<forall>e\<in>set ?es. entry_dirty e \<and> 0 < access_count e \<longrightarrow> sectors d1 (ucast (block_num e)) = cached_data e"
      "device_good d1"
    using flush_entries_good [OF pre(1,2)] distinct_live_blocks [OF assms(1)] by blast
  have "sectors d1 (ucast b) = cview ?es d b" for b
  proof (cases rule: cache_ok_cases [OF assms(1), of b])
    case (1 k)
    show ?thesis
    proof (cases "entry_dirty (?es ! k)")
      case True
      with 1 d1(3) pre(3) show ?thesis by (auto simp: hit_def)
    next
      case False
      have "\<not> entry_dirty (?es ! j)" if "j < 32" "hit b (?es ! j)" for j
        using find_hit_unique [OF assms(1) that] find_hit_unique [OF assms(1) 1(1,2)] False by simp
      then have "\<forall>e\<in>set ?es. entry_dirty e \<and> 0 < access_count e \<longrightarrow> ucast b \<noteq> (ucast (block_num e) :: u64)"
        by (rule clean_block [OF pre(3)])
      with d1(2) have "sectors d1 (ucast b) = sectors d (ucast b)" by blast
      with 1 False assms(1) show ?thesis by (auto simp: cache_ok_def hit_def)
    qed
  next
    case 2
    then have "\<forall>e\<in>set ?es. entry_dirty e \<and> 0 < access_count e \<longrightarrow> ucast b \<noteq> (ucast (block_num e) :: u64)"
      by (intro clean_block [OF pre(3)]) blast
    with d1(2) 2 show ?thesis by simp
  qed
  note on_disk = this
  let ?clean = "\<lambda>e. if 0 < access_count e then e\<lparr>entry_dirty := False\<rparr> else e"
  have clean: "access_count (?clean e) = access_count e" "block_num (?clean e) = block_num e"
      "cached_data (?clean e) = cached_data e" "hit b (?clean e) = hit b e" for e b
    by (simp_all add: hit_def)
  have nth: "map ?clean ?es ! k = ?clean (?es ! k)" if "k < 32" for k using that pre(3) by simp
  have "sectors d1 (ucast (block_num (?es ! k))) = cached_data (?es ! k)" if "k < 32" "0 < access_count (?es ! k)" for k
    using on_disk [of "block_num (?es ! k)"] cview_hit [OF assms(1) that(1), of "block_num (?es ! k)"] that(2)
    by (simp add: hit_def)
  with pre d1(4) assms(1) nth have ok: "cache_ok (map ?clean ?es) d1"
    unfolding cache_ok_def by (simp add: clean) auto
  have "cview (map ?clean ?es) d1 b = cview ?es d b" for b
  proof (cases rule: cache_ok_cases [OF assms(1), of b])
    case (1 k)
    from cview_hit [OF ok 1(1), of b] 1 nth show ?thesis by (simp add: clean)
  next
    case 2
    then have "cview (map ?clean ?es) d1 b = sectors d1 (ucast b)" using pre(3) nth by (intro cview_miss) (simp add: clean)
    with on_disk 2 show ?thesis by simp
  qed
  with ok on_disk assms(2) d1(1) show ?thesis by (auto simp: flush_cache_def fun_eq_iff)
qed

section \<open>Properties\<close>

text \<open>C24: The block cache over a working disk refines a disk, as long as no access counter is about to
  wrap around: a read returns the contents of the block and changes no contents, a write replaces
  the contents of exactly its block, whichever entry is evicted for it, and a flush succeeds, leaves no dirty
  entry, makes every sector of the disk equal to the contents, and keeps the contents, so that later reads
  return them.\<close>

theorem cache_refines_disk:
  assumes "cache_ok (cache c) d" and "\<forall>e\<in>set (cache c). access_count e \<noteq> - 1" and "length dat = 512"
  shows "(case cached_read now b c d of (r, c', d') \<Rightarrow>
      r = Some (cview (cache c) d b) \<and> cache_ok (cache c') d' \<and> cview (cache c') d' = cview (cache c) d) \<and>
    (case cached_write now b dat c d of (r, c', d') \<Rightarrow>
      r \<and> cache_ok (cache c') d' \<and> cview (cache c') d' = (cview (cache c) d)(b := dat)) \<and>
    (case flush_cache c d of (r, c', d') \<Rightarrow>
      r \<and> (\<forall>e\<in>set (cache c'). 0 < access_count e \<longrightarrow> \<not> entry_dirty e) \<and>
      (\<forall>x. sectors d' (ucast x) = cview (cache c) d x) \<and>
      cache_ok (cache c') d' \<and> cview (cache c') d' = cview (cache c) d)"
proof (intro conjI)
  show "case cached_read now b c d of (r, c', d') \<Rightarrow>
      r = Some (cview (cache c) d b) \<and> cache_ok (cache c') d' \<and> cview (cache c') d' = cview (cache c) d"
    using cached_read_ok [OF assms(1,2)] by (auto split: prod.splits)
  show "case cached_write now b dat c d of (r, c', d') \<Rightarrow>
      r \<and> cache_ok (cache c') d' \<and> cview (cache c') d' = (cview (cache c) d)(b := dat)"
  proof -
    obtain r c' d' where e: "cached_write now b dat c d = (r, c', d')" by (rule prod_cases3)
    from cached_write_ok [OF assms e] e show ?thesis by simp
  qed
  show "case flush_cache c d of (r, c', d') \<Rightarrow>
      r \<and> (\<forall>e\<in>set (cache c'). 0 < access_count e \<longrightarrow> \<not> entry_dirty e) \<and>
      (\<forall>x. sectors d' (ucast x) = cview (cache c) d x) \<and>
      cache_ok (cache c') d' \<and> cview (cache c') d' = cview (cache c) d"
  proof -
    obtain r c' d' where e: "flush_cache c d = (r, c', d')" by (rule prod_cases3)
    from flush_cache_ok [OF assms(1) e] e show ?thesis by simp
  qed
qed

theorem cache_refines_disk_witness:
  "\<exists>d. device_good d \<and> (case cached_read 5 7 new_block_cache d of (r, c', d') \<Rightarrow> r = Some (sectors d 7))"
proof -
  let ?d = "\<lparr>sectors = (\<lambda>_. replicate 512 1), present = True, io_ok = (\<lambda>_. True), io_torn = (\<lambda>_. None), io_count = 0\<rparr>"
  have ok: "cache_ok (cache new_block_cache) ?d"
    by (simp add: cache_ok_def new_block_cache_def CACHE_SIZE_def empty_entry_def device_good_def BLOCK_SIZE_def)
  have "cview (cache new_block_cache) ?d 7 = replicate 512 1"
    by (subst cview_miss) (simp_all add: new_block_cache_def CACHE_SIZE_def hit_def empty_entry_def)
  moreover have "\<forall>e\<in>set (cache new_block_cache). access_count e \<noteq> - 1"
    by (simp add: new_block_cache_def CACHE_SIZE_def empty_entry_def)
  ultimately have "case cached_read 5 7 new_block_cache ?d of (r, c', d') \<Rightarrow> r = Some (replicate 512 1)"
    using cache_refines_disk [where dat = "replicate 512 0" and now = 5 and b = 7, OF ok] by auto
  then show ?thesis by (intro exI [of _ ?d]) (simp add: device_good_def)
qed

end
