(* ===== verification/Interleaving.thy ===== *)
theory Interleaving
  imports Prelude
begin

text \<open>
  Threads that share an object and interleave their atomic accesses to it. A thread is a program
  counter with its local values; one atomic access is a function \<open>act\<close> of the shared object and
  the program counter, with an argument for what is not determined by them (the operation an idle
  thread starts, a spurious failure of \<^verbatim>\<open>compare_exchange_weak\<close>). A schedule is the list of the
  threads in the order in which they take their turns: a statement about every schedule is a
  statement about every interleaving. The accesses are taken to be sequentially consistent. On
  x86\_64 every read-modify-write is a locked instruction, which is; a load and a releasing store are plain
  moves, and a processor may perform a later load before its store reaches the others. That delay is not
  part of the model.
\<close>

type_synonym ('s, 'p, 'e) threads = "'s \<times> 'p list \<times> (nat \<times> 'e) list"

definition turn ::
    "('c \<Rightarrow> 's \<Rightarrow> 'p \<Rightarrow> 's \<times> 'p \<times> 'e option) \<Rightarrow> nat \<times> 'c \<Rightarrow> ('s, 'p, 'e) threads \<Rightarrow> ('s, 'p, 'e) threads" where
  "turn act = (\<lambda>(t, c) (sh, pcs, log).
     if t < length pcs
     then case act c sh (pcs ! t) of (sh', p', e) \<Rightarrow>
       (sh', pcs[t := p'], log @ (case e of None \<Rightarrow> [] | Some e \<Rightarrow> [(t, e)]))
     else (sh, pcs, log))"

definition run_threads ::
    "('c \<Rightarrow> 's \<Rightarrow> 'p \<Rightarrow> 's \<times> 'p \<times> 'e option) \<Rightarrow> (nat \<times> 'c) list \<Rightarrow> ('s, 'p, 'e) threads \<Rightarrow> ('s, 'p, 'e) threads" where
  "run_threads act sched st = fold (turn act) sched st"

text \<open>How many threads are at a program counter, and how many events of a kind were logged.\<close>

definition threads_at :: "('p \<Rightarrow> bool) \<Rightarrow> 'p list \<Rightarrow> nat" where
  "threads_at P pcs = length (filter P pcs)"

definition events :: "('e \<Rightarrow> bool) \<Rightarrow> (nat \<times> 'e) list \<Rightarrow> nat" where
  "events P log = length (filter (\<lambda>(t, e). P e) log)"

definition events_of :: "nat \<Rightarrow> 'e \<Rightarrow> (nat \<times> 'e) list \<Rightarrow> nat" where
  "events_of t e log = length (filter (\<lambda>x. x = (t, e)) log)"

lemma threads_at_update:
  "t < length pcs \<Longrightarrow> threads_at P (pcs[t := p]) + of_bool (P (pcs ! t)) = threads_at P pcs + of_bool (P p)"
proof (induction pcs arbitrary: t)
  case (Cons q pcs)
  then show ?case by (cases t) (auto simp: threads_at_def)
qed simp

lemma threads_at_less: "t < length pcs \<Longrightarrow> \<not> P (pcs ! t) \<Longrightarrow> threads_at P pcs < length pcs"
  unfolding threads_at_def by (rule length_filter_less) auto

lemma threads_at_le: "threads_at P pcs \<le> length pcs"
  by (simp add: threads_at_def)

lemma threads_at_0: "threads_at P pcs = 0 \<longleftrightarrow> (\<forall>t<length pcs. \<not> P (pcs ! t))"
  by (simp add: threads_at_def filter_empty_conv all_set_conv_all_nth)

lemma threads_at_pos: "t < length pcs \<Longrightarrow> P (pcs ! t) \<Longrightarrow> 0 < threads_at P pcs"
  using threads_at_0 [of P pcs] by auto

lemma threads_at_unique:
  assumes "threads_at P pcs \<le> 1" and "i < length pcs" "P (pcs ! i)" and "j < length pcs" "P (pcs ! j)"
  shows "i = j"
  using assms
proof (induction pcs arbitrary: i j)
  case (Cons q pcs)
  have none: "\<not> P (pcs ! k)" if "P q" "k < length pcs" for k
    using Cons.prems(1) that threads_at_0 [of P pcs] by (auto simp: threads_at_def)
  from Cons show ?case
    by (cases i; cases j) (auto simp: threads_at_def dest: none split: if_splits)
qed simp

lemma threads_at_replicate: "threads_at P (replicate n p) = (if P p then n else 0)"
  by (induction n) (auto simp: threads_at_def)

lemma events_append: "events P (log @ log') = events P log + events P log'"
  by (simp add: events_def)

lemma events_single: "events P [(t, e)] = of_bool (P e)" "events P [] = 0"
  by (simp_all add: events_def)

lemma events_of_append: "events_of t e (log @ log') = events_of t e log + events_of t e log'"
  by (simp add: events_of_def)

lemma events_of_single: "events_of t e [(t', e')] = of_bool (t = t' \<and> e = e')" "events_of t e [] = 0"
  by (auto simp: events_of_def)

lemmas event_counts = events_append events_single events_of_append events_of_single

text \<open>
  An invariant of one atomic access is an invariant of every interleaving. Each primitive of
  \<^verbatim>\<open>sync/mod.rs\<close> is an instance.
\<close>

locale shared_object =
  fixes act :: "'c \<Rightarrow> 's \<Rightarrow> 'p \<Rightarrow> 's \<times> 'p \<times> 'e option"
    and inv :: "'s \<Rightarrow> 'p list \<Rightarrow> (nat \<times> 'e) list \<Rightarrow> bool"
  assumes act_inv: "inv sh pcs log \<Longrightarrow> t < length pcs \<Longrightarrow> act c sh (pcs ! t) = (sh', p', e) \<Longrightarrow>
    inv sh' (pcs[t := p']) (log @ (case e of None \<Rightarrow> [] | Some e \<Rightarrow> [(t, e)]))"
begin

lemma turn_inv:
  assumes "inv sh pcs log" and "turn act x (sh, pcs, log) = (sh', pcs', log')"
  shows "inv sh' pcs' log' \<and> length pcs' = length pcs"
  using assms act_inv [OF assms(1)] by (cases x) (auto simp: turn_def split: prod.splits if_splits)

lemma run_inv:
  "inv sh pcs log \<Longrightarrow> run_threads act sched (sh, pcs, log) = (sh', pcs', log') \<Longrightarrow>
     inv sh' pcs' log' \<and> length pcs' = length pcs"
proof (induction sched arbitrary: sh pcs log)
  case (Cons x sched)
  obtain sh1 pcs1 log1 where t: "turn act x (sh, pcs, log) = (sh1, pcs1, log1)" by (rule prod_cases3)
  from turn_inv [OF Cons.prems(1) t] Cons.IH [of sh1 pcs1 log1] Cons.prems(2) show ?case
    by (simp add: run_threads_def t)
qed (simp add: run_threads_def)

end

end
