(* ===== verification/Sync.thy ===== *)
theory Sync
  imports Interleaving
begin

text \<open>
  The synchronisation primitives of \<^verbatim>\<open>sync/mod.rs\<close>, each as the atomic accesses of its threads in the
  order of the code, run under every interleaving. A program counter names the access a thread makes
  next and holds the values the code has in local variables.
\<close>

section \<open>IrqSpinlock\<close>

text \<open>
  A thread is a CPU with its flags register; \<^verbatim>\<open>cli\<close> and \<^verbatim>\<open>sti\<close> clear and set bit 9.
  \<open>SHeld\<close> is a CPU that has a guard; dropping it stores to \<^verbatim>\<open>locked\<close> and then restores the flag.
\<close>

datatype spin_pc = SIdle | SCas u64 | SWait u64 | STry u64 | STryFailed u64 | SHeld u64 | SReleased u64

record spin_cpu =
  spin_at :: spin_pc
  rflags :: u64

datatype spin_choice = Lock | Try_lock | Spurious

definition IF_FLAG :: u64 where
  "IF_FLAG = 0x200"

definition save_and_disable_irq :: "spin_cpu \<Rightarrow> u64 \<times> spin_cpu" where
  "save_and_disable_irq c = (rflags c, c\<lparr>rflags := rflags c AND NOT IF_FLAG\<rparr>)"

definition restore_irq :: "u64 \<Rightarrow> spin_cpu \<Rightarrow> spin_cpu" where
  "restore_irq flags c = (if flags AND 0x200 \<noteq> 0 then c\<lparr>rflags := rflags c OR IF_FLAG\<rparr> else c)"

fun spin_act :: "spin_choice \<Rightarrow> bool \<Rightarrow> spin_cpu \<Rightarrow> bool \<times> spin_cpu \<times> unit option" where
  "spin_act ch locked c = (case spin_at c of
     SIdle \<Rightarrow> (case save_and_disable_irq c of (flags, c1) \<Rightarrow>
       (locked, c1\<lparr>spin_at := if ch = Try_lock then STry flags else SCas flags\<rparr>, None))
   | SCas f \<Rightarrow> if \<not> locked \<and> ch \<noteq> Spurious then (True, c\<lparr>spin_at := SHeld f\<rparr>, None)
       else (locked, c\<lparr>spin_at := SWait f\<rparr>, None)
   | SWait f \<Rightarrow> if locked then (locked, c, None) else (locked, c\<lparr>spin_at := SCas f\<rparr>, None)
   | STry f \<Rightarrow> if \<not> locked then (True, c\<lparr>spin_at := SHeld f\<rparr>, None)
       else (locked, c\<lparr>spin_at := STryFailed f\<rparr>, None)
   | STryFailed f \<Rightarrow> (locked, (restore_irq f c)\<lparr>spin_at := SIdle\<rparr>, None)
   | SHeld f \<Rightarrow> (False, c\<lparr>spin_at := SReleased f\<rparr>, None)
   | SReleased f \<Rightarrow> (locked, (restore_irq f c)\<lparr>spin_at := SIdle\<rparr>, None))"

section \<open>RwLock\<close>

record rwlock =
  readers :: usize
  writer :: bool

definition new_rwlock :: rwlock where
  "new_rwlock = \<lparr>readers = 0, writer = False\<rparr>"

datatype rw_pc = RwIdle | RWait | RInc | RCheck | RBack | RHeld | WCas | WSpin | WDrain | WHeld

datatype rw_choice = Read | Write | Spurious_cas

fun rw_act :: "rw_choice \<Rightarrow> rwlock \<Rightarrow> rw_pc \<Rightarrow> rwlock \<times> rw_pc \<times> unit option" where
  "rw_act ch l RwIdle = (l, if ch = Read then RWait else WCas, None)"
| "rw_act ch l RWait = (l, if writer l then RWait else RInc, None)"
| "rw_act ch l RInc = (l\<lparr>readers := readers l + 1\<rparr>, RCheck, None)"
| "rw_act ch l RCheck = (l, if writer l then RBack else RHeld, None)"
| "rw_act ch l RBack = (l\<lparr>readers := readers l - 1\<rparr>, RWait, None)"
| "rw_act ch l RHeld = (l\<lparr>readers := readers l - 1\<rparr>, RwIdle, None)"
| "rw_act ch l WCas =
     (if \<not> writer l \<and> ch \<noteq> Spurious_cas then (l\<lparr>writer := True\<rparr>, WDrain, None) else (l, WSpin, None))"
| "rw_act ch l WSpin = (l, if writer l then WSpin else WCas, None)"
| "rw_act ch l WDrain = (l, if readers l \<noteq> 0 then WDrain else WHeld, None)"
| "rw_act ch l WHeld = (l\<lparr>writer := False\<rparr>, RwIdle, None)"

section \<open>Semaphore\<close>

record semaphore =
  sem_count :: usize
  max_count :: usize

definition new_semaphore :: "usize \<Rightarrow> semaphore" where
  "new_semaphore initial = \<lparr>sem_count = initial, max_count = - 1\<rparr>"

definition bounded_semaphore :: "usize \<Rightarrow> usize \<Rightarrow> semaphore" where
  "bounded_semaphore initial mx = \<lparr>sem_count = initial, max_count = mx\<rparr>"

datatype sem_pc = SemIdle | AcqLoad | AcqCas usize | TryLoad | TryCas usize | RelLoad | RelCas usize

datatype sem_choice = Acquire | Try_acquire | Release | Spurious_sem

datatype sem_event = Acquired | Refused | Released | At_max

fun sem_act :: "sem_choice \<Rightarrow> semaphore \<Rightarrow> sem_pc \<Rightarrow> semaphore \<times> sem_pc \<times> sem_event option" where
  "sem_act ch s SemIdle = (s, (case ch of Acquire \<Rightarrow> AcqLoad | Try_acquire \<Rightarrow> TryLoad | _ \<Rightarrow> RelLoad), None)"
| "sem_act ch s AcqLoad = (s, if 0 < sem_count s then AcqCas (sem_count s) else AcqLoad, None)"
| "sem_act ch s (AcqCas current) =
     (if sem_count s = current \<and> ch \<noteq> Spurious_sem
      then (s\<lparr>sem_count := current - 1\<rparr>, SemIdle, Some Acquired) else (s, AcqLoad, None))"
| "sem_act ch s TryLoad =
     (if 0 < sem_count s then (s, TryCas (sem_count s), None) else (s, SemIdle, Some Refused))"
| "sem_act ch s (TryCas current) =
     (if sem_count s = current then (s\<lparr>sem_count := current - 1\<rparr>, SemIdle, Some Acquired)
      else (s, SemIdle, Some Refused))"
| "sem_act ch s RelLoad =
     (if max_count s \<le> sem_count s then (s, SemIdle, Some At_max) else (s, RelCas (sem_count s), None))"
| "sem_act ch s (RelCas current) =
     (if sem_count s = current \<and> ch \<noteq> Spurious_sem
      then (s\<lparr>sem_count := current + 1\<rparr>, SemIdle, Some Released) else (s, RelLoad, None))"

definition sem_available :: "semaphore \<Rightarrow> usize" where
  "sem_available s = sem_count s"

section \<open>Condvar\<close>

text \<open>
  \<open>CvNotify k\<close> is a thread inside \<^verbatim>\<open>notify_all\<close> with \<open>k\<close> stores left to make.
\<close>

record condvar =
  notified :: bool
  waiters :: usize

definition new_condvar :: condvar where
  "new_condvar = \<lparr>notified = False, waiters = 0\<rparr>"

datatype cv_pc = CvIdle | CvSwap | CvLeave | CvLoad | CvNotify nat

datatype cv_choice = Cv_wait | Cv_notify_one | Cv_notify_all

datatype cv_event = Woken | Notified

fun cv_act :: "cv_choice \<Rightarrow> condvar \<Rightarrow> cv_pc \<Rightarrow> condvar \<times> cv_pc \<times> cv_event option" where
  "cv_act ch v CvIdle = (case ch of
     Cv_wait \<Rightarrow> (v\<lparr>waiters := waiters v + 1\<rparr>, CvSwap, None)
   | Cv_notify_one \<Rightarrow> (v\<lparr>notified := True\<rparr>, CvIdle, Some Notified)
   | Cv_notify_all \<Rightarrow> (v, CvLoad, None))"
| "cv_act ch v CvSwap =
     (v\<lparr>notified := False\<rparr>, if notified v then CvLeave else CvSwap, if notified v then Some Woken else None)"
| "cv_act ch v CvLeave = (v\<lparr>waiters := waiters v - 1\<rparr>, CvIdle, None)"
| "cv_act ch v CvLoad = (v, CvNotify (unat (waiters v)), None)"
| "cv_act ch v (CvNotify 0) = (v, CvIdle, None)"
| "cv_act ch v (CvNotify (Suc k)) = (v\<lparr>notified := True\<rparr>, CvNotify k, Some Notified)"

definition has_waiters :: "condvar \<Rightarrow> bool" where
  "has_waiters v = (0 < waiters v)"

section \<open>Barrier\<close>

record barrier =
  threshold :: usize
  arrivals :: usize
  generation :: usize

definition new_barrier :: "usize \<Rightarrow> barrier" where
  "new_barrier n = \<lparr>threshold = n, arrivals = 0, generation = 0\<rparr>"

datatype bar_pc = BarIdle | BarArrive usize | BarSpin usize | BarReset | BarAdvance

datatype bar_event = Arrived | Left

fun bar_act :: "unit \<Rightarrow> barrier \<Rightarrow> bar_pc \<Rightarrow> barrier \<times> bar_pc \<times> bar_event option" where
  "bar_act ch b BarIdle = (b, BarArrive (generation b), None)"
| "bar_act ch b (BarArrive gen) =
     (b\<lparr>arrivals := arrivals b + 1\<rparr>,
      if threshold b \<le> arrivals b + 1 then BarReset else BarSpin gen, Some Arrived)"
| "bar_act ch b (BarSpin gen) =
     (if generation b = gen then (b, BarSpin gen, None) else (b, BarIdle, Some Left))"
| "bar_act ch b BarReset = (b\<lparr>arrivals := 0\<rparr>, BarAdvance, None)"
| "bar_act ch b BarAdvance = (b\<lparr>generation := generation b + 1\<rparr>, BarIdle, Some Left)"

section \<open>Once\<close>

definition ONCE_UNINIT :: usize where
  "ONCE_UNINIT = 0"

definition ONCE_RUNNING :: usize where
  "ONCE_RUNNING = 1"

definition ONCE_COMPLETE :: usize where
  "ONCE_COMPLETE = 2"

datatype once_pc = OnceIdle | OnceCheck | OnceCas | OnceRun | OnceStore | OnceSpin

datatype once_event = Ran | Returned

fun once_act :: "unit \<Rightarrow> usize \<Rightarrow> once_pc \<Rightarrow> usize \<times> once_pc \<times> once_event option" where
  "once_act ch st OnceIdle = (st, OnceCheck, None)"
| "once_act ch st OnceCheck =
     (if st = ONCE_COMPLETE then (st, OnceIdle, Some Returned) else (st, OnceCas, None))"
| "once_act ch st OnceCas = (if st = ONCE_UNINIT then (ONCE_RUNNING, OnceRun, None) else (st, OnceSpin, None))"
| "once_act ch st OnceRun = (st, OnceStore, Some Ran)"
| "once_act ch st OnceStore = (ONCE_COMPLETE, OnceIdle, Some Returned)"
| "once_act ch st OnceSpin =
     (if st \<noteq> ONCE_COMPLETE then (st, OnceSpin, None) else (st, OnceIdle, Some Returned))"

definition is_complete :: "usize \<Rightarrow> bool" where
  "is_complete st = (st = ONCE_COMPLETE)"

section \<open>Invariants\<close>

text \<open>The readers that the counter counts, and the thread that owns the writer flag.\<close>

definition rw_counted :: "rw_pc \<Rightarrow> bool" where
  "rw_counted p = (p = RCheck \<or> p = RHeld \<or> p = RBack)"

definition rw_writing :: "rw_pc \<Rightarrow> bool" where
  "rw_writing p = (p = WDrain \<or> p = WHeld)"

definition rw_inv :: "rwlock \<Rightarrow> rw_pc list \<Rightarrow> (nat \<times> unit) list \<Rightarrow> bool" where
  "rw_inv l pcs log \<longleftrightarrow> length pcs < 2 ^ 64 \<and> unat (readers l) = threads_at rw_counted pcs \<and>
     threads_at rw_writing pcs = of_bool (writer l) \<and>
     (threads_at ((=) WHeld) pcs = 0 \<or> threads_at ((=) RHeld) pcs = 0)"

lemma rw_held_le: "threads_at ((=) RHeld) pcs \<le> threads_at rw_counted pcs"
  "threads_at ((=) WHeld) pcs \<le> threads_at rw_writing pcs"
  by (induction pcs) (auto simp: threads_at_def rw_counted_def rw_writing_def)

lemma unat_inc: "unat (x :: u64) + 1 < 2 ^ 64 \<Longrightarrow> unat (x + 1) = unat x + 1"
  by (simp add: unat_word_ariths)

lemma unat_dec: "0 < unat (x :: u64) \<Longrightarrow> unat (x - 1) = unat x - 1"
  by (metis unat_gt_0 unat_minus_one)

interpretation rw: shared_object rw_act rw_inv
proof unfold_locales
  fix l pcs log t c l' p' e
  assume i: "rw_inv l pcs log" and t: "t < length pcs" and a: "rw_act c l (pcs ! t) = (l', p', e)"
  note u = threads_at_update [OF t, of rw_counted p'] threads_at_update [OF t, of rw_writing p']
    threads_at_update [OF t, of "(=) WHeld" p'] threads_at_update [OF t, of "(=) RHeld" p']
  note le = rw_held_le [of pcs] threads_at_less [OF t, of rw_counted] threads_at_pos [OF t, of rw_counted]
    threads_at_pos [OF t, of rw_writing]
  show "rw_inv l' (pcs[t := p']) (log @ (case e of None \<Rightarrow> [] | Some e \<Rightarrow> [(t, e)]))"
    using i a u le unat_inc [of "readers l"] unat_dec [of "readers l"]
    by (cases "pcs ! t") (auto simp: rw_inv_def rw_counted_def rw_writing_def unat_eq_0 split: if_splits)
qed

text \<open>A CPU holds the lock while its guard lives. Its flags are those it came with, or those with the
  interrupt flag cleared while it is inside an operation.\<close>

definition spin_holds :: "spin_cpu \<Rightarrow> bool" where
  "spin_holds c = (case spin_at c of SHeld f \<Rightarrow> True | _ \<Rightarrow> False)"

definition spin_flags_ok :: "u64 \<Rightarrow> spin_cpu \<Rightarrow> bool" where
  "spin_flags_ok r c = (case spin_at c of SIdle \<Rightarrow> rflags c = r
     | SCas f \<Rightarrow> f = r \<and> rflags c = r AND NOT IF_FLAG | SWait f \<Rightarrow> f = r \<and> rflags c = r AND NOT IF_FLAG
     | STry f \<Rightarrow> f = r \<and> rflags c = r AND NOT IF_FLAG | STryFailed f \<Rightarrow> f = r \<and> rflags c = r AND NOT IF_FLAG
     | SHeld f \<Rightarrow> f = r \<and> rflags c = r AND NOT IF_FLAG | SReleased f \<Rightarrow> f = r \<and> rflags c = r AND NOT IF_FLAG)"

definition spin_inv :: "(nat \<Rightarrow> u64) \<Rightarrow> bool \<Rightarrow> spin_cpu list \<Rightarrow> (nat \<times> unit) list \<Rightarrow> bool" where
  "spin_inv r locked cpus log \<longleftrightarrow> threads_at spin_holds cpus = of_bool locked \<and>
     (\<forall>t<length cpus. spin_flags_ok (r t) (cpus ! t))"

lemma and_IF_FLAG: "x AND 0x200 = 0 \<longleftrightarrow> \<not> bit x 9" for x :: u64
  using and_exp_eq_0_iff [of 9 x] by simp

lemma restore_disabled:
  "x AND 0x200 \<noteq> 0 \<Longrightarrow> x AND NOT IF_FLAG OR IF_FLAG = x" "x AND 0x200 = 0 \<Longrightarrow> x AND NOT IF_FLAG = x" for x :: u64
proof -
  have b: "bit IF_FLAG n \<longleftrightarrow> n = 9" for n
    using bit_exp_word [where 'a = 64, of 9 n] by (simp add: IF_FLAG_def)
  show "x AND 0x200 \<noteq> 0 \<Longrightarrow> x AND NOT IF_FLAG OR IF_FLAG = x"
    by (rule bit_word_eqI) (auto simp: and_IF_FLAG b bit_simps)
  show "x AND 0x200 = 0 \<Longrightarrow> x AND NOT IF_FLAG = x"
    by (rule bit_word_eqI) (auto simp: and_IF_FLAG b bit_simps)
qed

lemma spin_act_flags:
  "spin_flags_ok r c \<Longrightarrow> spin_act ch locked c = (locked', c', e) \<Longrightarrow> spin_flags_ok r c'"
  by (cases "spin_at c")
     (auto simp: spin_flags_ok_def save_and_disable_irq_def restore_irq_def restore_disabled split: if_splits)

lemma spin_act_holds:
  "spin_act ch locked c = (locked', c', e) \<Longrightarrow> (spin_holds c \<longrightarrow> locked) \<Longrightarrow>
     of_bool locked' + of_bool (spin_holds c) = (of_bool locked + of_bool (spin_holds c') :: nat)"
  by (cases "spin_at c")
     (auto simp: spin_holds_def save_and_disable_irq_def restore_irq_def split: if_splits)

interpretation spin: shared_object spin_act "spin_inv r" for r
proof unfold_locales
  fix locked cpus log t ch locked' c' e
  assume i: "spin_inv r locked cpus log" and t: "t < length cpus"
    and a: "spin_act ch locked (cpus ! t) = (locked', c', e)"
  have "spin_holds (cpus ! t) \<Longrightarrow> locked"
    using i threads_at_pos [OF t, of spin_holds] by (cases locked) (auto simp: spin_inv_def)
  from spin_act_holds [OF a impI [OF this]] threads_at_update [OF t, of spin_holds c'] i
  have "threads_at spin_holds (cpus[t := c']) = of_bool locked'" by (simp add: spin_inv_def)
  moreover have "spin_flags_ok (r k) (cpus[t := c'] ! k)" if "k < length cpus" for k
    using i that t spin_act_flags [OF _ a, of "r t"] by (cases "k = t") (simp_all add: spin_inv_def)
  ultimately show "spin_inv r locked' (cpus[t := c']) (log @ (case e of None \<Rightarrow> [] | Some e \<Rightarrow> [(t, e)]))"
    by (simp add: spin_inv_def)
qed

text \<open>The value a thread has loaded from the semaphore is one it may still take or give back.\<close>

definition sem_pc_ok :: "usize \<Rightarrow> sem_pc \<Rightarrow> bool" where
  "sem_pc_ok mx p = (case p of AcqCas x \<Rightarrow> 0 < x | TryCas x \<Rightarrow> 0 < x | RelCas x \<Rightarrow> x < mx | _ \<Rightarrow> True)"

definition sem_inv :: "usize \<Rightarrow> usize \<Rightarrow> semaphore \<Rightarrow> sem_pc list \<Rightarrow> (nat \<times> sem_event) list \<Rightarrow> bool" where
  "sem_inv initial mx s pcs log \<longleftrightarrow> max_count s = mx \<and> (\<forall>p\<in>set pcs. sem_pc_ok mx p) \<and>
     unat (sem_count s) + events ((=) Acquired) log = unat initial + events ((=) Released) log \<and>
     sem_count s \<le> max initial mx"

lemma u64_below: "x < y \<Longrightarrow> unat (x + 1) = unat x + 1 \<and> x + 1 \<le> y" for x y :: u64
  using unat_less_u64 [of y] unat_inc [of x] by (simp add: word_less_nat_alt word_le_nat_alt)

lemma u64_above: "0 < x \<Longrightarrow> unat (x - 1) + 1 = unat x \<and> x - 1 \<le> x" for x :: u64
  using unat_dec [of x] by (simp add: word_less_nat_alt word_le_nat_alt)

lemma sem_act_pc_ok: "sem_act ch s p = (s', p', e) \<Longrightarrow> sem_pc_ok (max_count s) p'"
  by (cases p) (auto simp: sem_pc_ok_def split: if_splits sem_choice.splits)

lemma sem_act_count:
  assumes "sem_act ch s p = (s', p', e)" and "sem_pc_ok (max_count s) p"
  shows "s' = s \<and> e \<noteq> Some Acquired \<and> e \<noteq> Some Released \<or>
    0 < sem_count s \<and> s' = s\<lparr>sem_count := sem_count s - 1\<rparr> \<and> e = Some Acquired \<or>
    sem_count s < max_count s \<and> s' = s\<lparr>sem_count := sem_count s + 1\<rparr> \<and> e = Some Released"
  using assms by (cases p) (auto simp: sem_pc_ok_def split: if_splits)

lemma sem_act_inv:
  assumes i: "sem_inv initial mx s pcs log" and t: "t < length pcs" and a: "sem_act ch s (pcs ! t) = (s', p', e)"
  shows "sem_inv initial mx s' (pcs[t := p']) (log @ (case e of None \<Rightarrow> [] | Some e \<Rightarrow> [(t, e)]))"
proof -
  have mx: "max_count s = mx" and ok: "sem_pc_ok mx (pcs ! t)" using i t by (simp_all add: sem_inv_def)
  from sem_act_pc_ok [OF a] mx have pcs: "\<forall>p\<in>set (pcs[t := p']). sem_pc_ok mx p"
    using i set_update_subset_insert [of pcs t p'] by (auto simp: sem_inv_def)
  from sem_act_count [OF a] ok mx consider
    (same) "s' = s" "e \<noteq> Some Acquired" "e \<noteq> Some Released"
    | (down) "0 < sem_count s" "s' = s\<lparr>sem_count := sem_count s - 1\<rparr>" "e = Some Acquired"
    | (up) "sem_count s < mx" "s' = s\<lparr>sem_count := sem_count s + 1\<rparr>" "e = Some Released"
    by auto
  then show ?thesis
  proof cases
    case same
    with i pcs show ?thesis by (cases e) (auto simp: sem_inv_def event_counts)
  next
    case down
    with i pcs u64_above [OF down(1)] show ?thesis by (auto simp: sem_inv_def event_counts)
  next
    case up
    with i pcs u64_below [OF up(1)] show ?thesis by (auto simp: sem_inv_def event_counts max.coboundedI2)
  qed
qed

interpretation sem: shared_object sem_act "sem_inv initial mx" for initial mx
  by unfold_locales (rule sem_act_inv)

text \<open>Every wake-up uses up one store to the flag.\<close>

definition cv_inv :: "condvar \<Rightarrow> cv_pc list \<Rightarrow> (nat \<times> cv_event) list \<Rightarrow> bool" where
  "cv_inv v pcs log \<longleftrightarrow> events ((=) Woken) log + of_bool (notified v) \<le> events ((=) Notified) log"

lemma cv_act_inv:
  "cv_inv v pcs log \<Longrightarrow> cv_act ch v p = (v', p', e) \<Longrightarrow>
     cv_inv v' (pcs[t := p']) (log @ (case e of None \<Rightarrow> [] | Some e \<Rightarrow> [(t, e)]))"
  by (induction ch v p rule: cv_act.induct)
     (auto simp: cv_inv_def event_counts split: if_splits cv_choice.splits)

interpretation cv: shared_object cv_act cv_inv
  by unfold_locales (rule cv_act_inv)

text \<open>
  When the barrier has opened \<open>G\<close> times, a thread has arrived \<open>G\<close> or \<open>G + 1\<close> times. Those that have
  arrived \<open>G + 1\<close> times wait; the last of them opens the barrier.
\<close>

definition bar_waits :: "nat \<Rightarrow> bar_pc \<Rightarrow> bool" where
  "bar_waits G p = (p = BarSpin (of_nat G) \<or> p = BarReset \<or> p = BarAdvance)"

definition bar_opens :: "bar_pc \<Rightarrow> bool" where
  "bar_opens p = (p = BarReset \<or> p = BarAdvance)"

definition bar_thread_ok :: "nat \<Rightarrow> bar_pc \<Rightarrow> nat \<Rightarrow> nat \<Rightarrow> bool" where
  "bar_thread_ok G p arrived left = (case p of
     BarIdle \<Rightarrow> arrived = G \<and> left = G
   | BarArrive g \<Rightarrow> g = of_nat G \<and> arrived = G \<and> left = G
   | BarSpin g \<Rightarrow> g = of_nat G \<and> arrived = G + 1 \<and> left = G \<or> g = of_nat G - 1 \<and> arrived = G \<and> left + 1 = G
   | _ \<Rightarrow> arrived = G + 1 \<and> left = G)"

definition bar_phase :: "nat \<Rightarrow> barrier \<Rightarrow> bar_pc list \<Rightarrow> (nat \<times> bar_event) list \<Rightarrow> bool" where
  "bar_phase G b pcs log \<longleftrightarrow> generation b = of_nat G \<and> threshold b = of_nat (length pcs) \<and> length pcs < 2 ^ 64 \<and>
     (\<forall>t<length pcs. bar_thread_ok G (pcs ! t) (events_of t Arrived log) (events_of t Left log)) \<and>
     arrivals b = (if threads_at ((=) BarAdvance) pcs = 0 then of_nat (threads_at (bar_waits G) pcs) else 0) \<and>
     threads_at bar_opens pcs = of_bool (threads_at (bar_waits G) pcs = length pcs)"

definition bar_inv :: "barrier \<Rightarrow> bar_pc list \<Rightarrow> (nat \<times> bar_event) list \<Rightarrow> bool" where
  "bar_inv b pcs log \<longleftrightarrow> (\<exists>G. bar_phase G b pcs log)"

lemma bar_phase_update:
  assumes "bar_phase G b pcs log" and t: "t < length pcs"
    and "generation b' = of_nat G" "threshold b' = threshold b"
    and ok: "bar_thread_ok G p (events_of t Arrived (log @ l)) (events_of t Left (log @ l))" and l: "\<forall>(t', e)\<in>set l. t' = t"
    and "arrivals b' = (if threads_at ((=) BarAdvance) (pcs[t := p]) = 0
           then of_nat (threads_at (bar_waits G) (pcs[t := p])) else 0)"
    and "threads_at bar_opens (pcs[t := p]) = of_bool (threads_at (bar_waits G) (pcs[t := p]) = length pcs)"
  shows "bar_phase G b' (pcs[t := p]) (log @ l)"
proof -
  have "events_of k e l = 0" if "k \<noteq> t" for k e
    using l that by (auto simp: events_of_def filter_empty_conv)
  with assms show ?thesis by (auto simp: bar_phase_def nth_list_update events_of_append)
qed

lemma bar_opens_le: "threads_at ((=) BarAdvance) pcs \<le> threads_at bar_opens pcs"
  by (induction pcs) (auto simp: threads_at_def bar_opens_def)

lemma threads_at_all: "threads_at P pcs = length pcs \<Longrightarrow> t < length pcs \<Longrightarrow> P (pcs ! t)"
  using threads_at_less [of t pcs P] by auto

lemma of_nat_Suc_neq: "(of_nat G :: u64) \<noteq> of_nat G - 1" "(of_nat G :: u64) - 1 \<noteq> of_nat G"
  by (simp_all add: algebra_simps)

lemma bar_arrive_phase:
  assumes i: "bar_phase G b pcs log" and t: "t < length pcs" and p: "pcs ! t = BarArrive g"
    and a: "bar_act ch b (pcs ! t) = (b', p', e)"
  shows "bar_phase G b' (pcs[t := p']) (log @ [(t, Arrived)])"
proof -
  let ?w = "threads_at (bar_waits G) pcs"
  have nw: "\<not> bar_waits G (pcs ! t)" by (simp add: p bar_waits_def)
  have w: "?w < length pcs" by (rule threads_at_less [of _ _ "bar_waits G", OF t nw])
  with i have o: "threads_at bar_opens pcs = 0" by (simp add: bar_phase_def)
  with bar_opens_le [of pcs] have adv: "threads_at ((=) BarAdvance) pcs = 0" by simp
  from i have n: "length pcs < 2 ^ 64" by (simp add: bar_phase_def)
  have arr: "arrivals b + 1 = of_nat (?w + 1)" using i adv by (simp add: bar_phase_def)
  have "unat (arrivals b + 1) = ?w + 1" "unat (threshold b) = length pcs"
    using i w n unat_of_nat_u64 [of "?w + 1"] unfolding arr by (simp_all add: bar_phase_def unat_of_nat_u64)
  then have "threshold b \<le> arrivals b + 1 \<longleftrightarrow> ?w + 1 = length pcs"
    using w by (auto simp: word_le_nat_alt)
  then have p': "p' = (if ?w + 1 = length pcs then BarReset else BarSpin g)"
    and b': "b' = b\<lparr>arrivals := of_nat (?w + 1)\<rparr>" using a p arr by auto
  have g: "g = of_nat G" using i t p by (auto simp: bar_phase_def bar_thread_ok_def dest: spec [of _ t])
  have up: "threads_at (bar_waits G) (pcs[t := p']) = ?w + 1" "threads_at ((=) BarAdvance) (pcs[t := p']) = 0"
    "threads_at bar_opens (pcs[t := p']) = of_bool (?w + 1 = length pcs)"
    using threads_at_update [OF t, of "bar_waits G" p'] threads_at_update [OF t, of "(=) BarAdvance" p']
      threads_at_update [OF t, of bar_opens p'] p p' g o adv
    by (auto simp: bar_waits_def bar_opens_def split: if_splits)
  show ?thesis
    using i t p p' g b' up
    by (intro bar_phase_update [OF i t]) (auto simp: bar_phase_def bar_thread_ok_def events_of_append
        events_of_single dest: spec [of _ t])
qed

lemma bar_advance_phase:
  assumes i: "bar_phase G b pcs log" and t: "t < length pcs" and p: "pcs ! t = BarAdvance"
  shows "bar_phase (Suc G) (b\<lparr>generation := generation b + 1\<rparr>) (pcs[t := BarIdle]) (log @ [(t, Left)])"
proof -
  have "0 < threads_at bar_opens pcs" by (rule threads_at_pos [OF t]) (simp add: p bar_opens_def)
  with i have o: "threads_at bar_opens pcs = 1" and w: "threads_at (bar_waits G) pcs = length pcs"
    by (auto simp: bar_phase_def split: if_splits)
  have spin: "pcs ! k = BarSpin (of_nat G)" if "k < length pcs" "k \<noteq> t" for k
  proof -
    have "\<not> bar_opens (pcs ! k)"
      using threads_at_unique [of bar_opens pcs k t] o that t p by (auto simp: bar_opens_def)
    with threads_at_all [OF w that(1)] show ?thesis by (auto simp: bar_waits_def bar_opens_def)
  qed
  have zero: "threads_at P (pcs[t := BarIdle]) = 0" if "\<not> P BarIdle" "\<not> P (BarSpin (of_nat G))" for P
    using that spin t by (simp add: threads_at_0 nth_list_update)
  have z: "threads_at bar_opens (pcs[t := BarIdle]) = 0" "threads_at ((=) BarAdvance) (pcs[t := BarIdle]) = 0"
    "threads_at (bar_waits (Suc G)) (pcs[t := BarIdle]) = 0"
    by (rule zero; simp add: bar_opens_def bar_waits_def of_nat_Suc_neq)+
  have "0 < threads_at ((=) BarAdvance) pcs" by (rule threads_at_pos [OF t]) (simp add: p)
  with i have arr: "arrivals b = 0" by (simp add: bar_phase_def)
  have "bar_thread_ok (Suc G) (pcs[t := BarIdle] ! k) (events_of k Arrived (log @ [(t, Left)]))
      (events_of k Left (log @ [(t, Left)]))" if "k < length pcs" for k
    using i that t p spin [of k]
    by (cases "k = t") (auto simp: bar_phase_def bar_thread_ok_def event_counts of_nat_Suc_neq dest: spec [of _ k])
  with i t z arr show ?thesis by (auto simp: bar_phase_def)
qed

lemma bar_act_inv:
  assumes "bar_inv b pcs log" and t: "t < length pcs" and a: "bar_act ch b (pcs ! t) = (b', p', e)"
  shows "bar_inv b' (pcs[t := p']) (log @ (case e of None \<Rightarrow> [] | Some e \<Rightarrow> [(t, e)]))"
proof -
  from assms obtain G where i: "bar_phase G b pcs log" by (auto simp: bar_inv_def)
  have ok: "bar_thread_ok G (pcs ! t) (events_of t Arrived log) (events_of t Left log)"
    and gen: "generation b = of_nat G" using i t by (simp_all add: bar_phase_def)
  note u = threads_at_update [OF t, of "bar_waits G" p'] threads_at_update [OF t, of "(=) BarAdvance" p']
      threads_at_update [OF t, of bar_opens p']
  note upd = bar_phase_update [OF i t, of b' p' "case e of None \<Rightarrow> [] | Some e \<Rightarrow> [(t, e)]"]
  show ?thesis
  proof (cases "pcs ! t")
    case (BarArrive g)
    with a bar_arrive_phase [OF i t BarArrive a] show ?thesis by (auto simp: bar_inv_def)
  next
    case BarAdvance
    with a bar_advance_phase [OF i t] show ?thesis by (auto simp: bar_inv_def)
  next
    case BarIdle
    with a i ok gen u show ?thesis unfolding bar_inv_def
      by (intro exI [of _ G] upd) (auto simp: bar_phase_def bar_thread_ok_def bar_waits_def bar_opens_def event_counts)
  next
    case BarReset
    have "0 < threads_at bar_opens pcs" by (rule threads_at_pos [OF t]) (simp add: BarReset bar_opens_def)
    with BarReset a i ok gen u show ?thesis unfolding bar_inv_def
      by (intro exI [of _ G] upd) (auto simp: bar_phase_def bar_thread_ok_def bar_waits_def bar_opens_def event_counts)
  next
    case (BarSpin g)
    show ?thesis
    proof (cases "g = of_nat G")
      case True
      with BarSpin a gen i t show ?thesis by (auto simp: bar_inv_def list_update_same_conv)
    next
      case False
      with BarSpin a i ok gen u of_nat_Suc_neq [of G] show ?thesis unfolding bar_inv_def
        by (intro exI [of _ G] upd) (auto simp: bar_phase_def bar_thread_ok_def bar_waits_def bar_opens_def event_counts)
    qed
  qed
qed

interpretation bar: shared_object bar_act bar_inv
  by unfold_locales (rule bar_act_inv)

definition once_active :: "once_pc \<Rightarrow> bool" where
  "once_active p = (p = OnceRun \<or> p = OnceStore)"

definition once_inv :: "usize \<Rightarrow> once_pc list \<Rightarrow> (nat \<times> once_event) list \<Rightarrow> bool" where
  "once_inv st pcs log \<longleftrightarrow> st \<in> {ONCE_UNINIT, ONCE_RUNNING, ONCE_COMPLETE} \<and>
     threads_at once_active pcs = of_bool (st = ONCE_RUNNING) \<and>
     events ((=) Ran) log = threads_at ((=) OnceStore) pcs + of_bool (st = ONCE_COMPLETE) \<and>
     (events ((=) Returned) log = 0 \<or> st = ONCE_COMPLETE)"

lemmas once_states = ONCE_UNINIT_def ONCE_RUNNING_def ONCE_COMPLETE_def

lemma once_store_le: "threads_at ((=) OnceStore) pcs \<le> threads_at once_active pcs"
  by (induction pcs) (auto simp: threads_at_def once_active_def)

lemma once_act_inv:
  assumes "once_inv st pcs log" and t: "t < length pcs" and "once_act ch st (pcs ! t) = (st', p', e)"
  shows "once_inv st' (pcs[t := p']) (log @ (case e of None \<Rightarrow> [] | Some e \<Rightarrow> [(t, e)]))"
  using assms threads_at_update [OF t, of once_active p'] threads_at_update [OF t, of "(=) OnceStore" p']
    threads_at_pos [OF t, of once_active] threads_at_pos [OF t, of "(=) OnceStore"] once_store_le [of pcs]
  by (cases "pcs ! t") (auto simp: once_inv_def once_active_def event_counts once_states split: if_splits)

interpretation once: shared_object once_act once_inv
  by unfold_locales (rule once_act_inv)

lemma cv_wait_turns:
  assumes "events ((=) Woken) log + of_bool (notified v) \<le> 1" and "\<forall>p\<in>set pcs. p \<in> {CvIdle, CvSwap, CvLeave}"
    and t: "t < length pcs" and a: "cv_act Cv_wait v (pcs ! t) = (v', p', e)"
  shows "events ((=) Woken) (log @ (case e of None \<Rightarrow> [] | Some e \<Rightarrow> [(t, e)])) + of_bool (notified v') \<le> 1 \<and>
    (\<forall>p\<in>set (pcs[t := p']). p \<in> {CvIdle, CvSwap, CvLeave})"
proof -
  from assms have p: "pcs ! t = CvIdle \<or> pcs ! t = CvSwap \<or> pcs ! t = CvLeave" by simp
  with a have "p' = CvIdle \<or> p' = CvSwap \<or> p' = CvLeave" by (elim disjE) (auto split: if_splits)
  with assms(2) set_update_subset_insert [of pcs t p']
  have "\<forall>p\<in>set (pcs[t := p']). p \<in> {CvIdle, CvSwap, CvLeave}" by blast
  moreover have "events ((=) Woken) (log @ (case e of None \<Rightarrow> [] | Some e \<Rightarrow> [(t, e)])) + of_bool (notified v') \<le> 1"
    using p a assms(1) by (elim disjE) (auto simp: event_counts split: if_splits)
  ultimately show ?thesis by simp
qed

interpretation cv_quiet: shared_object "\<lambda>_. cv_act Cv_wait"
  "\<lambda>v pcs log. events ((=) Woken) log + of_bool (notified v) \<le> 1 \<and> (\<forall>p\<in>set pcs. p \<in> {CvIdle, CvSwap, CvLeave})"
  by unfold_locales (use cv_wait_turns in blast)

lemma run_threads_simps:
  "run_threads act [] st = st" "run_threads act (x # xs) st = run_threads act xs (turn act x st)"
  "run_threads act (xs @ ys) st = run_threads act ys (run_threads act xs st)"
  by (simp_all add: run_threads_def)

lemma notify_stores:
  assumes "t < length pcs" and "pcs ! t = CvNotify k"
  shows "\<exists>log'. run_threads cv_act (replicate k (t, ch)) (v, pcs, log) =
      (v\<lparr>notified := notified v \<or> 0 < k\<rparr>, pcs[t := CvNotify 0], log @ log') \<and> events ((=) Woken) log' = 0"
  using assms
proof (induction k arbitrary: v pcs log)
  case 0
  then have "pcs[t := CvNotify 0] = pcs" by (simp add: list_update_same_conv)
  then show ?case by (simp add: run_threads_simps events_single exI [of _ "[]"])
next
  case (Suc k)
  let ?v = "v\<lparr>notified := True\<rparr>" and ?pcs = "pcs[t := CvNotify k]"
  from Suc.prems have s: "turn cv_act (t, ch) (v, pcs, log) = (?v, ?pcs, log @ [(t, Notified)])"
    by (simp add: turn_def)
  from Suc.IH [of ?pcs ?v "log @ [(t, Notified)]"] Suc.prems obtain log' where
    "run_threads cv_act (replicate k (t, ch)) (?v, ?pcs, log @ [(t, Notified)]) =
       (?v\<lparr>notified := notified ?v \<or> 0 < k\<rparr>, ?pcs[t := CvNotify 0], (log @ [(t, Notified)]) @ log')"
    "events ((=) Woken) log' = 0" by auto
  with s show ?case
    by (auto simp: run_threads_simps event_counts intro!: exI [of _ "(t, Notified) # log'"])
       (simp add: events_def)
qed

lemma notify_all_run:
  assumes n: "n < 2 ^ 64"
  shows "\<exists>log. run_threads cv_act (replicate (n + 3) (n, Cv_notify_all))
      (\<lparr>notified = False, waiters = of_nat n\<rparr>, replicate n CvSwap @ [CvIdle], []) =
      (\<lparr>notified = 0 < n, waiters = of_nat n\<rparr>, replicate n CvSwap @ [CvIdle], log) \<and> events ((=) Woken) log = 0"
proof -
  let ?v = "\<lparr>notified = False, waiters = of_nat n\<rparr>" and ?w = "replicate n CvSwap"
  have nth: "(?w @ [p]) ! n = p" "(?w @ [p])[n := q] = ?w @ [q]" for p q
    by (simp_all add: nth_append list_update_append)
  have start: "run_threads cv_act [(n, Cv_notify_all), (n, Cv_notify_all)] (?v, ?w @ [CvIdle], []) =
      (?v, ?w @ [CvNotify n], [])"
    using n by (simp add: run_threads_simps turn_def nth unat_of_nat_u64)
  from notify_stores [of n "?w @ [CvNotify n]" n Cv_notify_all ?v "[]"] obtain log where
    mid: "run_threads cv_act (replicate n (n, Cv_notify_all)) (?v, ?w @ [CvNotify n], []) =
       (?v\<lparr>notified := 0 < n\<rparr>, ?w @ [CvNotify 0], log)" "events ((=) Woken) log = 0"
    by (auto simp: nth)
  have "replicate (n + 3) x = [x, x] @ replicate n x @ [x]" for x :: "nat \<times> cv_choice"
    by (simp add: replicate_app_Cons_same numeral_3_eq_3)
  with start mid show ?thesis
    by (simp only: run_threads_simps) (simp add: run_threads_simps turn_def nth)
qed

lemma replicate_2: "replicate 2 x = [x, x]"
  by (simp add: numeral_2_eq_2)

section \<open>Properties\<close>

text \<open>C25: In every interleaving of fewer than $2^{64}$ threads that take and drop the guards of an
  \<^verbatim>\<open>RwLock\<close>, a write guard excludes every other guard: while one thread holds it no other thread holds a
  write or a read guard.\<close>

theorem rwlock_exclusion:
  assumes "n < 2 ^ 64"
    and "run_threads rw_act sched (new_rwlock, replicate n RwIdle, []) = (l, pcs, log)"
    and "i < n" and "pcs ! i = WHeld"
  shows "writer l \<and> (\<forall>j<n. j \<noteq> i \<longrightarrow> pcs ! j \<noteq> WHeld \<and> pcs ! j \<noteq> RHeld)"
proof -
  have "rw_inv new_rwlock (replicate n RwIdle) []"
    using assms(1) by (simp add: rw_inv_def new_rwlock_def threads_at_replicate rw_counted_def rw_writing_def)
  from rw.run_inv [OF this assms(2)] have i: "rw_inv l pcs log" and n: "length pcs = n" by simp_all
  have "0 < threads_at rw_writing pcs" "0 < threads_at ((=) WHeld) pcs"
    using assms(3,4) n threads_at_pos [of i pcs rw_writing] threads_at_pos [of i pcs "(=) WHeld"]
    by (simp_all add: rw_writing_def)
  with i have w: "writer l" and le: "threads_at rw_writing pcs \<le> 1" and r: "threads_at ((=) RHeld) pcs = 0"
    unfolding rw_inv_def by (cases "writer l"; simp)+
  have "pcs ! j \<noteq> WHeld \<and> pcs ! j \<noteq> RHeld" if "j < n" "j \<noteq> i" for j
    using threads_at_unique [OF le, of i j] r that assms(3,4) n by (auto simp: rw_writing_def threads_at_0)
  with w show ?thesis by blast
qed

theorem rwlock_exclusion_witness:
  "snd (run_threads rw_act [(0, Write), (1, Read), (1, Read), (0, Write), (0, Write), (1, Read), (1, Read)]
      (new_rwlock, replicate 2 RwIdle, [])) = ([WHeld, RBack], []) \<and>
   [WHeld, RBack] ! 1 \<noteq> WHeld \<and> [WHeld, RBack] ! 1 \<noteq> RHeld"
proof -
  have r: "run_threads rw_act [(0, Write), (1, Read), (1, Read), (0, Write), (0, Write), (1, Read), (1, Read)]
      (new_rwlock, replicate 2 RwIdle, []) = (\<lparr>readers = 1, writer = True\<rparr>, [WHeld, RBack], [])"
    by (simp add: run_threads_def turn_def new_rwlock_def replicate_2)
  from rwlock_exclusion [OF _ r, of 0] r show ?thesis by simp
qed

text \<open>C26: In every interleaving of the CPUs that use an \<^verbatim>\<open>IrqSpinlock\<close>, through \<^verbatim>\<open>lock\<close> or \<^verbatim>\<open>try_lock\<close>, at
  most one CPU holds a guard, the flag \<^verbatim>\<open>locked\<close> says whether one does, interrupts are off on the CPU that
  holds it, and a CPU that is done has its flags register back.\<close>

theorem spinlock_exclusion:
  assumes "run_threads spin_act sched (False, cpus, []) = (locked, cpus', log)"
    and "\<forall>c\<in>set cpus. spin_at c = SIdle"
  shows "(locked \<longleftrightarrow> (\<exists>i<length cpus. spin_holds (cpus' ! i))) \<and>
    (\<forall>i<length cpus. \<forall>j<length cpus. spin_holds (cpus' ! i) \<and> spin_holds (cpus' ! j) \<longrightarrow> i = j) \<and>
    (\<forall>i<length cpus. (spin_holds (cpus' ! i) \<longrightarrow> \<not> bit (rflags (cpus' ! i)) 9) \<and>
       (spin_at (cpus' ! i) = SIdle \<longrightarrow> rflags (cpus' ! i) = rflags (cpus ! i)))"
proof -
  let ?r = "\<lambda>t. rflags (cpus ! t)"
  have "threads_at spin_holds cpus = 0"
    using assms(2) by (auto simp: threads_at_0 spin_holds_def split: spin_pc.splits)
  with assms(2) have "spin_inv ?r False cpus []" by (auto simp: spin_inv_def spin_flags_ok_def)
  from spin.run_inv [OF this assms(1)] have i: "spin_inv ?r locked cpus' log" and n: "length cpus' = length cpus"
    by simp_all
  have off: "\<not> bit (r AND NOT IF_FLAG) 9" for r
    using and_IF_FLAG [of "r AND NOT IF_FLAG"] by (simp add: IF_FLAG_def and.assoc)
  have flags: "(spin_holds (cpus' ! k) \<longrightarrow> \<not> bit (rflags (cpus' ! k)) 9) \<and>
       (spin_at (cpus' ! k) = SIdle \<longrightarrow> rflags (cpus' ! k) = rflags (cpus ! k))" if "k < length cpus" for k
  proof -
    have "spin_flags_ok (rflags (cpus ! k)) (cpus' ! k)" using i n that by (simp add: spin_inv_def)
    then show ?thesis by (auto simp: spin_flags_ok_def spin_holds_def off split: spin_pc.splits)
  qed
  have "locked \<longleftrightarrow> (\<exists>k<length cpus. spin_holds (cpus' ! k))"
    using i n threads_at_0 [of spin_holds cpus'] unfolding spin_inv_def by (cases locked) auto
  moreover have "threads_at spin_holds cpus' \<le> 1" using i by (simp add: spin_inv_def)
  note threads_at_unique [OF this]
  ultimately show ?thesis using flags n by simp
qed

theorem spinlock_exclusion_witness:
  "spin_holds \<lparr>spin_at = SHeld 0x246, rflags = 0x46\<rparr> \<and> \<not> bit (0x46 :: u64) 9"
proof -
  let ?c = "\<lparr>spin_at = SIdle, rflags = 0x246\<rparr>"
  have "run_threads spin_act [(0, Lock), (0, Lock)] (False, [?c], []) =
      (True, [\<lparr>spin_at = SHeld 0x246, rflags = 0x46\<rparr>], [])"
    by (simp add: run_threads_def turn_def save_and_disable_irq_def IF_FLAG_def)
  from spinlock_exclusion [OF this] show ?thesis by (simp add: spin_holds_def)
qed

text \<open>C27: A \<^verbatim>\<open>Barrier\<close> of \<open>n\<close> threads keeps the rounds of its threads apart: in every interleaving, also
  across reuses of the barrier, no thread has returned from \<^verbatim>\<open>wait\<close> more often than any other thread has
  entered it.\<close>

theorem barrier_rounds:
  assumes "0 < n" and "n < 2 ^ 64"
    and "run_threads bar_act sched (new_barrier (of_nat n), replicate n BarIdle, []) = (b, pcs, log)"
    and "i < n" and "j < n"
  shows "events_of i Left log \<le> events_of j Arrived log"
proof -
  have "bar_phase 0 (new_barrier (of_nat n)) (replicate n BarIdle) []"
    using assms(1,2) by (simp add: bar_phase_def new_barrier_def threads_at_replicate bar_thread_ok_def
        bar_waits_def bar_opens_def event_counts)
  then have "bar_inv (new_barrier (of_nat n)) (replicate n BarIdle) []" by (auto simp: bar_inv_def)
  from bar.run_inv [OF this assms(3)] obtain G where "bar_phase G b pcs log" "length pcs = n"
    by (auto simp: bar_inv_def)
  then have "bar_thread_ok G (pcs ! k) (events_of k Arrived log) (events_of k Left log)" if "k < n" for k
    using that by (simp add: bar_phase_def)
  from this [OF assms(4)] this [OF assms(5)] show ?thesis
    by (auto simp: bar_thread_ok_def split: bar_pc.splits)
qed

theorem barrier_rounds_witness:
  "events_of 0 Left [(0, Arrived), (1, Arrived), (1, Left), (0, Left)] \<le>
     events_of 1 Arrived [(0, Arrived), (1, Arrived), (1, Left), (0, Left)]"
proof -
  have "run_threads bar_act [(0, ()), (1, ()), (0, ()), (1, ()), (0, ()), (1, ()), (1, ()), (0, ())]
      (new_barrier (of_nat 2), replicate 2 BarIdle, []) =
      (\<lparr>threshold = 2, arrivals = 0, generation = 1\<rparr>, [BarIdle, BarIdle],
       [(0, Arrived), (1, Arrived), (1, Left), (0, Left)])"
    by (simp add: run_threads_def turn_def new_barrier_def replicate_2 word_le_nat_alt)
  from barrier_rounds [OF _ _ this, of 0 1] show ?thesis by simp
qed

text \<open>C28: \<^verbatim>\<open>Once::call_once\<close> runs its function at most once, and in every interleaving it has run, to its
  end, before any call returns.\<close>

theorem once_exactly_once:
  assumes "run_threads once_act sched (ONCE_UNINIT, replicate n OnceIdle, []) = (st, pcs, log)"
  shows "events ((=) Ran) log \<le> 1 \<and> (0 < events ((=) Returned) log \<longrightarrow> events ((=) Ran) log = 1 \<and> is_complete st)"
proof -
  have "once_inv ONCE_UNINIT (replicate n OnceIdle) []"
    by (simp add: once_inv_def threads_at_replicate once_active_def once_states event_counts)
  from once.run_inv [OF this assms] have "once_inv st pcs log" by simp
  with once_store_le [of pcs] show ?thesis
    by (auto simp: once_inv_def is_complete_def once_states split: if_splits)
qed

theorem once_exactly_once_witness:
  "events ((=) Ran) [(0, Ran), (0, Returned), (1, Returned)] = 1"
proof -
  have "run_threads once_act [(0, ()), (1, ()), (0, ()), (1, ()), (0, ()), (1, ()), (0, ()), (0, ()), (1, ())]
      (ONCE_UNINIT, replicate 2 OnceIdle, []) =
      (ONCE_COMPLETE, [OnceIdle, OnceIdle], [(0, Ran), (0, Returned), (1, Returned)])"
    by (simp add: run_threads_def turn_def once_states replicate_2)
  from once_exactly_once [OF this] show ?thesis by (simp add: events_def)
qed

text \<open>A \<^verbatim>\<open>Semaphore\<close> loses and invents no permits: in every interleaving the count is the initial one,
  plus the releases, minus the acquisitions, so that no more permits are taken than there are; and a bounded
  semaphore never exceeds its bound.\<close>

theorem semaphore_conserves:
  assumes "run_threads sem_act sched (bounded_semaphore initial mx, replicate n SemIdle, []) = (s, pcs, log)"
  shows "unat (sem_available s) + events ((=) Acquired) log = unat initial + events ((=) Released) log \<and>
    events ((=) Acquired) log \<le> unat initial + events ((=) Released) log \<and> sem_available s \<le> max initial mx"
proof -
  have "sem_inv initial mx (bounded_semaphore initial mx) (replicate n SemIdle) []"
    by (simp add: sem_inv_def bounded_semaphore_def sem_pc_ok_def event_counts)
  from sem.run_inv [OF this assms] show ?thesis by (simp add: sem_inv_def sem_available_def)
qed

text \<open>\<^verbatim>\<open>Condvar::notify_all\<close> does not notify all: when it runs to its end while \<open>n\<close> threads wait and
  none of them takes a step meanwhile, at most one of them ever wakes up, however they are scheduled afterwards, because its \<open>n\<close> stores all set the same
  flag and the first waiter clears it.\<close>

lemma notify_all_wakes_one:
  assumes "n < 2 ^ 64"
    and "run_threads cv_act (replicate (n + 3) (n, Cv_notify_all))
      (\<lparr>notified = False, waiters = of_nat n\<rparr>, replicate n CvSwap @ [CvIdle], []) = (v, pcs, log)"
    and "run_threads (\<lambda>_. cv_act Cv_wait) sched (v, pcs, log) = (v', pcs', log')"
  shows "pcs ! n = CvIdle \<and> events ((=) Woken) log' \<le> 1"
proof -
  from notify_all_run [OF assms(1)] assms(2) have v: "v = \<lparr>notified = 0 < n, waiters = of_nat n\<rparr>"
    and p: "pcs = replicate n CvSwap @ [CvIdle]" and w: "events ((=) Woken) log = 0" by auto
  then have "events ((=) Woken) log + of_bool (notified v) \<le> 1 \<and> (\<forall>p\<in>set pcs. p \<in> {CvIdle, CvSwap, CvLeave})"
    by auto
  from cv_quiet.run_inv [OF this assms(3)] p show ?thesis by (simp add: nth_append)
qed

end
