(* ===== verification/Strings.thy ===== *)
theory Strings
  imports Prelude
begin

text \<open>
  The methods of \<^verbatim>\<open>str\<close> that split a string, for the path, intent and command parsers. A string is the list of
  its characters.
\<close>

fun split_on :: "char \<Rightarrow> string \<Rightarrow> string list" where
  "split_on c [] = [[]]"
| "split_on c (x # xs) =
     (if x = c then [] # split_on c xs else case split_on c xs of [] \<Rightarrow> [[x]] | w # ws \<Rightarrow> (x # w) # ws)"

text \<open>\<^verbatim>\<open>splitn(2, c)\<close>: what stands before the first separator, and the rest when there is one.\<close>

definition splitn2 :: "char \<Rightarrow> string \<Rightarrow> string list" where
  "splitn2 c s = (if c \<in> set s then [takeWhile (\<lambda>x. x \<noteq> c) s, tl (dropWhile (\<lambda>x. x \<noteq> c) s)] else [s])"

lemma split_on_nonempty [simp]: "split_on c s \<noteq> []"
  by (induction s) (auto split: list.splits)

lemma split_on_append: "split_on c (p @ c # q) = split_on c p @ split_on c q"
  by (induction p) (auto split: list.splits)

lemma split_on_single: "c \<notin> set s \<Longrightarrow> split_on c s = [s]"
  by (induction s) auto

lemma split_on_no_sep: "w \<in> set (split_on c s) \<Longrightarrow> c \<notin> set w"
  by (induction s arbitrary: w) (auto split: if_splits list.splits)

lemma split_on_concat:
  "\<forall>w\<in>set ws. c \<notin> set w \<Longrightarrow> c \<notin> set d \<Longrightarrow> split_on c (d @ concat (map ((#) c) ws)) = d # ws"
  by (induction ws arbitrary: d) (auto simp: split_on_append split_on_single)

lemma splitn2_none: "c \<notin> set s \<Longrightarrow> splitn2 c s = [s]"
  by (simp add: splitn2_def)

lemma splitn2_some: "c \<notin> set s \<Longrightarrow> splitn2 c (s @ c # t) = [s, t]"
  by (induction s) (auto simp: splitn2_def)

end
