(* ===== verification/Vfs.thy ===== *)
theory Vfs
  imports Btree_Map Strings "HOL-Library.List_Lexorder" "HOL-Library.Char_ord" "HOL-Library.Sublist"
    "HOL-Library.Multiset"
begin

text \<open>
  The virtual filesystem layer, \<^verbatim>\<open>fs/vfs.rs\<close>: path normalisation, the mount table, path resolution with
  its LRU cache, and the file operations, which pass to the filesystem that owns the path. A path is the list
  of its bytes. A mounted filesystem is an object behind the trait \<^verbatim>\<open>Filesystem\<close>: its state is of an
  arbitrary type \<open>'f\<close> and its methods are the record \<open>fs_ops\<close>, an argument of the operations that call them.
  The locks around the tables are taken and dropped within one operation and are not part of the state.
\<close>

section \<open>Data\<close>

datatype file_type = Regular | Directory | SymLink | Device | Socket | Pipe

record permissions =
  perm_read :: bool
  perm_write :: bool
  perm_execute :: bool

definition from_mode :: "u16 \<Rightarrow> permissions" where
  "from_mode mode = \<lparr>perm_read = mode AND 0x100 \<noteq> 0, perm_write = mode AND 0x80 \<noteq> 0,
     perm_execute = mode AND 0x40 \<noteq> 0\<rparr>"

definition to_mode :: "permissions \<Rightarrow> u16" where
  "to_mode p = (if perm_read p then 0x100 else 0) OR (if perm_write p then 0x80 else 0)
     OR (if perm_execute p then 0x40 else 0)"

definition default_permissions :: permissions where
  "default_permissions = \<lparr>perm_read = True, perm_write = True, perm_execute = False\<rparr>"

record file_attr =
  attr_type :: file_type
  attr_size :: u64
  attr_permissions :: permissions
  attr_created :: u64
  attr_modified :: u64
  attr_accessed :: u64
  attr_inode :: u64

definition default_attr :: file_attr where
  "default_attr = \<lparr>attr_type = Regular, attr_size = 0, attr_permissions = default_permissions,
     attr_created = 0, attr_modified = 0, attr_accessed = 0, attr_inode = 0\<rparr>"

record dir_entry =
  entry_name :: string
  entry_type :: file_type
  entry_inode :: u64

record open_flags =
  flag_read :: bool
  flag_write :: bool
  flag_create :: bool
  flag_truncate :: bool
  flag_append :: bool

definition flags_read_only :: open_flags where
  "flags_read_only = \<lparr>flag_read = True, flag_write = False, flag_create = False, flag_truncate = False, flag_append = False\<rparr>"

definition flags_write_only :: open_flags where
  "flags_write_only = \<lparr>flag_read = False, flag_write = True, flag_create = True, flag_truncate = True, flag_append = False\<rparr>"

definition flags_read_write :: open_flags where
  "flags_read_write = \<lparr>flag_read = True, flag_write = True, flag_create = True, flag_truncate = False, flag_append = False\<rparr>"

definition flags_append :: open_flags where
  "flags_append = \<lparr>flag_read = False, flag_write = True, flag_create = True, flag_truncate = False, flag_append = True\<rparr>"

datatype vfs_error = NotFound | AlreadyExists | NotDirectory | IsDirectory | PermissionDenied | InvalidPath
  | NoSpace | IoError | NotMounted | Busy | InvalidOperation | TooLarge | NotEmpty

definition error_str :: "vfs_error \<Rightarrow> string" where
  "error_str e = (case e of
     NotFound \<Rightarrow> ''File not found'' | AlreadyExists \<Rightarrow> ''File already exists''
   | NotDirectory \<Rightarrow> ''Not a directory'' | IsDirectory \<Rightarrow> ''Is a directory''
   | PermissionDenied \<Rightarrow> ''Permission denied'' | InvalidPath \<Rightarrow> ''Invalid path''
   | NoSpace \<Rightarrow> ''No space left on device'' | IoError \<Rightarrow> ''I/O error''
   | NotMounted \<Rightarrow> ''Filesystem not mounted'' | Busy \<Rightarrow> ''Resource busy''
   | InvalidOperation \<Rightarrow> ''Invalid operation'' | TooLarge \<Rightarrow> ''File too large''
   | NotEmpty \<Rightarrow> ''Directory not empty'')"

type_synonym 'a vfs_result = "vfs_error + 'a"

record file_handle =
  fh_inode :: u64
  fh_position :: u64
  fh_flags :: open_flags
  fh_fs_id :: usize

definition new_handle :: "u64 \<Rightarrow> open_flags \<Rightarrow> usize \<Rightarrow> file_handle" where
  "new_handle i fl fs_id = \<lparr>fh_inode = i, fh_position = 0, fh_flags = fl, fh_fs_id = fs_id\<rparr>"

definition set_position :: "u64 \<Rightarrow> file_handle \<Rightarrow> file_handle" where
  "set_position pos h = h\<lparr>fh_position := pos\<rparr>"

definition advance :: "u64 \<Rightarrow> file_handle \<Rightarrow> file_handle" where
  "advance n h = h\<lparr>fh_position := fh_position h + n\<rparr>"

text \<open>
  The trait. A method with \<^verbatim>\<open>&mut self\<close> returns the new state too. \<open>fs_read\<close> gets the buffer and returns
  the count with the buffer as it left it.
\<close>

record fs_stats =
  total_blocks :: u64
  stat_free_blocks :: u64
  stat_block_size :: u32
  total_inodes :: u64
  free_inodes :: u64
  fs_type :: u32

record 'f fs_ops =
  fs_name :: "'f \<Rightarrow> string"
  fs_is_mounted :: "'f \<Rightarrow> bool"
  fs_mount_op :: "'f \<Rightarrow> unit vfs_result \<times> 'f"
  fs_unmount_op :: "'f \<Rightarrow> unit vfs_result \<times> 'f"
  fs_sync_op :: "'f \<Rightarrow> unit vfs_result \<times> 'f"
  fs_getattr :: "'f \<Rightarrow> string \<Rightarrow> file_attr vfs_result"
  fs_readdir :: "'f \<Rightarrow> string \<Rightarrow> dir_entry list vfs_result"
  fs_create_op :: "string \<Rightarrow> permissions \<Rightarrow> 'f \<Rightarrow> u64 vfs_result \<times> 'f"
  fs_mkdir :: "string \<Rightarrow> permissions \<Rightarrow> 'f \<Rightarrow> unit vfs_result \<times> 'f"
  fs_unlink :: "string \<Rightarrow> 'f \<Rightarrow> unit vfs_result \<times> 'f"
  fs_rmdir :: "string \<Rightarrow> 'f \<Rightarrow> unit vfs_result \<times> 'f"
  fs_rename :: "string \<Rightarrow> string \<Rightarrow> 'f \<Rightarrow> unit vfs_result \<times> 'f"
  fs_read_op :: "'f \<Rightarrow> u64 \<Rightarrow> u64 \<Rightarrow> u8 list \<Rightarrow> (usize \<times> u8 list) vfs_result"
  fs_write_op :: "u64 \<Rightarrow> u64 \<Rightarrow> u8 list \<Rightarrow> 'f \<Rightarrow> usize vfs_result \<times> 'f"
  fs_truncate :: "string \<Rightarrow> u64 \<Rightarrow> 'f \<Rightarrow> unit vfs_result \<times> 'f"
  fs_statfs :: "'f \<Rightarrow> fs_stats vfs_result"

section \<open>Paths\<close>

definition split_slash :: "string \<Rightarrow> string list" where
  "split_slash = split_on (CHR ''/'')"

definition push_component :: "string \<Rightarrow> string list \<Rightarrow> string list" where
  "push_component c cs =
     (if c = [] \<or> c = ''.'' then cs else if c = ''..'' then butlast cs else cs @ [c])"

definition join_path :: "string list \<Rightarrow> string" where
  "join_path cs = concat (map (\<lambda>c. CHR ''/'' # c) cs)"

definition normalize_path :: "string \<Rightarrow> string" where
  "normalize_path path =
     (if path = [] \<or> path = ''/'' then ''/''
      else let components = fold push_component (split_slash path) []
           in if components = [] then ''/'' else join_path components)"

definition rfind_slash :: "string \<Rightarrow> nat option" where
  "rfind_slash s = List.find (\<lambda>i. s ! i = CHR ''/'') (rev [0..<length s])"

definition parent_path :: "string \<Rightarrow> string option" where
  "parent_path path =
     (let normalized = normalize_path path
      in if normalized = ''/'' then None
         else case rfind_slash normalized of
           Some pos \<Rightarrow> if pos = 0 then Some ''/'' else Some (take pos normalized)
         | None \<Rightarrow> Some ''/'')"

definition file_name :: "string \<Rightarrow> string option" where
  "file_name path =
     (if normalize_path path = ''/'' then None
      else let s = last (split_slash path) in if s = [] then None else Some s)"

section \<open>The mount table\<close>

record 'f mount_point =
  mp_path :: string
  mp_fs :: 'f
  mp_fs_id :: usize

definition MAX_PATH_CACHE_SIZE :: nat where
  "MAX_PATH_CACHE_SIZE = 256"

record 'f vfs_manager =
  mounts :: "'f mount_point list"
  next_fs_id :: u64
  path_cache :: "(string, usize \<times> string) btree"
  cache_lru :: "string list"

definition new_vfs :: "'f vfs_manager" where
  "new_vfs = \<lparr>mounts = [], next_fs_id = 1, path_cache = [], cache_lru = []\<rparr>"

definition clear_cache :: "'f vfs_manager \<Rightarrow> 'f vfs_manager" where
  "clear_cache v = v\<lparr>path_cache := [], cache_lru := []\<rparr>"

definition sort_mounts :: "'f mount_point list \<Rightarrow> 'f mount_point list" where
  "sort_mounts = sort_key (\<lambda>m. - int (length (mp_path m)))"

definition vfs_mount :: "'f fs_ops \<Rightarrow> string \<Rightarrow> 'f \<Rightarrow> 'f vfs_manager \<Rightarrow> unit vfs_result \<times> 'f vfs_manager" where
  "vfs_mount ops mount_path fs v =
     (let path = normalize_path mount_path
      in case fs_mount_op ops fs of
           (Inl e, fs1) \<Rightarrow> (Inl e, v)
         | (Inr _, fs1) \<Rightarrow>
             (let fs_id = next_fs_id v; v1 = v\<lparr>next_fs_id := next_fs_id v + 1\<rparr>
              in if \<exists>m\<in>set (mounts v). mp_path m = path then (Inl AlreadyExists, v1)
                 else (Inr (), clear_cache (v1\<lparr>mounts :=
                        sort_mounts (mounts v @ [\<lparr>mp_path = path, mp_fs = fs1, mp_fs_id = fs_id\<rparr>])\<rparr>))))"

definition vfs_unmount :: "'f fs_ops \<Rightarrow> string \<Rightarrow> 'f vfs_manager \<Rightarrow> unit vfs_result \<times> 'f vfs_manager" where
  "vfs_unmount ops mount_path v =
     (let path = normalize_path mount_path
      in case List.find (\<lambda>i. mp_path (mounts v ! i) = path) [0..<length (mounts v)] of
           None \<Rightarrow> (Inl NotMounted, v)
         | Some pos \<Rightarrow>
             (let v1 = v\<lparr>mounts := take pos (mounts v) @ drop (pos + 1) (mounts v)\<rparr>
              in case fs_unmount_op ops (mp_fs (mounts v ! pos)) of
                   (Inl e, _) \<Rightarrow> (Inl e, v1)
                 | (Inr _, _) \<Rightarrow> (Inr (), clear_cache v1)))"

section \<open>Resolution\<close>

fun evict :: "(string, usize \<times> string) btree \<Rightarrow> string list \<Rightarrow> (string, usize \<times> string) btree \<times> string list" where
  "evict cache [] = (cache, [])"
| "evict cache (oldest # lru) =
     (if MAX_PATH_CACHE_SIZE \<le> length (oldest # lru) then evict (bt_remove oldest cache) lru
      else (cache, oldest # lru))"

definition cache_insert :: "string \<Rightarrow> usize \<times> string \<Rightarrow> 'f vfs_manager \<Rightarrow> 'f vfs_manager" where
  "cache_insert path val v = (case evict (path_cache v) (cache_lru v) of (cache, lru) \<Rightarrow>
     v\<lparr>path_cache := bt_insert path val cache, cache_lru := lru @ [path]\<rparr>)"

definition lru_touch :: "string \<Rightarrow> string list \<Rightarrow> string list" where
  "lru_touch p lru = remove1 p lru @ [p]"

definition mount_owns :: "string \<Rightarrow> 'f mount_point \<Rightarrow> bool" where
  "mount_owns p m = (p = mp_path m \<or> prefix (mp_path m @ ''/'') p)"

definition find_mount :: "string \<Rightarrow> 'f mount_point list \<Rightarrow> (usize \<times> string) option" where
  "find_mount p ms =
     (case List.find (mount_owns p) ms of
        Some m \<Rightarrow> Some (mp_fs_id m, if p = mp_path m then ''/'' else drop (length (mp_path m)) p)
      | None \<Rightarrow> (case List.find (\<lambda>m. mp_path m = ''/'') ms of
          Some m \<Rightarrow> Some (mp_fs_id m, p)
        | None \<Rightarrow> None))"

definition resolve_path :: "string \<Rightarrow> 'f vfs_manager \<Rightarrow> (usize \<times> string) vfs_result \<times> 'f vfs_manager" where
  "resolve_path path v =
     (let normalized = normalize_path path
      in case bt_get (path_cache v) normalized of
           Some cached \<Rightarrow> (Inr cached, v\<lparr>cache_lru := lru_touch normalized (cache_lru v)\<rparr>)
         | None \<Rightarrow> (case find_mount normalized (mounts v) of
             Some r \<Rightarrow> (Inr r, cache_insert normalized r v)
           | None \<Rightarrow> (Inl NotMounted, v)))"

section \<open>File operations\<close>

definition get_fs :: "usize \<Rightarrow> 'f vfs_manager \<Rightarrow> 'f vfs_result" where
  "get_fs fs_id v = (case List.find (\<lambda>m. mp_fs_id m = fs_id) (mounts v) of
     Some m \<Rightarrow> Inr (mp_fs m) | None \<Rightarrow> Inl NotMounted)"

fun set_fs :: "usize \<Rightarrow> 'f \<Rightarrow> 'f mount_point list \<Rightarrow> 'f mount_point list" where
  "set_fs fs_id fs [] = []"
| "set_fs fs_id fs (m # ms) = (if mp_fs_id m = fs_id then m\<lparr>mp_fs := fs\<rparr> # ms else m # set_fs fs_id fs ms)"

text \<open>A call of a \<^verbatim>\<open>&mut self\<close> method of the filesystem with an identifier.\<close>

definition with_fs :: "usize \<Rightarrow> ('f \<Rightarrow> 'a vfs_result \<times> 'f) \<Rightarrow> 'f vfs_manager \<Rightarrow> 'a vfs_result \<times> 'f vfs_manager" where
  "with_fs fs_id f v = (case get_fs fs_id v of
     Inl e \<Rightarrow> (Inl e, v)
   | Inr fs \<Rightarrow> (case f fs of (r, fs1) \<Rightarrow> (r, v\<lparr>mounts := set_fs fs_id fs1 (mounts v)\<rparr>)))"

definition with_path :: "string \<Rightarrow> (string \<Rightarrow> 'f \<Rightarrow> 'a vfs_result \<times> 'f) \<Rightarrow> 'f vfs_manager \<Rightarrow> 'a vfs_result \<times> 'f vfs_manager" where
  "with_path path f v = (case resolve_path path v of
     (Inl e, v1) \<Rightarrow> (Inl e, v1)
   | (Inr (fs_id, rel_path), v1) \<Rightarrow> with_fs fs_id (f rel_path) v1)"

definition vfs_open :: "'f fs_ops \<Rightarrow> string \<Rightarrow> open_flags \<Rightarrow> 'f vfs_manager \<Rightarrow> file_handle vfs_result \<times> 'f vfs_manager" where
  "vfs_open ops path fl v = (case resolve_path path v of
     (Inl e, v1) \<Rightarrow> (Inl e, v1)
   | (Inr (fs_id, rel_path), v1) \<Rightarrow> (case get_fs fs_id v1 of
       Inl e \<Rightarrow> (Inl e, v1)
     | Inr fs \<Rightarrow> (case fs_getattr ops fs rel_path of
         Inr attr \<Rightarrow> if attr_type attr = Directory then (Inl IsDirectory, v1)
           else (Inr (new_handle (attr_inode attr) fl fs_id), v1)
       | Inl e \<Rightarrow> if e = NotFound \<and> flag_create fl
           then (case with_fs fs_id (fs_create_op ops rel_path default_permissions) v1 of
                   (Inr inode, v2) \<Rightarrow> (Inr (new_handle inode fl fs_id), v2)
                 | (Inl e, v2) \<Rightarrow> (Inl e, v2))
           else (Inl e, v1))))"

definition vfs_read :: "'f fs_ops \<Rightarrow> u8 list \<Rightarrow> file_handle \<Rightarrow> 'f vfs_manager \<Rightarrow> (usize \<times> u8 list) vfs_result \<times> file_handle" where
  "vfs_read ops buffer h v =
     (if \<not> flag_read (fh_flags h) then (Inl PermissionDenied, h)
      else case get_fs (fh_fs_id h) v of
        Inl e \<Rightarrow> (Inl e, h)
      | Inr fs \<Rightarrow> (case fs_read_op ops fs (fh_inode h) (fh_position h) buffer of
          Inl e \<Rightarrow> (Inl e, h)
        | Inr (n, buf) \<Rightarrow> (Inr (n, buf), advance n h)))"

definition write_position :: "'f fs_ops \<Rightarrow> 'f \<Rightarrow> file_handle \<Rightarrow> u64 vfs_result" where
  "write_position ops fs h =
     (if flag_append (fh_flags h) then map_sum id attr_size (fs_getattr ops fs ''/'') else Inr (fh_position h))"

definition vfs_write :: "'f fs_ops \<Rightarrow> u8 list \<Rightarrow> file_handle \<Rightarrow> 'f vfs_manager \<Rightarrow> usize vfs_result \<times> file_handle \<times> 'f vfs_manager" where
  "vfs_write ops dat h v =
     (if \<not> flag_write (fh_flags h) then (Inl PermissionDenied, h, v)
      else case get_fs (fh_fs_id h) v of
        Inl e \<Rightarrow> (Inl e, h, v)
      | Inr fs \<Rightarrow> (case write_position ops fs h of
          Inl e \<Rightarrow> (Inl e, h, v)
        | Inr pos \<Rightarrow> (case with_fs (fh_fs_id h) (fs_write_op ops (fh_inode h) pos dat) v of
            (Inl e, v1) \<Rightarrow> (Inl e, h, v1)
          | (Inr n, v1) \<Rightarrow> (Inr n, advance n h, v1))))"

definition vfs_create :: "'f fs_ops \<Rightarrow> string \<Rightarrow> permissions \<Rightarrow> 'f vfs_manager \<Rightarrow> u64 vfs_result \<times> 'f vfs_manager" where
  "vfs_create ops path perms = with_path path (\<lambda>rel. fs_create_op ops rel perms)"

definition vfs_unlink :: "'f fs_ops \<Rightarrow> string \<Rightarrow> 'f vfs_manager \<Rightarrow> unit vfs_result \<times> 'f vfs_manager" where
  "vfs_unlink ops path = with_path path (fs_unlink ops)"

definition vfs_mkdir :: "'f fs_ops \<Rightarrow> string \<Rightarrow> permissions \<Rightarrow> 'f vfs_manager \<Rightarrow> unit vfs_result \<times> 'f vfs_manager" where
  "vfs_mkdir ops path perms = with_path path (\<lambda>rel. fs_mkdir ops rel perms)"

definition vfs_readdir :: "'f fs_ops \<Rightarrow> string \<Rightarrow> 'f vfs_manager \<Rightarrow> dir_entry list vfs_result \<times> 'f vfs_manager" where
  "vfs_readdir ops path v = (case resolve_path path v of
     (Inl e, v1) \<Rightarrow> (Inl e, v1)
   | (Inr (fs_id, rel_path), v1) \<Rightarrow>
       (case get_fs fs_id v1 of Inl e \<Rightarrow> Inl e | Inr fs \<Rightarrow> fs_readdir ops fs rel_path, v1))"

definition vfs_stat :: "'f fs_ops \<Rightarrow> string \<Rightarrow> 'f vfs_manager \<Rightarrow> file_attr vfs_result \<times> 'f vfs_manager" where
  "vfs_stat ops path v = (case resolve_path path v of
     (Inl e, v1) \<Rightarrow> (Inl e, v1)
   | (Inr (fs_id, rel_path), v1) \<Rightarrow>
       (case get_fs fs_id v1 of Inl e \<Rightarrow> Inl e | Inr fs \<Rightarrow> fs_getattr ops fs rel_path, v1))"

fun sync_mounts :: "'f fs_ops \<Rightarrow> 'f mount_point list \<Rightarrow> unit vfs_result \<times> 'f mount_point list" where
  "sync_mounts ops [] = (Inr (), [])"
| "sync_mounts ops (m # ms) = (case fs_sync_op ops (mp_fs m) of
     (Inl e, fs) \<Rightarrow> (Inl e, m\<lparr>mp_fs := fs\<rparr> # ms)
   | (Inr _, fs) \<Rightarrow> (case sync_mounts ops ms of (r, ms1) \<Rightarrow> (r, m\<lparr>mp_fs := fs\<rparr> # ms1)))"

definition sync_all :: "'f fs_ops \<Rightarrow> 'f vfs_manager \<Rightarrow> unit vfs_result \<times> 'f vfs_manager" where
  "sync_all ops v = (case sync_mounts ops (mounts v) of (r, ms) \<Rightarrow> (r, v\<lparr>mounts := ms\<rparr>))"

definition list_mounts :: "'f fs_ops \<Rightarrow> 'f vfs_manager \<Rightarrow> (string \<times> string) list" where
  "list_mounts ops v = map (\<lambda>m. (mp_path m, fs_name ops (mp_fs m))) (mounts v)"

section \<open>Paths as component lists\<close>

definition components :: "string \<Rightarrow> string list" where
  "components path = fold push_component (split_slash path) []"

definition path_of :: "string list \<Rightarrow> string" where
  "path_of cs = (if cs = [] then ''/'' else join_path cs)"

definition valid_component :: "string \<Rightarrow> bool" where
  "valid_component c \<longleftrightarrow> c \<noteq> [] \<and> c \<noteq> ''.'' \<and> c \<noteq> ''..'' \<and> CHR ''/'' \<notin> set c"

lemmas split_slash_simps [simp] = split_on.simps [of "CHR ''/''", folded split_slash_def]

lemmas split_slash_nonempty [simp] = split_on_nonempty [of "CHR ''/''", folded split_slash_def]

lemmas split_slash_append = split_on_append [of "CHR ''/''", folded split_slash_def]

lemmas split_slash_no_slash = split_on_no_sep [of _ "CHR ''/''", folded split_slash_def]

lemma join_path_simps [simp]:
  "join_path [] = []" "join_path (c # cs) = CHR ''/'' # c @ join_path cs" "join_path (cs @ ds) = join_path cs @ join_path ds"
  by (simp_all add: join_path_def)

lemma split_slash_join_path: "\<forall>c\<in>set cs. valid_component c \<Longrightarrow> split_slash (join_path cs) = [] # cs"
  using split_on_concat [of cs "CHR ''/''" "[]"]
  by (simp add: valid_component_def split_slash_def [symmetric] join_path_def)

lemma push_component_valid: "valid_component c \<Longrightarrow> push_component c cs = cs @ [c]"
  by (simp add: push_component_def valid_component_def)

lemma fold_push_valid: "\<forall>c\<in>set cs. valid_component c \<Longrightarrow> fold push_component cs acc = acc @ cs"
  by (induction cs arbitrary: acc) (simp_all add: push_component_valid)

lemma fold_push_components:
  "\<forall>w\<in>set ws. CHR ''/'' \<notin> set w \<Longrightarrow> \<forall>c\<in>set acc. valid_component c \<Longrightarrow>
     \<forall>c\<in>set (fold push_component ws acc). valid_component c"
proof (induction ws arbitrary: acc)
  case (Cons w ws)
  have "\<forall>c\<in>set (push_component w acc). valid_component c"
    using Cons.prems by (auto simp: push_component_def valid_component_def dest: in_set_butlastD)
  with Cons show ?case by simp
qed simp

lemma components_valid: "\<forall>c\<in>set (components p). valid_component c"
  unfolding components_def using split_slash_no_slash [of _ p] by (intro fold_push_components) auto

lemma components_path_of: "\<forall>c\<in>set cs. valid_component c \<Longrightarrow> components (path_of cs) = cs"
  by (auto simp: components_def path_of_def split_slash_join_path fold_push_valid push_component_def)

lemma normalize_path_eq: "normalize_path p = path_of (components p)"
  by (auto simp: normalize_path_def path_of_def components_def push_component_def)

lemma components_normalize [simp]: "components (normalize_path p) = components p"
  by (simp add: normalize_path_eq components_path_of components_valid)

lemma components_append: "components (p @ CHR ''/'' # q) = fold push_component (split_slash q) (components p)"
  by (simp add: components_def split_slash_append)

lemma path_of_inj:
  "\<forall>c\<in>set cs. valid_component c \<Longrightarrow> \<forall>c\<in>set ds. valid_component c \<Longrightarrow> path_of cs = path_of ds \<longleftrightarrow> cs = ds"
  by (metis components_path_of)

text \<open>The test on strings is the prefix test on components.\<close>

lemma prefix_join_path:
  assumes "\<forall>c\<in>set ms. valid_component c" and "\<forall>c\<in>set ps. valid_component c"
  shows "prefix (join_path ms @ ''/'') (join_path ps) \<longleftrightarrow> prefix ms ps \<and> ms \<noteq> ps"
proof
  assume "prefix (join_path ms @ ''/'') (join_path ps)"
  then obtain x where "join_path ps = join_path ms @ CHR ''/'' # x" by (auto simp: prefix_def)
  then have "[] # ps = split_slash (join_path ms) @ split_slash x"
    using split_slash_join_path [OF assms(2)] by (simp add: split_slash_append)
  then have "ps = ms @ split_slash x" by (simp add: split_slash_join_path assms(1))
  then show "prefix ms ps \<and> ms \<noteq> ps" by auto
next
  assume "prefix ms ps \<and> ms \<noteq> ps"
  then obtain zs where "ps = ms @ zs" "zs \<noteq> []" by (auto simp: prefix_def)
  then obtain c r where "ps = ms @ c # r" by (cases zs) auto
  then show "prefix (join_path ms @ ''/'') (join_path ps)" by simp
qed

definition covers :: "string list \<Rightarrow> 'f mount_point \<Rightarrow> bool" where
  "covers ps m = prefix (components (mp_path m)) ps"

definition normal_mount :: "'f mount_point \<Rightarrow> bool" where
  "normal_mount m \<longleftrightarrow> mp_path m = path_of (components (mp_path m))"

lemma mount_owns_covers:
  assumes m: "normal_mount m" and p: "\<forall>c\<in>set ps. valid_component c"
  shows "mount_owns (path_of ps) m \<longleftrightarrow> covers ps m \<and> (components (mp_path m) = [] \<longrightarrow> ps = [])"
proof (cases "components (mp_path m) = []")
  case True
  then have path: "mp_path m = ''/''" using m by (simp add: normal_mount_def path_of_def)
  have "\<not> prefix ''//'' (join_path ps)"
  proof (cases ps)
    case (Cons c r)
    with p have "c \<noteq> []" "CHR ''/'' \<notin> set c" by (simp_all add: valid_component_def)
    with Cons show ?thesis by (cases c) auto
  qed simp
  moreover have "path_of ps = ''/'' \<longleftrightarrow> ps = []" using path_of_inj [OF p, of "[]"] by (simp add: path_of_def)
  ultimately show ?thesis using True by (cases "ps = []") (simp_all add: mount_owns_def path covers_def path_of_def)
next
  case False
  let ?ms = "components (mp_path m)"
  have path: "mp_path m = path_of ?ms" using m by (simp add: normal_mount_def)
  have v: "\<forall>c\<in>set ?ms. valid_component c" by (rule components_valid)
  have "mount_owns (path_of ps) m \<longleftrightarrow> path_of ps = path_of ?ms \<or> prefix (path_of ?ms @ ''/'') (path_of ps)"
    unfolding mount_owns_def by (subst (1 2) path) simp
  also have "\<dots> \<longleftrightarrow> ps = ?ms \<or> (prefix ?ms ps \<and> ?ms \<noteq> ps)"
  proof (cases "ps = []")
    case True
    from False obtain c r where "?ms = c # r" by (cases ?ms) auto
    then have "\<not> prefix (join_path ?ms @ ''/'') ''/''" by simp
    with True False path_of_inj [OF p v] show ?thesis by (simp add: path_of_def)
  next
    case ps: False
    with False path_of_inj [OF p v] prefix_join_path [OF v p] show ?thesis by (simp add: path_of_def)
  qed
  finally show ?thesis using False by (auto simp: covers_def)
qed

lemma path_of_shorter:
  assumes "prefix a ps" and "prefix b ps" and "length (path_of b) \<le> length (path_of a)"
    and "\<forall>c\<in>set ps. valid_component c"
  shows "length b \<le> length a"
proof (rule ccontr)
  assume "\<not> length b \<le> length a"
  with prefix_length_prefix [OF assms(1,2)] have "prefix a b" by simp
  then obtain ys where "b = a @ ys" by (auto simp: prefix_def)
  with \<open>\<not> length b \<le> length a\<close> obtain z zs where b: "b = a @ z # zs" by (cases ys) simp_all
  then have "z \<in> set ps" using assms(2) set_mono_prefix by fastforce
  then have "z \<noteq> []" using assms(4) by (simp add: valid_component_def)
  then have "length (path_of a) < length (path_of b)" using b by (simp add: path_of_def)
  with assms(3) show False by simp
qed

lemma relative_path:
  assumes "prefix ms ps" and "ms \<noteq> []" and "ps \<noteq> ms"
  shows "drop (length (path_of ms)) (path_of ps) = path_of (drop (length ms) ps)"
proof -
  from assms obtain zs where "ps = ms @ zs" "zs \<noteq> []" by (auto simp: prefix_def)
  with assms show ?thesis by (simp add: path_of_def)
qed

definition longest_mount :: "string list \<Rightarrow> 'f mount_point list \<Rightarrow> usize \<times> string \<Rightarrow> bool" where
  "longest_mount ps ms = (\<lambda>(i, rel). \<exists>m\<in>set ms. mp_fs_id m = i \<and> covers ps m \<and>
     rel = path_of (drop (length (components (mp_path m))) ps) \<and>
     (\<forall>m'\<in>set ms. covers ps m' \<longrightarrow> length (components (mp_path m')) \<le> length (components (mp_path m))))"

definition mounts_ok :: "'f mount_point list \<Rightarrow> bool" where
  "mounts_ok ms \<longleftrightarrow> (\<forall>m\<in>set ms. normal_mount m) \<and> distinct (map mp_path ms) \<and>
     sorted_wrt (\<lambda>a b. length (mp_path b) \<le> length (mp_path a)) ms"

lemma first_owner_longest:
  assumes ok: "mounts_ok ms" and p: "\<forall>c\<in>set ps. valid_component c"
    and f: "List.find (mount_owns (path_of ps)) ms = Some m" and m': "m' \<in> set ms" "covers ps m'"
  shows "length (components (mp_path m')) \<le> length (components (mp_path m))"
proof (cases "components (mp_path m') = []")
  case False
  from f obtain i where i: "i < length ms" "mount_owns (path_of ps) (ms ! i)" "m = ms ! i"
    "\<forall>j<i. \<not> mount_owns (path_of ps) (ms ! j)" by (auto simp: find_Some_iff)
  from m' obtain k where k: "k < length ms" "m' = ms ! k" by (auto simp: in_set_conv_nth)
  have n: "normal_mount m" "normal_mount m'" using ok i k by (simp_all add: mounts_ok_def)
  from mount_owns_covers [OF n(2) p] m' False k i(4) have "i \<le> k" by (metis linorder_not_less)
  then have "length (mp_path m') \<le> length (mp_path m)"
    using ok k i sorted_wrt_nth_less [of _ ms i k] by (cases "i = k") (auto simp: mounts_ok_def)
  with n have le: "length (path_of (components (mp_path m'))) \<le> length (path_of (components (mp_path m)))"
    by (simp add: normal_mount_def)
  from mount_owns_covers [OF n(1) p] i have "covers ps m" by simp
  with path_of_shorter [OF _ _ le p] m'(2) show ?thesis by (simp add: covers_def)
qed simp

lemma find_mount_longest:
  assumes ok: "mounts_ok ms" and p: "\<forall>c\<in>set ps. valid_component c"
  shows "case find_mount (path_of ps) ms of
      Some r \<Rightarrow> longest_mount ps ms r | None \<Rightarrow> \<forall>m\<in>set ms. \<not> covers ps m"
proof (cases "List.find (mount_owns (path_of ps)) ms")
  case (Some m)
  then have m: "m \<in> set ms" "mount_owns (path_of ps) m" by (auto simp: find_Some_iff)
  with ok have n: "normal_mount m" by (simp add: mounts_ok_def)
  from mount_owns_covers [OF n p] m have c: "covers ps m" "components (mp_path m) = [] \<longrightarrow> ps = []" by simp_all
  let ?ms = "components (mp_path m)"
  have "(if path_of ps = mp_path m then ''/'' else drop (length (mp_path m)) (path_of ps)) = path_of (drop (length ?ms) ps)"
  proof (cases "ps = ?ms")
    case True
    then have "path_of ps = mp_path m" using n unfolding normal_mount_def by simp
    with True show ?thesis by (simp add: path_of_def)
  next
    case False
    have path: "mp_path m = path_of ?ms" using n by (simp add: normal_mount_def)
    have "path_of ps \<noteq> path_of ?ms" using path_of_inj [OF p components_valid] False by simp
    with relative_path [of ?ms ps] c False path show ?thesis by (auto simp: covers_def)
  qed
  with Some m(1) c(1) first_owner_longest [OF ok p Some] show ?thesis
    by (auto simp: find_mount_def longest_mount_def)
next
  case None
  have root: "components (mp_path m) = [] \<and> ps \<noteq> []" if "m \<in> set ms" "covers ps m" for m
    using None mount_owns_covers [OF _ p, of m] that ok by (auto simp: find_None_iff mounts_ok_def)
  have slash: "mp_path m = ''/'' \<longleftrightarrow> components (mp_path m) = []" if "m \<in> set ms" for m
    using ok that path_of_inj [OF components_valid, of "[]" "mp_path m"]
    by (auto simp: mounts_ok_def normal_mount_def path_of_def)
  show ?thesis
  proof (cases "List.find (\<lambda>m. mp_path m = ''/'') ms")
    case (Some m)
    then have m: "m \<in> set ms" "mp_path m = ''/''" by (auto simp: find_Some_iff)
    with slash have "components (mp_path m) = []" by simp
    then have "longest_mount ps ms (mp_fs_id m, path_of ps)"
      unfolding longest_mount_def using m(1) root by (auto simp: covers_def intro!: bexI [of _ m])
    with None Some show ?thesis by (simp add: find_mount_def)
  next
    case N: None
    then have "\<not> covers ps m" if "m \<in> set ms" for m
      using root [OF that] slash [OF that] that by (auto simp: find_None_iff)
    with None N show ?thesis by (simp add: find_mount_def)
  qed
qed

lemma rfind_slash_last:
  assumes "CHR ''/'' \<notin> set c"
  shows "rfind_slash (s @ CHR ''/'' # c) = Some (length s)"
proof -
  let ?t = "s @ CHR ''/'' # c"
  have "[0..<length ?t] = [0..<length s] @ length s # [Suc (length s)..<length ?t]"
    using upt_add_eq_append [of 0 "length s" "Suc (length c)"] upt_conv_Cons [of "length s" "length s + Suc (length c)"]
    by (simp del: upt_Suc)
  then have "rev [0..<length ?t] = rev [Suc (length s)..<length ?t] @ length s # rev [0..<length s]"
    by (simp del: upt_Suc)
  moreover have "List.find (\<lambda>i. ?t ! i = CHR ''/'') (rev [Suc (length s)..<length ?t]) = None"
    using assms by (auto simp: find_None_iff nth_append nth_Cons' in_set_conv_nth)
  ultimately show ?thesis by (simp add: rfind_slash_def find_append del: upt_Suc)
qed

section \<open>The invariant of the manager\<close>

definition lru_ok :: "(string, usize \<times> string) btree \<Rightarrow> string list \<Rightarrow> bool" where
  "lru_ok cache lru \<longleftrightarrow> bt_wf cache \<and> distinct lru \<and> set lru = dom (bt_get cache) \<and> length lru \<le> MAX_PATH_CACHE_SIZE"

text \<open>\<open>fresh\<close> says that the cache agrees with the mounts, which a refused unmount breaks.\<close>

definition vfs_inv :: "bool \<Rightarrow> 'f vfs_manager \<Rightarrow> bool" where
  "vfs_inv fresh v \<longleftrightarrow> mounts_ok (mounts v) \<and> lru_ok (path_cache v) (cache_lru v) \<and>
     (fresh \<longrightarrow> (\<forall>k r. bt_get (path_cache v) k = Some r \<longrightarrow> find_mount k (mounts v) = Some r))"

abbreviation mount_keys :: "'f mount_point list \<Rightarrow> (string \<times> usize) list" where
  "mount_keys ms \<equiv> map (\<lambda>m. (mp_path m, mp_fs_id m)) ms"

lemma evict_ok:
  "lru_ok cache lru \<Longrightarrow> evict cache lru = (cache', lru') \<Longrightarrow>
     lru_ok cache' lru' \<and> length lru' < MAX_PATH_CACHE_SIZE \<and> bt_get cache' \<subseteq>\<^sub>m bt_get cache"
proof (induction cache lru arbitrary: cache' lru' rule: evict.induct)
  case (2 cache oldest lru)
  show ?case
  proof (cases "MAX_PATH_CACHE_SIZE \<le> length (oldest # lru)")
    case True
    have "lru_ok (bt_remove oldest cache) lru"
      using "2.prems"(1) by (auto simp: lru_ok_def bt_wf_remove bt_get_remove)
    moreover have "bt_get (bt_remove oldest cache) \<subseteq>\<^sub>m bt_get cache"
      by (simp add: bt_get_remove map_le_def)
    ultimately show ?thesis using 2 True by (auto intro: map_le_trans)
  next
    case False
    with 2 show ?thesis by auto
  qed
qed (auto simp: MAX_PATH_CACHE_SIZE_def)

lemma cache_insert_inv:
  assumes i: "vfs_inv b v" and f: "find_mount k (mounts v) = Some r" and k: "bt_get (path_cache v) k = None"
  shows "vfs_inv b (cache_insert k r v)"
proof -
  obtain c l where e: "evict (path_cache v) (cache_lru v) = (c, l)" by fastforce
  from i evict_ok [OF _ e] have c: "lru_ok c l" "length l < MAX_PATH_CACHE_SIZE" "bt_get c \<subseteq>\<^sub>m bt_get (path_cache v)"
    by (simp_all add: vfs_inv_def)
  then have "bt_get c k = None" using k by (metis domIff map_le_def)
  with c have "lru_ok (bt_insert k r c) (l @ [k])"
    by (auto simp: lru_ok_def bt_wf_insert bt_get_insert)
  moreover have "find_mount k' (mounts v) = Some r'" if "b" "bt_get (bt_insert k r c) k' = Some r'" for k' r'
  proof (cases "k' = k")
    case True
    with that f c(1) show ?thesis by (simp add: bt_get_insert lru_ok_def)
  next
    case False
    with that c(1) have "bt_get c k' = Some r'" by (simp add: bt_get_insert lru_ok_def)
    then have "bt_get (path_cache v) k' = Some r'" using c(3) by (metis domI map_le_def)
    with i that(1) show ?thesis unfolding vfs_inv_def by blast
  qed
  ultimately show ?thesis using i by (simp add: cache_insert_def e vfs_inv_def)
qed

lemma lru_touch_ok: "lru_ok c l \<Longrightarrow> p \<in> set l \<Longrightarrow> lru_ok c (lru_touch p l)"
  using length_remove1 [of p l] length_pos_if_in_set [of p l] by (auto simp: lru_ok_def lru_touch_def)

lemma resolve_path_inv:
  assumes "vfs_inv b v" and "resolve_path p v = (r, v')"
  shows "vfs_inv b v' \<and> mounts v' = mounts v \<and> (b \<or> bt_get (path_cache v) (normalize_path p) = None \<longrightarrow>
    r = (case find_mount (normalize_path p) (mounts v) of Some x \<Rightarrow> Inr x | None \<Rightarrow> Inl NotMounted))"
proof (cases "bt_get (path_cache v) (normalize_path p)")
  case None
  with assms cache_insert_inv [OF assms(1) _ None] show ?thesis
    by (auto simp: resolve_path_def Let_def cache_insert_def split: option.splits prod.splits)
next
  case (Some x)
  then have "normalize_path p \<in> set (cache_lru v)" using assms(1) by (auto simp: vfs_inv_def lru_ok_def)
  moreover have "b \<Longrightarrow> find_mount (normalize_path p) (mounts v) = Some x" using assms(1) Some unfolding vfs_inv_def by blast
  ultimately show ?thesis using assms Some lru_touch_ok [of "path_cache v" "cache_lru v"]
    by (auto simp: resolve_path_def Let_def vfs_inv_def)
qed

lemma find_by_key:
  assumes "map g xs = map g ys" and "\<And>x. P x = Q (g x)"
  shows "map_option g (List.find P xs) = map_option g (List.find P ys)"
  using assms(1)
proof (induction xs arbitrary: ys)
  case (Cons x xs)
  then obtain y ys' where "ys = y # ys'" "g x = g y" "map g xs = map g ys'" by auto
  with Cons.IH assms(2) show ?case by auto
qed simp

lemma find_mount_keys:
  fixes ms ms' :: "'f mount_point list"
  assumes k: "mount_keys ms = mount_keys ms'"
  shows "find_mount p ms = find_mount p ms'"
proof -
  let ?g = "\<lambda>m :: 'f mount_point. (mp_path m, mp_fs_id m)"
  have "map_option ?g (List.find (mount_owns p) ms) = map_option ?g (List.find (mount_owns p) ms')"
    by (rule find_by_key [OF k, of _ "\<lambda>(path, i). p = path \<or> prefix (path @ ''/'') p"]) (simp add: mount_owns_def)
  moreover have "map_option ?g (List.find (\<lambda>m. mp_path m = ''/'') ms) = map_option ?g (List.find (\<lambda>m. mp_path m = ''/'') ms')"
    by (rule find_by_key [OF k, of _ "\<lambda>(path, i). path = ''/''"]) simp
  ultimately show ?thesis unfolding find_mount_def
    by (cases "List.find (mount_owns p) ms"; cases "List.find (mount_owns p) ms'";
        cases "List.find (\<lambda>m. mp_path m = ''/'') ms"; cases "List.find (\<lambda>m. mp_path m = ''/'') ms'"; simp)
qed

lemma mount_paths_keys: "map mp_path ms = map fst (mount_keys ms)"
  by (simp add: comp_def)

lemma mounts_ok_paths: "mounts_ok ms \<longleftrightarrow>
    (\<forall>p\<in>set (map mp_path ms). p = path_of (components p)) \<and> distinct (map mp_path ms) \<and>
    sorted_wrt (\<lambda>a b. length b \<le> length a) (map mp_path ms)"
  by (auto simp: mounts_ok_def normal_mount_def sorted_wrt_map)

lemma vfs_inv_keys:
  assumes "vfs_inv b v" and k: "mount_keys ms = mount_keys (mounts v)"
  shows "vfs_inv b (v\<lparr>mounts := ms\<rparr>)"
proof -
  have "map mp_path ms = map mp_path (mounts v)" using k by (simp only: mount_paths_keys)
  then have "mounts_ok ms" using assms(1) unfolding vfs_inv_def mounts_ok_paths by simp
  with assms find_mount_keys [OF k] show ?thesis by (simp add: vfs_inv_def)
qed

lemma set_fs_keys: "mount_keys (set_fs i fs ms) = mount_keys ms"
  by (induction ms) auto

lemma sync_mounts_keys: "sync_mounts ops ms = (r, ms') \<Longrightarrow> mount_keys ms' = mount_keys ms"
  by (induction ms arbitrary: r ms') (auto split: prod.splits sum.splits)

lemma with_fs_inv: "vfs_inv b v \<Longrightarrow> with_fs i f v = (r, v') \<Longrightarrow> vfs_inv b v'"
  by (auto simp: with_fs_def intro: vfs_inv_keys set_fs_keys split: sum.splits prod.splits)

lemma with_path_inv: "vfs_inv b v \<Longrightarrow> with_path p f v = (r, v') \<Longrightarrow> vfs_inv b v'"
  using resolve_path_inv [of b v p] with_fs_inv by (auto simp: with_path_def split: sum.splits prod.splits)

lemma clear_cache_inv: "mounts_ok (mounts v) \<Longrightarrow> vfs_inv b (clear_cache v)"
  by (auto simp: vfs_inv_def clear_cache_def lru_ok_def MAX_PATH_CACHE_SIZE_def)

lemma sort_mounts_ok:
  assumes "\<forall>m\<in>set ms. normal_mount m" and "distinct (map mp_path ms)"
  shows "mounts_ok (sort_mounts ms)"
proof -
  have m: "mset (sort_mounts ms) = mset ms" by (simp add: sort_mounts_def)
  then have "mset (map mp_path (sort_mounts ms)) = mset (map mp_path ms)" by simp
  then have "distinct (map mp_path (sort_mounts ms))" using assms(2) mset_eq_imp_distinct_iff by blast
  moreover have "set (sort_mounts ms) = set ms" using m by (metis set_mset_mset)
  moreover have "sorted_wrt (\<lambda>a b. length (mp_path b) \<le> length (mp_path a)) (sort_mounts ms)"
    using sorted_sort_key [of "\<lambda>m. - int (length (mp_path m))" ms]
    by (simp add: sort_mounts_def sorted_wrt_map)
  ultimately show ?thesis using assms(1) by (simp add: mounts_ok_def)
qed

lemma add_mount_ok:
  assumes "mounts_ok ms" and "\<forall>m\<in>set ms. mp_path m \<noteq> normalize_path p"
  shows "mounts_ok (sort_mounts (ms @ [\<lparr>mp_path = normalize_path p, mp_fs = f, mp_fs_id = i\<rparr>]))"
  using assms by (intro sort_mounts_ok)
    (auto simp: mounts_ok_def normal_mount_def normalize_path_eq components_path_of components_valid)

lemma vfs_mount_inv:
  assumes "vfs_inv b v" and "vfs_mount ops p fs v = (r, v')"
  shows "vfs_inv (r = Inr () \<or> b) v'"
proof -
  obtain q fs1 where m: "fs_mount_op ops fs = (q, fs1)" by fastforce
  have next_id: "vfs_inv b (v\<lparr>next_fs_id := n\<rparr>)" for n using assms(1) by (simp add: vfs_inv_def)
  show ?thesis
  proof (cases "(\<exists>m\<in>set (mounts v). mp_path m = normalize_path p) \<or> (\<exists>e. q = Inl e)")
    case True
    with assms m next_id show ?thesis by (cases q) (auto simp: vfs_mount_def Let_def split: if_splits)
  next
    case False
    with assms m add_mount_ok [of "mounts v" p] show ?thesis
      by (cases q) (auto simp: vfs_mount_def Let_def vfs_inv_def [of _ v] intro!: clear_cache_inv)
  qed
qed

lemma mounts_ok_remove: "mounts_ok ms \<Longrightarrow> pos < length ms \<Longrightarrow> mounts_ok (take pos ms @ drop (pos + 1) ms)"
proof -
  assume "mounts_ok ms" and "pos < length ms"
  then have "mounts_ok (take pos ms @ ms ! pos # drop (pos + 1) ms)" by (simp add: id_take_nth_drop [symmetric])
  then show ?thesis by (auto simp: mounts_ok_def sorted_wrt_append)
qed

lemma vfs_unmount_inv:
  assumes "vfs_inv b v" and "vfs_unmount ops p v = (r, v')"
  shows "vfs_inv (r = Inr () \<or> b \<and> mounts v' = mounts v) v'"
proof (cases "List.find (\<lambda>i. mp_path (mounts v ! i) = normalize_path p) [0..<length (mounts v)]")
  case None
  with assms show ?thesis by (auto simp: vfs_unmount_def)
next
  case (Some pos)
  from find_Some_least [OF Some] have pos: "pos < length (mounts v)" by simp
  let ?v1 = "v\<lparr>mounts := take pos (mounts v) @ drop (pos + 1) (mounts v)\<rparr>"
  have ok: "mounts_ok (mounts ?v1)" using assms(1) mounts_ok_remove [OF _ pos] by (simp add: vfs_inv_def)
  from Some assms(2) consider "r = Inr ()" "v' = clear_cache ?v1" | e where "r = Inl e" "v' = ?v1"
    by (auto simp: vfs_unmount_def Let_def split: prod.splits sum.splits)
  then show ?thesis
  proof cases
    case 1
    with clear_cache_inv [OF ok] show ?thesis by simp
  next
    case 2
    have "length (mounts v') < length (mounts v)" using 2(2) pos by simp
    then have "mounts v' \<noteq> mounts v" by auto
    with 2 ok assms(1) show ?thesis by (simp add: vfs_inv_def)
  qed
qed

text \<open>
  The managers that the public operations can produce, and whether their path cache is fresh. A mount or unmount
  that succeeds empties the cache; an unmount that the filesystem refuses has removed the mount point already
  and leaves the cache as it is.
\<close>

inductive vfs_reach :: "'f fs_ops \<Rightarrow> bool \<Rightarrow> 'f vfs_manager \<Rightarrow> bool" for ops where
  boot: "vfs_reach ops True new_vfs"
| mount: "vfs_reach ops b v \<Longrightarrow> vfs_mount ops p fs v = (r, v') \<Longrightarrow> vfs_reach ops (r = Inr () \<or> b) v'"
| unmount: "vfs_reach ops b v \<Longrightarrow> vfs_unmount ops p v = (r, v') \<Longrightarrow>
    vfs_reach ops (r = Inr () \<or> b \<and> mounts v' = mounts v) v'"
| opened: "vfs_reach ops b v \<Longrightarrow> vfs_open ops p fl v = (h, v') \<Longrightarrow> vfs_reach ops b v'"
| written: "vfs_reach ops b v \<Longrightarrow> vfs_write ops dat h v = (n, h', v') \<Longrightarrow> vfs_reach ops b v'"
| created: "vfs_reach ops b v \<Longrightarrow> vfs_create ops p perms v = (i, v') \<Longrightarrow> vfs_reach ops b v'"
| unlinked: "vfs_reach ops b v \<Longrightarrow> vfs_unlink ops p v = (u, v') \<Longrightarrow> vfs_reach ops b v'"
| made_dir: "vfs_reach ops b v \<Longrightarrow> vfs_mkdir ops p perms v = (u, v') \<Longrightarrow> vfs_reach ops b v'"
| listed: "vfs_reach ops b v \<Longrightarrow> vfs_readdir ops p v = (es, v') \<Longrightarrow> vfs_reach ops b v'"
| stat: "vfs_reach ops b v \<Longrightarrow> vfs_stat ops p v = (a, v') \<Longrightarrow> vfs_reach ops b v'"
| synced: "vfs_reach ops b v \<Longrightarrow> sync_all ops v = (u, v') \<Longrightarrow> vfs_reach ops b v'"

lemma new_vfs_inv: "vfs_inv b new_vfs"
  by (simp add: vfs_inv_def new_vfs_def mounts_ok_def lru_ok_def dom_def)

lemma vfs_open_inv:
  assumes "vfs_inv b v" and "vfs_open ops p fl v = (h, v')"
  shows "vfs_inv b v'"
proof -
  obtain x v1 where res: "resolve_path p v = (x, v1)" by fastforce
  with resolve_path_inv [OF assms(1)] have i: "vfs_inv b v1" by blast
  from assms(2) have "v' = v1 \<or> (\<exists>i rel q. with_fs i (fs_create_op ops rel default_permissions) v1 = (q, v'))"
    by (auto simp: vfs_open_def res split: sum.splits prod.splits if_splits)
  with i with_fs_inv [OF i] show ?thesis by blast
qed

lemma vfs_write_inv:
  assumes "vfs_inv b v" and "vfs_write ops dat h v = (n, h', v')"
  shows "vfs_inv b v'"
proof -
  from assms(2) have "v' = v \<or> (\<exists>pos q. with_fs (fh_fs_id h) (fs_write_op ops (fh_inode h) pos dat) v = (q, v'))"
    by (auto simp: vfs_write_def split: sum.splits prod.splits if_splits)
  with assms(1) with_fs_inv [OF assms(1)] show ?thesis by blast
qed

lemma vfs_lookup_inv:
  "vfs_inv b v \<Longrightarrow> vfs_readdir ops p v = (es, v') \<Longrightarrow> vfs_inv b v'" "vfs_inv b v \<Longrightarrow> vfs_stat ops p v = (a, v') \<Longrightarrow> vfs_inv b v'"
  using resolve_path_inv [of b v p] by (auto simp: vfs_readdir_def vfs_stat_def split: sum.splits prod.splits)

lemma vfs_change_inv:
  assumes "vfs_inv b v"
  shows "vfs_create ops p perms v = (i, v') \<Longrightarrow> vfs_inv b v'" "vfs_unlink ops p v = (u, v') \<Longrightarrow> vfs_inv b v'"
    "vfs_mkdir ops p perms v = (u, v') \<Longrightarrow> vfs_inv b v'"
  unfolding vfs_create_def vfs_unlink_def vfs_mkdir_def by (rule with_path_inv [OF assms]; assumption)+

lemma sync_all_inv: "vfs_inv b v \<Longrightarrow> sync_all ops v = (u, v') \<Longrightarrow> vfs_inv b v'"
  by (auto simp: sync_all_def intro!: vfs_inv_keys sync_mounts_keys split: prod.splits)

lemma vfs_reach_inv: "vfs_reach ops b v \<Longrightarrow> vfs_inv b v"
proof (induction rule: vfs_reach.induct)
  case boot
  show ?case by (rule new_vfs_inv)
next
  case mount
  from vfs_mount_inv [OF mount.IH mount.hyps(2)] show ?case .
next
  case unmount
  from vfs_unmount_inv [OF unmount.IH unmount.hyps(2)] show ?case .
next
  case opened
  from vfs_open_inv [OF opened.IH opened.hyps(2)] show ?case .
next
  case written
  from vfs_write_inv [OF written.IH written.hyps(2)] show ?case .
next
  case created
  from vfs_change_inv(1) [OF created.IH created.hyps(2)] show ?case .
next
  case unlinked
  from vfs_change_inv(2) [OF unlinked.IH unlinked.hyps(2)] show ?case .
next
  case made_dir
  from vfs_change_inv(3) [OF made_dir.IH made_dir.hyps(2)] show ?case .
next
  case listed
  from vfs_lookup_inv(1) [OF listed.IH listed.hyps(2)] show ?case .
next
  case stat
  from vfs_lookup_inv(2) [OF stat.IH stat.hyps(2)] show ?case .
next
  case synced
  from sync_all_inv [OF synced.IH synced.hyps(2)] show ?case .
qed

lemma resolve_path_cached:
  assumes "resolve_path p v = (Inr x, v1)" and "vfs_inv b v"
  shows "bt_get (path_cache v1) (normalize_path p) = Some x"
proof (cases "bt_get (path_cache v) (normalize_path p)")
  case None
  obtain c l where e: "evict (path_cache v) (cache_lru v) = (c, l)" by fastforce
  with assms(2) evict_ok [OF _ e] have "bt_wf c" by (simp add: vfs_inv_def lru_ok_def)
  with None assms(1) e show ?thesis
    by (auto simp: resolve_path_def Let_def cache_insert_def bt_get_insert split: option.splits)
qed (use assms in \<open>auto simp: resolve_path_def Let_def\<close>)

lemma find_unique_index:
  assumes "distinct (map g xs)" and "x \<in> set xs"
  shows "\<exists>k<length xs. xs ! k = x \<and> List.find (\<lambda>i. g (xs ! i) = g x) [0..<length xs] = Some k"
proof -
  from assms(2) obtain k where k: "k < length xs" "xs ! k = x" by (auto simp: in_set_conv_nth)
  have "g (xs ! j) \<noteq> g x" if "j < k" for j
    using assms(1) k that by (auto simp: distinct_conv_nth)
  then have "List.find (\<lambda>i. g (xs ! i) = g x) [0..<length xs] = Some k"
    using k by (intro find_upt_Some) auto
  with k show ?thesis by blast
qed

lemma remove1_nth: "distinct xs \<Longrightarrow> k < length xs \<Longrightarrow> take k xs @ drop (k + 1) xs = remove1 (xs ! k) xs"
proof (induction xs arbitrary: k)
  case (Cons x xs)
  then show ?case by (cases k) auto
qed simp

section \<open>Properties\<close>

text \<open>C30: Path normalisation is canonical and compositional. The result is \<^verbatim>\<open>/\<close> or a sequence of components,
  none of them empty, \<^verbatim>\<open>.\<close>, \<^verbatim>\<open>..\<close> or with a slash, each after a slash; normalising again changes nothing;
  normalising a directory before appending the rest of a path changes nothing; and the parent of a path is what
  appending \<^verbatim>\<open>/..\<close> gives.\<close>

theorem normalize_path_canonical:
  "normalize_path p = path_of (components p) \<and> (\<forall>c\<in>set (components p). valid_component c) \<and>
   normalize_path (normalize_path p) = normalize_path p \<and>
   normalize_path (normalize_path p @ CHR ''/'' # q) = normalize_path (p @ CHR ''/'' # q) \<and>
   parent_path p = (if normalize_path p = ''/'' then None else Some (normalize_path (p @ ''/..'')))"
proof -
  have eq: "normalize_path (normalize_path p @ CHR ''/'' # q) = normalize_path (p @ CHR ''/'' # q)"
    by (simp only: normalize_path_eq [of "_ @ _"] components_append components_normalize)
  have "parent_path p = (if normalize_path p = ''/'' then None else Some (normalize_path (p @ ''/..'')))"
  proof (cases "components p" rule: rev_cases)
    case Nil
    then show ?thesis by (simp add: parent_path_def normalize_path_eq path_of_def)
  next
    case (snoc cs c)
    have c: "CHR ''/'' \<notin> set c" "c \<noteq> []" using components_valid [of p] snoc by (auto simp: valid_component_def)
    have n: "normalize_path p = join_path cs @ CHR ''/'' # c" using snoc by (simp add: normalize_path_eq path_of_def)
    have "rfind_slash (join_path cs @ CHR ''/'' # c) = Some (length (join_path cs))"
      by (rule rfind_slash_last [OF c(1)])
    moreover have "normalize_path (p @ ''/..'') = path_of cs"
      using components_append [of p "''..''"] snoc by (simp add: normalize_path_eq push_component_def)
    moreover have "join_path cs = [] \<longleftrightarrow> cs = []" by (cases cs) simp_all
    ultimately show ?thesis using c(2) by (auto simp: parent_path_def n path_of_def Cons_eq_append_conv)
  qed
  with eq components_valid [of p] show ?thesis by (simp add: normalize_path_eq components_path_of)
qed

theorem normalize_path_canonical_witness:
  "normalize_path (normalize_path ''/a//./b/'' @ ''/../c'') = ''/a/c'' \<and> parent_path ''/a//./b/'' = Some ''/a''"
  using normalize_path_canonical [of "''/a//./b/''" "''../c''"]
  by (simp add: normalize_path_def components_def path_of_def push_component_def)

text \<open>C29: Path resolution is longest-prefix matching on components. In every manager that the public operations
  produce, unless an unmount has been refused since the cache was last emptied, and even then for a path that is
  not cached, resolving a path gives the filesystem whose mount point is the longest component prefix of the
  path, with the rest of the path as the relative path, or \<^verbatim>\<open>NotMounted\<close> when no mount point is a prefix; the path
  cache is invisible. Resolution never changes the mounts, and the path cache never has more than 256 entries,
  refused unmounts or not.\<close>

theorem vfs_resolve_longest:
  assumes "vfs_reach ops fresh v" and "resolve_path p v = (r, v')"
  shows "mounts v' = mounts v \<and> length (path_cache v') \<le> 256 \<and>
    (fresh \<or> bt_get (path_cache v) (normalize_path p) = None \<longrightarrow>
     (case r of Inr x \<Rightarrow> longest_mount (components p) (mounts v) x
      | Inl e \<Rightarrow> e = NotMounted \<and> (\<forall>m\<in>set (mounts v). \<not> covers (components p) m)))"
proof -
  note i = vfs_reach_inv [OF assms(1)]
  from resolve_path_inv [OF i assms(2)] have i': "vfs_inv fresh v'" and m: "mounts v' = mounts v"
    and r: "fresh \<or> bt_get (path_cache v) (normalize_path p) = None \<longrightarrow>
      r = (case find_mount (path_of (components p)) (mounts v) of Some x \<Rightarrow> Inr x | None \<Rightarrow> Inl NotMounted)"
    by (simp_all add: normalize_path_eq)
  have ok: "mounts_ok (mounts v)" using i by (simp add: vfs_inv_def)
  have "length (path_cache v') = card (dom (bt_get (path_cache v')))"
    using i' distinct_card [OF bt_wf_distinct, of "path_cache v'"]
    by (simp add: vfs_inv_def lru_ok_def bt_get_def [abs_def] dom_map_of_conv_image_fst)
  also have "\<dots> = length (cache_lru v')" using i' by (metis distinct_card lru_ok_def vfs_inv_def)
  finally have "length (path_cache v') \<le> 256" using i' by (simp add: vfs_inv_def lru_ok_def MAX_PATH_CACHE_SIZE_def)
  with m r find_mount_longest [OF ok components_valid, of p] show ?thesis by (auto split: option.splits)
qed

text \<open>A filesystem for the examples: it holds nothing, and its state says whether it agrees to be unmounted.\<close>

definition sample_ops :: "bool fs_ops" where
  "sample_ops = \<lparr>fs_name = \<lambda>_. ''sample'', fs_is_mounted = \<lambda>_. True, fs_mount_op = \<lambda>f. (Inr (), f),
     fs_unmount_op = \<lambda>f. (if f then Inr () else Inl Busy, f), fs_sync_op = \<lambda>f. (Inr (), f),
     fs_getattr = \<lambda>_ _. Inr default_attr, fs_readdir = \<lambda>_ _. Inr [], fs_create_op = \<lambda>_ _ f. (Inr 0, f),
     fs_mkdir = \<lambda>_ _ f. (Inr (), f), fs_unlink = \<lambda>_ f. (Inr (), f), fs_rmdir = \<lambda>_ f. (Inr (), f),
     fs_rename = \<lambda>_ _ f. (Inr (), f), fs_read_op = \<lambda>_ _ _ b. Inr (0, b), fs_write_op = \<lambda>_ _ _ f. (Inr 0, f),
     fs_truncate = \<lambda>_ _ f. (Inr (), f), fs_statfs = \<lambda>_. Inl InvalidOperation\<rparr>"

definition sample_vfs :: "bool vfs_manager" where
  "sample_vfs = snd (vfs_mount sample_ops ''/mnt'' False (snd (vfs_mount sample_ops ''/'' True new_vfs)))"

lemma sample_vfs_eq:
  "sample_vfs = \<lparr>mounts = [\<lparr>mp_path = ''/mnt'', mp_fs = False, mp_fs_id = 2\<rparr>, \<lparr>mp_path = ''/'', mp_fs = True, mp_fs_id = 1\<rparr>],
     next_fs_id = 3, path_cache = [], cache_lru = []\<rparr>"
  by (simp add: sample_vfs_def vfs_mount_def sample_ops_def new_vfs_def normalize_path_def push_component_def
      clear_cache_def sort_mounts_def)

lemma sample_vfs_reach: "vfs_reach sample_ops True sample_vfs"
proof -
  have step: "vfs_reach ops True (snd (vfs_mount ops p fs v))" if "vfs_reach ops True v" for ops p and fs :: bool and v
    using vfs_reach.mount [OF that prod.collapse [symmetric]] by simp
  show ?thesis unfolding sample_vfs_def by (intro step vfs_reach.boot)
qed

theorem vfs_resolve_longest_witness:
  "\<exists>v'. resolve_path ''/mnt/a/../b'' sample_vfs = (Inr (2, ''/b''), v') \<and> length (path_cache v') \<le> 256 \<and>
     longest_mount (components ''/mnt/a/../b'') (mounts sample_vfs) (2, ''/b'')"
proof -
  have r: "fst (resolve_path ''/mnt/a/../b'' sample_vfs) = Inr (2, ''/b'')"
    by (simp add: sample_vfs_eq resolve_path_def find_mount_def mount_owns_def normalize_path_def push_component_def)
  then obtain v' where "resolve_path ''/mnt/a/../b'' sample_vfs = (Inr (2, ''/b''), v')"
    by (metis prod.collapse)
  with vfs_resolve_longest [OF sample_vfs_reach this] show ?thesis by auto
qed

text \<open>C31: An unmount that the filesystem refuses leaves the path cache stale. The mount point is gone, but a path
  that had been resolved to it still resolves to its identifier, so every operation on the path fails with
  \<^verbatim>\<open>NotMounted\<close>, even when another mounted filesystem owns the path by then.\<close>

theorem failed_unmount_leaves_stale:
  assumes "vfs_reach ops fresh v" and "distinct (map mp_fs_id (mounts v))"
    and "resolve_path p v = (Inr (i, rel), v1)" and "m \<in> set (mounts v)" and "mp_fs_id m = i"
    and "mp_path m = normalize_path q" and "fst (fs_unmount_op ops (mp_fs m)) = Inl e"
    and "vfs_unmount ops q v1 = (r, v2)"
  shows "r = Inl e \<and> mounts v2 = remove1 m (mounts v) \<and> fst (resolve_path p v2) = Inr (i, rel) \<and>
    fst (vfs_stat ops p v2) = Inl NotMounted"
proof -
  note inv = vfs_reach_inv [OF assms(1)]
  from resolve_path_inv [OF inv assms(3)] have i1: "vfs_inv fresh v1" and m1: "mounts v1 = mounts v" by simp_all
  have c: "bt_get (path_cache v1) (normalize_path p) = Some (i, rel)"
    using assms(3) inv by (rule resolve_path_cached)
  have d: "distinct (map mp_path (mounts v))" using inv by (simp add: vfs_inv_def mounts_ok_def)
  obtain pos where f: "List.find (\<lambda>i. mp_path (mounts v ! i) = normalize_path q) [0..<length (mounts v)] = Some pos"
    and pos: "pos < length (mounts v)" "mounts v ! pos = m"
    using find_unique_index [OF d assms(4)] assms(6) by auto
  have v2: "r = Inl e" "v2 = v1\<lparr>mounts := take pos (mounts v) @ drop (pos + 1) (mounts v)\<rparr>"
    using assms(7,8) f pos m1 by (auto simp: vfs_unmount_def Let_def split: prod.splits)
  have rem: "take pos (mounts v) @ drop (pos + 1) (mounts v) = remove1 m (mounts v)"
    using pos remove1_nth [OF _ pos(1)] d by (simp add: distinct_map)
  have res: "fst (resolve_path p v2) = Inr (i, rel)" "mounts (snd (resolve_path p v2)) = mounts v2"
    using c v2 by (simp_all add: resolve_path_def Let_def)
  have "\<forall>m'\<in>set (remove1 m (mounts v)). mp_fs_id m' \<noteq> i"
    using assms(2,4,5) d by (auto simp: distinct_map inj_on_def)
  then have "List.find (\<lambda>m'. mp_fs_id m' = i) (remove1 m (mounts v)) = None" by (auto simp: find_None_iff)
  then have "get_fs i (snd (resolve_path p v2)) = Inl NotMounted"
    using res(2) v2 rem by (simp add: get_fs_def)
  with res v2 rem show ?thesis by (auto simp: vfs_stat_def split: prod.splits)
qed

theorem failed_unmount_leaves_stale_witness:
  "fst (vfs_unmount sample_ops ''/mnt/'' (snd (resolve_path ''/mnt/b'' sample_vfs))) = Inl Busy \<and>
   fst (vfs_stat sample_ops ''/mnt/b'' (snd (vfs_unmount sample_ops ''/mnt/'' (snd (resolve_path ''/mnt/b'' sample_vfs)))))
     = Inl NotMounted"
proof -
  obtain v1 where r: "resolve_path ''/mnt/b'' sample_vfs = (Inr (2, ''/b''), v1)"
    by (simp add: sample_vfs_eq resolve_path_def find_mount_def mount_owns_def normalize_path_def push_component_def)
  obtain q v2 where u: "vfs_unmount sample_ops ''/mnt/'' v1 = (q, v2)" by fastforce
  let ?m = "\<lparr>mp_path = ''/mnt'', mp_fs = False, mp_fs_id = 2\<rparr>"
  have "?m \<in> set (mounts sample_vfs)" "distinct (map mp_fs_id (mounts sample_vfs))" "normalize_path ''/mnt/'' = ''/mnt''"
    "fst (fs_unmount_op sample_ops False) = Inl Busy"
    by (simp_all add: sample_vfs_eq sample_ops_def normalize_path_def push_component_def)
  with failed_unmount_leaves_stale [OF sample_vfs_reach _ r, of ?m "''/mnt/''" Busy q v2] u show ?thesis
    by (simp add: r u)
qed

end
