(* ===== verification/Security.thy ===== *)
theory Security
  imports Btree_Map Strings
begin

text \<open>
  The capability system, \<^verbatim>\<open>security/\<close>: capability sets as bit masks, intents and their parser, the security
  context of a process with its trust score, the manager that keeps the contexts, and the sandbox tables. The
  clock that stamps requests is an argument.
\<close>

section \<open>Capabilities\<close>

datatype capability =
    FileRead | FileWrite | FileExecute | FileCreate | FileDelete
  | NetConnect | NetBind | NetRawSocket
  | ProcessSpawn | ProcessKill | ProcessDebug
  | MemoryAllocate | MemoryMap | MemoryExecute
  | GraphicsCreate | GraphicsBlit | GraphicsPresent
  | SystemShutdown | SystemReboot | SystemTime
  | RealityFork | RealityMerge | CausalityQuery

primrec cap_bit :: "capability \<Rightarrow> nat" where
  "cap_bit FileRead = 0" | "cap_bit FileWrite = 1" | "cap_bit FileExecute = 2"
| "cap_bit FileCreate = 3" | "cap_bit FileDelete = 4"
| "cap_bit NetConnect = 10" | "cap_bit NetBind = 11" | "cap_bit NetRawSocket = 12"
| "cap_bit ProcessSpawn = 20" | "cap_bit ProcessKill = 21" | "cap_bit ProcessDebug = 22"
| "cap_bit MemoryAllocate = 30" | "cap_bit MemoryMap = 31" | "cap_bit MemoryExecute = 32"
| "cap_bit GraphicsCreate = 40" | "cap_bit GraphicsBlit = 41" | "cap_bit GraphicsPresent = 42"
| "cap_bit SystemShutdown = 50" | "cap_bit SystemReboot = 51" | "cap_bit SystemTime = 52"
| "cap_bit RealityFork = 60" | "cap_bit RealityMerge = 61" | "cap_bit CausalityQuery = 62"

definition cap_value :: "capability \<Rightarrow> u64" where
  "cap_value c = push_bit (cap_bit c) 1"

definition is_sensitive :: "capability \<Rightarrow> bool" where
  "is_sensitive c \<longleftrightarrow> c \<in> {FileExecute, NetRawSocket, ProcessDebug, MemoryExecute, SystemShutdown, SystemReboot}"

primrec cap_name :: "capability \<Rightarrow> string" where
  "cap_name FileRead = ''File Read''" | "cap_name FileWrite = ''File Write''"
| "cap_name FileExecute = ''File Execute''" | "cap_name FileCreate = ''File Create''"
| "cap_name FileDelete = ''File Delete''" | "cap_name NetConnect = ''Network Connect''"
| "cap_name NetBind = ''Network Bind''" | "cap_name NetRawSocket = ''Raw Socket''"
| "cap_name ProcessSpawn = ''Process Spawn''" | "cap_name ProcessKill = ''Process Kill''"
| "cap_name ProcessDebug = ''Process Debug''" | "cap_name MemoryAllocate = ''Memory Allocate''"
| "cap_name MemoryMap = ''Memory Map''" | "cap_name MemoryExecute = ''Memory Execute''"
| "cap_name GraphicsCreate = ''Graphics Create''" | "cap_name GraphicsBlit = ''Graphics Blit''"
| "cap_name GraphicsPresent = ''Graphics Present''" | "cap_name SystemShutdown = ''System Shutdown''"
| "cap_name SystemReboot = ''System Reboot''" | "cap_name SystemTime = ''System Time''"
| "cap_name RealityFork = ''Reality Fork''" | "cap_name RealityMerge = ''Reality Merge''"
| "cap_name CausalityQuery = ''Causality Query''"

record capability_set =
  cap_bits :: u64

definition cs_new :: capability_set where
  "cs_new = \<lparr>cap_bits = 0\<rparr>"

definition cs_all :: capability_set where
  "cs_all = \<lparr>cap_bits = NOT 0\<rparr>"

definition cs_add :: "capability \<Rightarrow> capability_set \<Rightarrow> capability_set" where
  "cs_add c s = s\<lparr>cap_bits := cap_bits s OR cap_value c\<rparr>"

definition cs_default :: capability_set where
  "cs_default = cs_add GraphicsPresent (cs_add GraphicsBlit (cs_add GraphicsCreate
     (cs_add MemoryAllocate (cs_add FileRead cs_new))))"

definition cs_has :: "capability_set \<Rightarrow> capability \<Rightarrow> bool" where
  "cs_has s c \<longleftrightarrow> cap_bits s AND cap_value c \<noteq> 0"

definition cs_remove :: "capability \<Rightarrow> capability_set \<Rightarrow> capability_set" where
  "cs_remove c s = s\<lparr>cap_bits := cap_bits s AND NOT (cap_value c)\<rparr>"

definition cs_clear :: "capability_set \<Rightarrow> capability_set" where
  "cs_clear s = s\<lparr>cap_bits := 0\<rparr>"

definition cs_union :: "capability_set \<Rightarrow> capability_set \<Rightarrow> capability_set" where
  "cs_union s t = \<lparr>cap_bits = cap_bits s OR cap_bits t\<rparr>"

definition cs_intersection :: "capability_set \<Rightarrow> capability_set \<Rightarrow> capability_set" where
  "cs_intersection s t = \<lparr>cap_bits = cap_bits s AND cap_bits t\<rparr>"

section \<open>Intents\<close>

datatype intent_action = ReadFile | WriteFile | ExecuteFile | CreateFile | DeleteFile | ConnectNetwork
  | BindNetwork | SpawnProcess | AllocateMemory | CreateGraphics | Shutdown | Reboot | ForkReality
  | MergeReality | QueryCausality | Custom

datatype intent_priority = PrioLow | PrioNormal | PrioHigh | PrioCritical

record sec_intent =
  action :: intent_action
  target :: "string option"
  parameters :: "(string \<times> string) list"
  int_priority :: intent_priority

definition new_intent :: "intent_action \<Rightarrow> sec_intent" where
  "new_intent a = \<lparr>action = a, target = None, parameters = [], int_priority = PrioNormal\<rparr>"

definition with_target :: "string \<Rightarrow> sec_intent \<Rightarrow> sec_intent" where
  "with_target t i = i\<lparr>target := Some t\<rparr>"

definition intent_with_priority :: "intent_priority \<Rightarrow> sec_intent \<Rightarrow> sec_intent" where
  "intent_with_priority p i = i\<lparr>int_priority := p\<rparr>"

definition add_parameter :: "string \<Rightarrow> string \<Rightarrow> sec_intent \<Rightarrow> sec_intent" where
  "add_parameter k v i = i\<lparr>parameters := parameters i @ [(k, v)]\<rparr>"

definition matches_action :: "intent_action \<Rightarrow> capability \<Rightarrow> bool" where
  "matches_action a c \<longleftrightarrow> (a, c) \<in> {(ReadFile, FileRead), (WriteFile, FileWrite), (ExecuteFile, FileExecute),
     (CreateFile, FileCreate), (DeleteFile, FileDelete), (ConnectNetwork, NetConnect), (BindNetwork, NetBind),
     (SpawnProcess, ProcessSpawn), (AllocateMemory, MemoryAllocate), (CreateGraphics, GraphicsCreate),
     (Shutdown, SystemShutdown), (Reboot, SystemReboot), (ForkReality, RealityFork), (MergeReality, RealityMerge),
     (QueryCausality, CausalityQuery)}"

definition matches_capability :: "sec_intent \<Rightarrow> capability \<Rightarrow> bool" where
  "matches_capability i c = matches_action (action i) c"

primrec action_capability :: "intent_action \<Rightarrow> capability option" where
  "action_capability ReadFile = Some FileRead"
| "action_capability WriteFile = Some FileWrite"
| "action_capability ExecuteFile = Some FileExecute"
| "action_capability CreateFile = Some FileCreate"
| "action_capability DeleteFile = Some FileDelete"
| "action_capability ConnectNetwork = Some NetConnect"
| "action_capability BindNetwork = Some NetBind"
| "action_capability SpawnProcess = Some ProcessSpawn"
| "action_capability AllocateMemory = Some MemoryAllocate"
| "action_capability CreateGraphics = Some GraphicsCreate"
| "action_capability Shutdown = Some SystemShutdown"
| "action_capability Reboot = Some SystemReboot"
| "action_capability ForkReality = Some RealityFork"
| "action_capability MergeReality = Some RealityMerge"
| "action_capability QueryCausality = Some CausalityQuery"
| "action_capability Custom = None"

definition required_capability :: "sec_intent \<Rightarrow> capability option" where
  "required_capability i = action_capability (action i)"

definition parse_action :: "string \<Rightarrow> intent_action" where
  "parse_action s =
     (if s = ''read'' then ReadFile else if s = ''write'' then WriteFile
      else if s = ''exec'' then ExecuteFile else if s = ''create'' then CreateFile
      else if s = ''delete'' then DeleteFile else if s = ''connect'' then ConnectNetwork
      else if s = ''bind'' then BindNetwork else if s = ''spawn'' then SpawnProcess
      else if s = ''alloc'' then AllocateMemory else if s = ''graphics'' then CreateGraphics
      else if s = ''shutdown'' then Shutdown else if s = ''reboot'' then Reboot
      else if s = ''reality.fork'' then ForkReality else if s = ''reality.merge'' then MergeReality
      else if s = ''causality.query'' then QueryCausality else Custom)"

definition parse_param :: "string \<Rightarrow> sec_intent \<Rightarrow> sec_intent" where
  "parse_param s i = (case splitn2 (CHR ''='') s of [k, v] \<Rightarrow> add_parameter k v i | _ \<Rightarrow> i)"

definition parse_target :: "string \<Rightarrow> sec_intent \<Rightarrow> sec_intent" where
  "parse_target s i =
     (let parts = splitn2 (CHR ''?'') s; i1 = (if hd parts \<noteq> [] then i\<lparr>target := Some (hd parts)\<rparr> else i)
      in if 1 < length parts then fold parse_param (split_on (CHR ''&'') (parts ! 1)) i1 else i1)"

definition parse_intent :: "string \<Rightarrow> sec_intent option" where
  "parse_intent s =
     (let parts = splitn2 (CHR '':'') s; i = new_intent (parse_action (hd parts))
      in Some (if 1 < length parts then parse_target (parts ! 1) i else i))"

section \<open>Security contexts\<close>

datatype sandbox_level = SbNone | SbLow | SbMedium | SbHigh | SbMaximum

record behavior_patterns =
  file_access_count :: u32
  network_access_count :: u32
  process_spawn_count :: u32
  memory_allocations :: u32
  syscall_distribution :: "(u64, u32) btree"
  anomaly_score :: u32

definition new_patterns :: behavior_patterns where
  "new_patterns = \<lparr>file_access_count = 0, network_access_count = 0, process_spawn_count = 0,
     memory_allocations = 0, syscall_distribution = [], anomaly_score = 0\<rparr>"

definition patterns_record_syscall :: "u64 \<Rightarrow> behavior_patterns \<Rightarrow> behavior_patterns" where
  "patterns_record_syscall n b = (let d = syscall_distribution b in
     b\<lparr>syscall_distribution := bt_insert n ((case bt_get d n of None \<Rightarrow> 0 | Some k \<Rightarrow> k) + 1) d\<rparr>)"

definition update_anomaly_score :: "behavior_patterns \<Rightarrow> behavior_patterns" where
  "update_anomaly_score b =
     (let total_syscalls = sum_list (map snd (syscall_distribution b));
          score = (if 10000 < total_syscalls then anomaly_score b + 1 else anomaly_score b)
      in b\<lparr>anomaly_score := if 100 < score then 100 else score\<rparr>)"

record capability_request =
  req_capability :: capability
  req_intent :: sec_intent
  req_timestamp :: u64
  req_granted :: bool
  req_reason :: "string option"

record security_context =
  sc_pid :: u64
  capabilities :: capability_set
  intent_history :: "sec_intent list"
  trust_score :: u32
  sc_level :: sandbox_level
  patterns :: behavior_patterns
  capability_requests :: "capability_request list"

definition new_context :: "u64 \<Rightarrow> security_context" where
  "new_context pid = \<lparr>sc_pid = pid, capabilities = cs_default, intent_history = [], trust_score = 50,
     sc_level = SbMedium, patterns = new_patterns, capability_requests = []\<rparr>"

definition new_trusted :: "u64 \<Rightarrow> security_context" where
  "new_trusted pid = (new_context pid)\<lparr>trust_score := 100, sc_level := SbNone, capabilities := cs_all\<rparr>"

definition ctx_check_capability :: "capability \<Rightarrow> security_context \<Rightarrow> bool" where
  "ctx_check_capability c s = cs_has (capabilities s) c"

definition mark_granted :: "capability \<Rightarrow> string \<Rightarrow> capability_request list \<Rightarrow> capability_request list" where
  "mark_granted c reason rs =
     (if rs \<noteq> [] \<and> req_capability (last rs) = c \<and> \<not> req_granted (last rs)
      then butlast rs @ [(last rs)\<lparr>req_granted := True, req_reason := Some reason\<rparr>] else rs)"

definition grant_capability :: "capability \<Rightarrow> string \<Rightarrow> security_context \<Rightarrow> security_context" where
  "grant_capability c reason s = s\<lparr>capabilities := cs_add c (capabilities s),
     capability_requests := mark_granted c reason (capability_requests s)\<rparr>"

definition revoke_capability :: "capability \<Rightarrow> security_context \<Rightarrow> security_context" where
  "revoke_capability c s = s\<lparr>capabilities := cs_remove c (capabilities s)\<rparr>"

definition evaluate_capability_request :: "capability \<Rightarrow> sec_intent \<Rightarrow> security_context \<Rightarrow> bool" where
  "evaluate_capability_request c i s =
     (if 80 \<le> trust_score s then True
      else if \<not> matches_capability i c then False
      else if 70 < anomaly_score (patterns s) then False
      else if is_sensitive c \<and> trust_score s < 60 then False
      else 50 \<le> trust_score s)"

definition ctx_request_capability ::
    "u64 \<Rightarrow> capability \<Rightarrow> sec_intent \<Rightarrow> security_context \<Rightarrow> bool \<times> security_context" where
  "ctx_request_capability now c i s =
     (let s1 = s\<lparr>capability_requests := capability_requests s @
            [\<lparr>req_capability = c, req_intent = i, req_timestamp = now, req_granted = False, req_reason = None\<rparr>]\<rparr>;
          should_grant = evaluate_capability_request c i s1
      in (should_grant, if should_grant then grant_capability c ''Intent-based grant'' s1 else s1))"

definition record_intent :: "sec_intent \<Rightarrow> security_context \<Rightarrow> security_context" where
  "record_intent i s =
     (let h = intent_history s @ [i] in s\<lparr>intent_history := if 1000 < length h then tl h else h\<rparr>)"

definition level_of :: "u32 \<Rightarrow> sandbox_level" where
  "level_of t = (if t \<le> 20 then SbMaximum else if t \<le> 40 then SbHigh else if t \<le> 60 then SbMedium
     else if t \<le> 80 then SbLow else if t \<le> 100 then SbNone else SbMedium)"

definition ctx_adjust_trust :: "32 word \<Rightarrow> security_context \<Rightarrow> security_context" where
  "ctx_adjust_trust delta s =
     (let n = trust_score s + delta;
          new_score = (if sint n < 0 then 0 else if 100 < sint n then 100 else n)
      in s\<lparr>trust_score := new_score, sc_level := level_of new_score\<rparr>)"

section \<open>The manager\<close>

type_synonym security_manager = "(u64, security_context) btree"

definition create_context :: "u64 \<Rightarrow> security_manager \<Rightarrow> security_manager" where
  "create_context pid m = bt_insert pid (new_context pid) m"

definition create_trusted_context :: "u64 \<Rightarrow> security_manager \<Rightarrow> security_manager" where
  "create_trusted_context pid m = bt_insert pid (new_trusted pid) m"

definition remove_context :: "u64 \<Rightarrow> security_manager \<Rightarrow> security_manager" where
  "remove_context pid m = bt_remove pid m"

definition check_capability :: "u64 \<Rightarrow> capability \<Rightarrow> security_manager \<Rightarrow> bool" where
  "check_capability pid c m = (case bt_get m pid of Some s \<Rightarrow> ctx_check_capability c s | None \<Rightarrow> False)"

definition request_capability ::
    "u64 \<Rightarrow> u64 \<Rightarrow> capability \<Rightarrow> sec_intent \<Rightarrow> security_manager \<Rightarrow> bool \<times> security_manager" where
  "request_capability now pid c i m = (case bt_get m pid of
     Some s \<Rightarrow> (case ctx_request_capability now c i s of (r, s1) \<Rightarrow> (r, bt_modify pid (\<lambda>_. s1) m))
   | None \<Rightarrow> (False, m))"

definition record_syscall :: "u64 \<Rightarrow> u64 \<Rightarrow> security_manager \<Rightarrow> security_manager" where
  "record_syscall pid n m = bt_modify pid (\<lambda>s. s\<lparr>patterns := patterns_record_syscall n (patterns s)\<rparr>) m"

definition get_trust_score :: "u64 \<Rightarrow> security_manager \<Rightarrow> u32" where
  "get_trust_score pid m = (case bt_get m pid of Some s \<Rightarrow> trust_score s | None \<Rightarrow> 0)"

definition adjust_trust_score :: "u64 \<Rightarrow> 32 word \<Rightarrow> security_manager \<Rightarrow> security_manager" where
  "adjust_trust_score pid delta m = bt_modify pid (ctx_adjust_trust delta) m"

section \<open>Sandboxes\<close>

record sandbox =
  sb_level :: sandbox_level
  allowed_syscalls :: "bool list"
  allowed_files :: "string list"
  network_enabled :: bool

definition new_sandbox :: "sandbox_level \<Rightarrow> sandbox" where
  "new_sandbox level = \<lparr>sb_level = level,
     allowed_syscalls = (case level of SbNone \<Rightarrow> replicate 256 True
       | SbLow \<Rightarrow> (replicate 256 False)[0 := True, 1 := True, 60 := True] | _ \<Rightarrow> replicate 256 False),
     allowed_files = [], network_enabled = (level \<notin> {SbHigh, SbMaximum})\<rparr>"

definition check_syscall :: "u64 \<Rightarrow> sandbox \<Rightarrow> bool" where
  "check_syscall n s = (if 256 \<le> n then False else allowed_syscalls s ! unat n)"

section \<open>Sets of capabilities\<close>

definition caps :: "capability_set \<Rightarrow> capability set" where
  "caps s = {c. cs_has s c}"

lemma cap_bit_bound: "cap_bit c < 64"
  by (cases c) simp_all

lemma cap_bit_inj: "cap_bit c = cap_bit d \<longleftrightarrow> c = d"
  by (cases c; cases d; simp)

lemma bit_cap_value [word_bits]: "bit (cap_value c) n \<longleftrightarrow> n = cap_bit c"
  using cap_bit_bound [of c] by (auto simp: cap_value_def bit_simps)

lemma cs_has_bit: "cs_has s c \<longleftrightarrow> bit (cap_bits s) (cap_bit c)"
  unfolding cs_has_def cap_value_def by (simp add: and_exp_eq_0_iff cap_bit_bound push_bit_eq_mult)

lemma caps_simps:
  "caps cs_new = {}" "caps cs_all = UNIV" "caps (cs_clear s) = {}"
  "caps (cs_add c s) = insert c (caps s)" "caps (cs_remove c s) = caps s - {c}"
  "caps (cs_union s t) = caps s \<union> caps t" "caps (cs_intersection s t) = caps s \<inter> caps t"
  by (auto simp: caps_def cs_has_bit cs_new_def cs_all_def cs_clear_def cs_add_def cs_remove_def cs_union_def
      cs_intersection_def bit_simps bit_cap_value cap_bit_inj cap_bit_bound)

lemma matches_required: "matches_capability i c \<longleftrightarrow> required_capability i = Some c"
  by (cases "action i") (auto simp: matches_capability_def matches_action_def required_capability_def)

section \<open>Histories of a context\<close>

text \<open>
  What happens to the context of a process after its creation. \<open>grant_capability\<close> is called only by the
  evaluation of a request.
\<close>

inductive ctx_step :: "security_context \<Rightarrow> security_context \<Rightarrow> bool" where
  request: "ctx_step s (snd (ctx_request_capability now c i s))"
| revoke: "ctx_step s (revoke_capability c s)"
| intend: "ctx_step s (record_intent i s)"
| adjust: "ctx_step s (ctx_adjust_trust d s)"
| count: "ctx_step s (s\<lparr>patterns := patterns_record_syscall n (patterns s)\<rparr>)"
| score: "ctx_step s (s\<lparr>patterns := update_anomaly_score (patterns s)\<rparr>)"

inductive ctx_history :: "security_context \<Rightarrow> security_context list \<Rightarrow> bool" where
  start: "ctx_history s [s]"
| more: "ctx_history s (t # ts) \<Longrightarrow> ctx_step t u \<Longrightarrow> ctx_history s (u # t # ts)"

inductive_cases ctx_stepE: "ctx_step s t"

definition ctx_ok :: "security_context \<Rightarrow> bool" where
  "ctx_ok s \<longleftrightarrow> trust_score s \<le> 100 \<and> sc_level s = level_of (trust_score s) \<and>
     length (intent_history s) \<le> 1000 \<and> anomaly_score (patterns s) \<le> 100 \<and> bt_wf (syscall_distribution (patterns s))"

lemma evaluate_requests [simp]:
  "evaluate_capability_request c i (s\<lparr>capability_requests := rs\<rparr>) = evaluate_capability_request c i s"
  by (simp add: evaluate_capability_request_def)

lemma request_fields:
  assumes "ctx_request_capability now c i s = (r, t)"
  shows "r = evaluate_capability_request c i s" "trust_score t = trust_score s" "sc_level t = sc_level s"
    "intent_history t = intent_history s" "patterns t = patterns s"
    "caps (capabilities t) = (if r then insert c (caps (capabilities s)) else caps (capabilities s))"
proof -
  let ?q = "\<lparr>req_capability = c, req_intent = i, req_timestamp = now, req_granted = False, req_reason = None\<rparr>"
  let ?s = "s\<lparr>capability_requests := capability_requests s @ [?q]\<rparr>"
  from assms have r: "r = evaluate_capability_request c i s"
    and t: "t = (if r then grant_capability c ''Intent-based grant'' ?s else ?s)"
    unfolding ctx_request_capability_def Let_def prod.inject by (simp_all split: if_splits)
  show "r = evaluate_capability_request c i s" by (rule r)
  have g: "trust_score (grant_capability c w x) = trust_score x" "sc_level (grant_capability c w x) = sc_level x"
    "intent_history (grant_capability c w x) = intent_history x" "patterns (grant_capability c w x) = patterns x"
    "caps (capabilities (grant_capability c w x)) = insert c (caps (capabilities x))" for w x
    by (simp_all add: grant_capability_def caps_simps)
  show "trust_score t = trust_score s" "sc_level t = sc_level s" "intent_history t = intent_history s"
    "patterns t = patterns s" "caps (capabilities t) = (if r then insert c (caps (capabilities s)) else caps (capabilities s))"
    by (cases r, simp_all add: t g)+
qed

lemma clamp_bounds: "(if sint n < 0 then 0 else if 100 < sint n then 100 else n) \<le> (100 :: u32)"
proof (cases "0 \<le> sint n \<and> sint n \<le> 100")
  case True
  then have "uint n = sint n" using uint_sint [of n] take_bit_int_eq_self [of "sint n" 32] by simp
  with True have "uint n \<le> uint (100 :: u32)" by simp
  with True show ?thesis by (simp add: word_le_def del: uint_numeral)
next
  case False
  then show ?thesis by auto
qed

lemma ctx_ok_step: "ctx_step s t \<Longrightarrow> ctx_ok s \<Longrightarrow> ctx_ok t"
proof (induction rule: ctx_step.induct)
  case (request s now c i)
  obtain r t where "ctx_request_capability now c i s = (r, t)" by fastforce
  with request request_fields [OF this] show ?case by (simp add: ctx_ok_def)
next
  case (adjust s d)
  then show ?case using clamp_bounds by (simp add: ctx_ok_def ctx_adjust_trust_def Let_def)
next
  case (score s)
  then show ?case by (auto simp: ctx_ok_def update_anomaly_score_def Let_def)
qed (auto simp: ctx_ok_def revoke_capability_def record_intent_def patterns_record_syscall_def Let_def bt_wf_insert)

lemma ctx_history_ok: "ctx_history s ts \<Longrightarrow> ctx_ok s \<Longrightarrow> \<forall>t\<in>set ts. ctx_ok t"
  by (induction rule: ctx_history.induct) (auto dest: ctx_ok_step)

lemma new_context_ok: "ctx_ok (new_context pid)" "ctx_ok (new_trusted pid)"
  by (simp_all add: ctx_ok_def new_context_def new_trusted_def new_patterns_def level_of_def)

lemma step_caps:
  "ctx_step s t \<Longrightarrow> c \<in> caps (capabilities t) \<Longrightarrow> c \<in> caps (capabilities s) \<or>
     (\<exists>i. evaluate_capability_request c i s)"
proof (induction rule: ctx_step.induct)
  case (request s now d i)
  obtain r t where "ctx_request_capability now d i s = (r, t)" by fastforce
  with request request_fields [OF this] show ?case by (auto split: if_splits)
qed (auto simp: revoke_capability_def record_intent_def ctx_adjust_trust_def Let_def caps_simps)

lemma history_caps:
  assumes "ctx_history s ts"
  shows "c \<in> caps (capabilities (hd ts)) \<Longrightarrow> c \<in> caps (capabilities s) \<or> (\<exists>t\<in>set ts. \<exists>i. evaluate_capability_request c i t)"
  using assms by (induction rule: ctx_history.induct) (auto dest!: step_caps)

section \<open>Printing intents\<close>

text \<open>The syntax that the parser documents, \<^verbatim>\<open>action:target?key=value&key=value\<close>.\<close>

primrec action_word :: "intent_action \<Rightarrow> string" where
  "action_word ReadFile = ''read''" | "action_word WriteFile = ''write''" | "action_word ExecuteFile = ''exec''"
| "action_word CreateFile = ''create''" | "action_word DeleteFile = ''delete''"
| "action_word ConnectNetwork = ''connect''" | "action_word BindNetwork = ''bind''"
| "action_word SpawnProcess = ''spawn''" | "action_word AllocateMemory = ''alloc''"
| "action_word CreateGraphics = ''graphics''" | "action_word Shutdown = ''shutdown''"
| "action_word Reboot = ''reboot''" | "action_word ForkReality = ''reality.fork''"
| "action_word MergeReality = ''reality.merge''" | "action_word QueryCausality = ''causality.query''"
| "action_word Custom = ''custom''"

definition print_param :: "string \<times> string \<Rightarrow> string" where
  "print_param = (\<lambda>(k, v). k @ CHR ''='' # v)"

definition print_params :: "(string \<times> string) list \<Rightarrow> string" where
  "print_params ps = (case ps of [] \<Rightarrow> [] | q # qs \<Rightarrow> print_param q @ concat (map ((#) (CHR ''&'')) (map print_param qs)))"

definition print_intent :: "sec_intent \<Rightarrow> string" where
  "print_intent i = action_word (action i) @ CHR '':'' #
     (case target i of None \<Rightarrow> [] | Some t \<Rightarrow> t) @ CHR ''?'' # print_params (parameters i)"

definition printable_intent :: "sec_intent \<Rightarrow> bool" where
  "printable_intent i \<longleftrightarrow> int_priority i = PrioNormal \<and> target i \<noteq> Some [] \<and>
     (\<forall>t. target i = Some t \<longrightarrow> CHR ''?'' \<notin> set t) \<and>
     (\<forall>(k, v)\<in>set (parameters i). CHR ''='' \<notin> set k \<and> CHR ''&'' \<notin> set k \<and> CHR ''&'' \<notin> set v)"

lemma parse_action_word: "parse_action (action_word a) = a" "CHR '':'' \<notin> set (action_word a)"
  by (cases a; simp add: parse_action_def)+

lemma fold_parse_params:
  "\<forall>(k, v)\<in>set ps. CHR ''='' \<notin> set k \<Longrightarrow>
     fold parse_param (map print_param ps) i = i\<lparr>parameters := parameters i @ ps\<rparr>"
  by (induction ps arbitrary: i)
     (auto simp: parse_param_def print_param_def splitn2_some add_parameter_def)

lemma parse_print_params:
  assumes "\<forall>(k, v)\<in>set ps. CHR ''='' \<notin> set k \<and> CHR ''&'' \<notin> set k \<and> CHR ''&'' \<notin> set v"
  shows "fold parse_param (split_on (CHR ''&'') (print_params ps)) i = i\<lparr>parameters := parameters i @ ps\<rparr>"
proof (cases ps)
  case Nil
  then show ?thesis by (simp add: print_params_def parse_param_def splitn2_def)
next
  case (Cons q qs)
  have "split_on (CHR ''&'') (print_params ps) = map print_param ps"
    using assms split_on_concat [of "map print_param qs" "CHR ''&''" "print_param q"]
    by (auto simp: Cons print_params_def print_param_def)
  with assms fold_parse_params [of ps i] show ?thesis by auto
qed

lemma adjust_trust_sint:
  assumes "trust_score s \<le> 100"
  shows "trust_score (ctx_adjust_trust d s) =
    (let k = uint (trust_score s) + sint d in
       if 2 ^ 31 \<le> k then 0 else of_int (max 0 (min 100 k)))"
proof -
  let ?k = "uint (trust_score s) + sint d"
  have t: "uint (trust_score s) \<le> 100" using assms by (simp add: word_le_def)
  have d: "- (2 ^ 31) \<le> sint d" "sint d < 2 ^ 31" using sint_greater_eq [of d] sint_less [of d] by simp_all
  have n: "trust_score s + d = of_int ?k" by simp
  have small: "sint (of_int k :: u32) = k" if "- (2 ^ 31) \<le> k" "k < 2 ^ 31" for k
    using that by (simp add: sint_uint unsigned_of_int signed_take_bit_take_bit signed_take_bit_int_eq_self)
  show ?thesis
  proof (cases "2 ^ 31 \<le> ?k")
    case True
    have "(4294967296 :: u32) = 0" by simp
    then have "trust_score s + d = of_int (?k - 2 ^ 32)" by simp
    also have "sint \<dots> = ?k - 2 ^ 32" using True t d by (intro small) simp_all
    finally have "sint (trust_score s + d) = ?k - 2 ^ 32" .
    with True t d show ?thesis by (simp add: ctx_adjust_trust_def)
  next
    case False
    have "0 \<le> uint (trust_score s)" by simp
    with d have "- (2 ^ 31) \<le> ?k" by linarith
    with False have "sint (trust_score s + d) = ?k" unfolding n by (intro small) simp_all
    with False n show ?thesis by (auto simp: ctx_adjust_trust_def Let_def max_def min_def)
  qed
qed

section \<open>Properties\<close>

text \<open>C32: A process cannot talk itself into a sensitive capability. Whatever a process with a normal context
  requests, intends or does, as long as its trust score has never reached 60 it holds none of the capabilities to
  execute files or memory, open raw sockets, debug processes, shut down or reboot.\<close>

theorem no_sensitive_without_trust:
  assumes "ctx_history (new_context pid) ts" and "\<forall>t\<in>set ts. trust_score t < 60" and "is_sensitive c"
  shows "\<not> ctx_check_capability c (hd ts)"
proof
  assume "ctx_check_capability c (hd ts)"
  then have "c \<in> caps (capabilities (hd ts))" by (simp add: caps_def ctx_check_capability_def)
  moreover have "c \<notin> caps (capabilities (new_context pid))"
    using assms(3) by (auto simp: new_context_def cs_default_def caps_simps is_sensitive_def)
  ultimately obtain t i where t: "t \<in> set ts" "evaluate_capability_request c i t"
    using history_caps [OF assms(1)] by blast
  from t(1) assms(2) have "trust_score t < 60" by blast
  moreover from this have "\<not> 80 \<le> trust_score t" by (simp add: word_le_nat_alt word_less_nat_alt)
  ultimately show False using t(2) assms(3) by (auto simp: evaluate_capability_request_def split: if_splits)
qed

theorem no_sensitive_without_trust_witness:
  "\<not> ctx_check_capability SystemShutdown
     (snd (ctx_request_capability 7 SystemShutdown (new_intent Shutdown) (new_context 3)))"
proof -
  let ?t = "snd (ctx_request_capability 7 SystemShutdown (new_intent Shutdown) (new_context 3))"
  have "ctx_history (new_context 3) [?t, new_context 3]"
    by (intro ctx_history.intros ctx_step.request)
  moreover have "trust_score ?t = 50" "trust_score (new_context 3) = 50"
    using request_fields(2) [OF prod.collapse [symmetric], of 7 SystemShutdown "new_intent Shutdown" "new_context 3"]
    by (simp_all add: new_context_def)
  ultimately show ?thesis
    using no_sensitive_without_trust [of 3 "[?t, new_context 3]" SystemShutdown] by (simp add: is_sensitive_def)
qed

text \<open>The decision on a request is exactly this: a trust score of 80 suffices for every capability, whatever
  the intent and the anomaly score; below it, the intent must match, the anomaly score be at most 70 and the trust
  score at least 50, or 60 for a sensitive capability. A granted capability is added to the process that asked, a
  refused one to none, and no request changes the capabilities of another process.\<close>

theorem request_capability_exact:
  assumes "bt_wf m" and "request_capability now pid c i m = (r, m')"
  shows "(r \<longleftrightarrow> (\<exists>s. bt_get m pid = Some s \<and> (80 \<le> trust_score s \<or>
      required_capability i = Some c \<and> anomaly_score (patterns s) \<le> 70 \<and> 50 \<le> trust_score s \<and>
      (is_sensitive c \<longrightarrow> 60 \<le> trust_score s)))) \<and>
    check_capability q d m' = (check_capability q d m \<or> r \<and> q = pid \<and> d = c)"
proof (cases "bt_get m pid")
  case None
  with assms show ?thesis by (simp add: request_capability_def)
next
  case (Some s)
  obtain t where t: "ctx_request_capability now c i s = (r, t)" and m': "m' = bt_modify pid (\<lambda>_. t) m"
    using assms(2) Some by (auto simp: request_capability_def split: prod.splits)
  have g: "bt_get m' = (bt_get m)(pid \<mapsto> t)" using Some by (simp add: m' bt_get_modify)
  have "check_capability q d m' = (check_capability q d m \<or> r \<and> q = pid \<and> d = c)"
    using request_fields(6) [OF t] Some
    by (auto simp: check_capability_def g ctx_check_capability_def caps_def set_eq_iff split: if_splits)
  with request_fields(1) [OF t] Some show ?thesis
    by (auto simp: evaluate_capability_request_def matches_required linorder_not_less split: if_splits)
qed

text \<open>C33: In every history of a context the trust score and the anomaly score stay within 0 to 100, the sandbox
  level is the one of the trust score, and at most 1000 intents are kept. An adjustment clamps the sum to that
  range, except that a sum of $2^{31}$ or more wraps around and drops the score to 0.\<close>

theorem trust_score_bounds:
  assumes "ctx_history s ts" and "s \<in> {new_context pid, new_trusted pid}" and "t \<in> set ts"
  shows "trust_score t \<le> 100 \<and> anomaly_score (patterns t) \<le> 100 \<and> sc_level t = level_of (trust_score t) \<and>
    length (intent_history t) \<le> 1000 \<and>
    trust_score (ctx_adjust_trust d t) = (let k = uint (trust_score t) + sint d in
       if 2 ^ 31 \<le> k then 0 else of_int (max 0 (min 100 k)))"
proof -
  have "ctx_ok s" using assms(2) new_context_ok [of pid] by auto
  with ctx_history_ok [OF assms(1)] assms(3) have "ctx_ok t" by blast
  with adjust_trust_sint [of t d] show ?thesis by (simp add: ctx_ok_def)
qed

theorem trust_score_bounds_witness:
  "trust_score (ctx_adjust_trust 0x7FFFFFFF (new_context 1)) = 0 \<and> sc_level (new_context 1) = level_of 50"
  using trust_score_bounds [OF ctx_history.start [of "new_context 1"], of 1 "new_context 1" "0x7FFFFFFF"]
  by (simp add: new_context_def)

text \<open>The intent parser inverts the documented syntax \<^verbatim>\<open>action:target?key=value&key=value\<close>: an intent whose
  target has no question mark, whose keys have no equals sign and whose parameters have no ampersand is recovered
  from its text, with its parameters in order.\<close>

theorem parse_intent_roundtrip:
  assumes "printable_intent i"
  shows "parse_intent (print_intent i) = Some i"
proof -
  let ?t = "case target i of None \<Rightarrow> [] | Some t \<Rightarrow> t" and ?n = "new_intent (action i)"
  have q: "CHR ''?'' \<notin> set ?t" using assms by (auto simp: printable_intent_def split: option.splits)
  have "parse_target (?t @ CHR ''?'' # print_params (parameters i)) ?n =
      (if ?t \<noteq> [] then ?n\<lparr>target := Some ?t\<rparr> else ?n)\<lparr>parameters := parameters i\<rparr>"
    using assms by (simp add: parse_target_def splitn2_some [OF q] parse_print_params printable_intent_def new_intent_def)
  also have "\<dots> = i"
    using assms by (cases "target i") (auto simp: printable_intent_def new_intent_def)
  finally show ?thesis
    by (simp add: parse_intent_def print_intent_def splitn2_some parse_action_word)
qed

end
