(* ===== verification/Auth.thy ===== *)
theory Auth
  imports Prelude
begin

text \<open>
  Authentication, \<^verbatim>\<open>auth/\<close>: the password hash, the user database, the session, and the login screen as a
  function of the characters typed. A string is the list of its bytes; what is drawn on the screen is left out.
\<close>

section \<open>Users\<close>

definition byte :: "char \<Rightarrow> u8" where
  "byte c = of_char c"

text \<open>The absorbing loop of \<^verbatim>\<open>hash_password\<close>, one byte of the password at a time, and its mixing rounds.\<close>

definition absorb_byte :: "nat \<times> char \<Rightarrow> u8 list \<Rightarrow> u8 list" where
  "absorb_byte = (\<lambda>(i, c) h.
     let idx = i mod 32;
         h1 = h[idx := h ! idx XOR byte c];
         h2 = h1[(idx + 7) mod 32 := h1 ! ((idx + 7) mod 32) + byte c]
     in h2[(idx + 13) mod 32 := word_rotl 3 (h2 ! ((idx + 13) mod 32))])"

definition absorb :: "string \<Rightarrow> u8 list" where
  "absorb password = fold absorb_byte (enumerate 0 password) (replicate 32 0)"

definition mix_byte :: "nat \<Rightarrow> u8 list \<Rightarrow> u8 list" where
  "mix_byte i h = h[i := h ! i + word_rotl 5 (h ! ((i + 1) mod 32))]"

definition mix_round :: "u8 list \<Rightarrow> u8 list" where
  "mix_round = fold mix_byte [0..<32]"

definition hash_password :: "string \<Rightarrow> u8 list" where
  "hash_password password = (mix_round ^^ 64) (absorb password)"

record user =
  uid :: u32
  username :: string
  password_hash :: "u8 list"
  groups :: "u32 list"
  home_dir :: string

definition new_user :: "u32 \<Rightarrow> string \<Rightarrow> string \<Rightarrow> user" where
  "new_user i name password = \<lparr>uid = i, username = name, password_hash = hash_password password, groups = [],
     home_dir = if i = 0 then ''/root'' else ''/home/'' @ name\<rparr>"

definition is_root :: "user \<Rightarrow> bool" where
  "is_root u \<longleftrightarrow> uid u = 0"

definition verify_password :: "user \<Rightarrow> string \<Rightarrow> bool" where
  "verify_password u password \<longleftrightarrow> password_hash u = hash_password password"

record user_database =
  users :: "user list"

definition new_database :: user_database where
  "new_database = \<lparr>users = []\<rparr>"

definition root_user :: user where
  "root_user = (new_user 0 ''root'' ''astral'')\<lparr>groups := [0]\<rparr>"

definition plain_user :: user where
  "plain_user = (new_user 1000 ''user'' ''password'')\<lparr>groups := [1000]\<rparr>"

definition db_init :: "user_database \<Rightarrow> user_database" where
  "db_init db = db\<lparr>users := users db @ [root_user, plain_user]\<rparr>"

definition authenticate :: "user_database \<Rightarrow> string \<Rightarrow> string \<Rightarrow> user option" where
  "authenticate db name password = List.find (\<lambda>u. username u = name \<and> verify_password u password) (users db)"

definition get_user :: "user_database \<Rightarrow> string \<Rightarrow> user option" where
  "get_user db name = List.find (\<lambda>u. username u = name) (users db)"

section \<open>Sessions\<close>

record session =
  session_user :: "user option"
  logged_in :: bool

definition new_session :: session where
  "new_session = \<lparr>session_user = None, logged_in = False\<rparr>"

definition session_login :: "user \<Rightarrow> session \<Rightarrow> session" where
  "session_login u s = s\<lparr>session_user := Some u, logged_in := True\<rparr>"

definition session_logout :: "session \<Rightarrow> session" where
  "session_logout s = s\<lparr>session_user := None, logged_in := False\<rparr>"

definition session_is_root :: "session \<Rightarrow> bool" where
  "session_is_root s = (case session_user s of Some u \<Rightarrow> is_root u | None \<Rightarrow> False)"

definition session_username :: "session \<Rightarrow> string" where
  "session_username s = (case session_user s of Some u \<Rightarrow> username u | None \<Rightarrow> ''guest'')"

section \<open>The login screen\<close>

definition MAX_ATTEMPTS :: nat where
  "MAX_ATTEMPTS = 3"

definition is_ascii_graphic :: "char \<Rightarrow> bool" where
  "is_ascii_graphic c \<longleftrightarrow> 0x21 \<le> (of_char c :: nat) \<and> (of_char c :: nat) \<le> 0x7E"

definition is_enter :: "char \<Rightarrow> bool" where
  "is_enter c \<longleftrightarrow> c = CHR 0x0A \<or> c = CHR 0x0D"

text \<open>The reading loops; \<^const>\<open>None\<close> is a loop that still waits when the input ends.\<close>

fun read_line :: "string \<Rightarrow> string \<Rightarrow> (string \<times> string) option" where
  "read_line buffer [] = None"
| "read_line buffer (c # cs) =
     (if is_enter c then Some (buffer, cs)
      else if c = CHR 0x08 then read_line (butlast buffer) cs
      else if is_ascii_graphic c \<or> c = CHR '' '' then read_line (buffer @ [c]) cs
      else read_line buffer cs)"

fun read_password :: "string \<Rightarrow> string \<Rightarrow> (string \<times> string) option" where
  "read_password buffer [] = None"
| "read_password buffer (c # cs) =
     (if is_enter c then Some (buffer, cs)
      else if c = CHR 0x08 then read_password (butlast buffer) cs
      else if is_ascii_graphic c then read_password (buffer @ [c]) cs
      else read_password buffer cs)"

lemma read_line_length: "read_line b cs = Some (s, r) \<Longrightarrow> length r < length cs"
  by (induction b cs rule: read_line.induct) (auto split: if_splits)

lemma read_password_length: "read_password b cs = Some (s, r) \<Longrightarrow> length r < length cs"
  by (induction b cs rule: read_password.induct) (auto split: if_splits)

datatype login_outcome = Logged_in | System_locked | Awaiting_input

function show_login :: "user_database \<Rightarrow> nat \<Rightarrow> session \<Rightarrow> string \<Rightarrow> login_outcome \<times> session" where
  "show_login db attempts s inp = (case read_line [] inp of
     None \<Rightarrow> (Awaiting_input, s)
   | Some (name, inp1) \<Rightarrow>
       if name = [] then show_login db attempts s inp1
       else (case read_password [] inp1 of
         None \<Rightarrow> (Awaiting_input, s)
       | Some (password, inp2) \<Rightarrow> (case authenticate db name password of
           Some u \<Rightarrow> (Logged_in, session_login u s)
         | None \<Rightarrow> if MAX_ATTEMPTS \<le> attempts + 1 then (System_locked, s)
                   else show_login db (attempts + 1) s inp2)))"
  by pat_completeness auto
termination
  by (relation "measure (\<lambda>(db, n, s, inp). length inp)")
     (auto dest!: read_line_length read_password_length)

section \<open>The hash has no short collisions\<close>

lemma length_absorb_byte [simp]: "length (absorb_byte x h) = length h"
  by (simp add: absorb_byte_def Let_def split: prod.splits)

lemma length_absorb_fold [simp]: "length (fold absorb_byte xs h) = length h"
  by (induction xs arbitrary: h) simp_all

lemma absorb_snoc: "absorb (s @ [c]) = absorb_byte (length s, c) (absorb s)"
  by (simp add: absorb_def enumerate_append_eq)

lemma absorb_byte_below: "i < 19 \<Longrightarrow> k < i \<Longrightarrow> absorb_byte (i, c) h ! k = h ! k"
  by (simp add: absorb_byte_def Let_def)

lemma absorb_byte_at: "i < 19 \<Longrightarrow> length h = 32 \<Longrightarrow> absorb_byte (i, c) h ! i = h ! i XOR byte c"
  by (simp add: absorb_byte_def Let_def)

lemma length_absorb [simp]: "length (absorb s) = 32"
  by (simp add: absorb_def)

lemma absorb_nth:
  "length s \<le> 19 \<Longrightarrow> k < length s \<Longrightarrow> absorb s ! k = absorb (take k s) ! k XOR byte (s ! k)"
proof (induction s rule: rev_induct)
  case (snoc c s)
  show ?case
  proof (cases "k = length s")
    case True
    with snoc.prems show ?thesis by (simp add: absorb_snoc absorb_byte_at)
  next
    case False
    with snoc show ?thesis by (simp add: absorb_snoc absorb_byte_below nth_append)
  qed
qed simp

lemma unat_byte: "unat (byte c) = of_char c"
proof -
  have "byte c = of_nat (of_char c)" by (simp add: byte_def of_nat_of_char)
  moreover have "(of_char c :: nat) < 256" by (cases c) (auto simp: of_char_def)
  ultimately show ?thesis by (simp add: unat_of_nat_small)
qed

lemma byte_inj: "byte c = byte d \<longleftrightarrow> c = d"
  by (metis unat_byte char_of_char)

lemma xor_left_cancel: "x XOR a = x XOR b \<longleftrightarrow> a = b" for x a b :: u8
proof
  assume "x XOR a = x XOR b"
  then have "x XOR (x XOR a) = x XOR (x XOR b)" by simp
  then show "a = b" by (simp add: xor.assoc [symmetric])
qed simp

lemma absorb_prefix_differs:
  assumes "length s \<le> 19" and "length t \<le> 19" and "absorb s = absorb t" and "CHR 0x00 \<notin> set t"
    and "take k s = take k t" and "k = length s" and "k < length t"
  shows False
proof -
  have "take k t = s" using assms(5,6) by simp
  with absorb_nth [OF assms(2,7)] assms(3) have "absorb s ! k = absorb s ! k XOR byte (t ! k)" by simp
  then have "byte (t ! k) = 0" using xor_left_cancel [of "absorb s ! k" 0 "byte (t ! k)"] by simp
  moreover have "byte (CHR 0x00) = 0" by (simp add: byte_def)
  ultimately have "t ! k = CHR 0x00" by (metis byte_inj)
  with assms(4,7) show False by (metis nth_mem)
qed

lemma absorb_inj:
  assumes "length s \<le> 19" "length t \<le> 19" and "CHR 0x00 \<notin> set s" "CHR 0x00 \<notin> set t" and "absorb s = absorb t"
  shows "s = t"
proof -
  have pre: "take k s = take k t" if "k \<le> length s" "k \<le> length t" for k
    using that
  proof (induction k)
    case (Suc k)
    then have IH: "take k s = take k t" by simp
    have "absorb (take k s) ! k XOR byte (s ! k) = absorb (take k t) ! k XOR byte (t ! k)"
      using absorb_nth [of s k] absorb_nth [of t k] Suc.prems assms by simp
    then have "byte (s ! k) = byte (t ! k)" unfolding IH by (simp add: xor_left_cancel)
    with IH Suc.prems show ?case by (simp add: take_Suc_conv_app_nth byte_inj)
  qed simp
  show ?thesis
  proof (cases "length s" "length t" rule: linorder_cases)
    case less
    with absorb_prefix_differs [of s t "length s"] pre [of "length s"] assms show ?thesis by simp
  next
    case greater
    with absorb_prefix_differs [of t s "length t"] pre [of "length t"] assms show ?thesis by simp
  next
    case equal
    with pre [of "length s"] show ?thesis by simp
  qed
qed

lemma length_mix_byte [simp]: "length (mix_byte i h) = length h"
  by (simp add: mix_byte_def)

lemma mix_byte_inj:
  assumes "length g = 32" "length h = 32" "i < 32" and eq: "mix_byte i g = mix_byte i h"
  shows "g = h"
proof -
  have ne: "(i + 1) mod 32 \<noteq> i" using assms(3) by presburger
  have other: "g ! j = h ! j" if "j \<noteq> i" for j
  proof -
    have "mix_byte i g ! j = mix_byte i h ! j" using eq by simp
    with that show ?thesis by (simp add: mix_byte_def)
  qed
  have "mix_byte i g ! i = mix_byte i h ! i" using eq by simp
  then have "g ! i = h ! i" using assms other [OF ne] by (simp add: mix_byte_def)
  with other have "g ! j = h ! j" for j by (cases "j = i") auto
  with assms(1,2) show ?thesis by (simp add: list_eq_iff_nth_eq)
qed

lemma mix_fold_inj:
  "\<forall>i\<in>set is. i < 32 \<Longrightarrow> length g = 32 \<Longrightarrow> length h = 32 \<Longrightarrow> fold mix_byte is g = fold mix_byte is h \<Longrightarrow> g = h"
proof (induction "is" arbitrary: g h)
  case (Cons i "is")
  then have "mix_byte i g = mix_byte i h" by simp
  with Cons.prems mix_byte_inj [of g h i] show ?case by simp
qed simp

lemma length_mix_round [simp]: "length (mix_round h) = length h"
proof -
  have "length (fold mix_byte is h) = length h" for "is" by (induction "is" arbitrary: h) simp_all
  then show ?thesis by (simp add: mix_round_def)
qed

lemma mix_rounds_inj:
  "length g = 32 \<Longrightarrow> length h = 32 \<Longrightarrow> (mix_round ^^ n) g = (mix_round ^^ n) h \<Longrightarrow> g = h"
proof (induction n arbitrary: g h)
  case (Suc n)
  then have "mix_round g = mix_round h" by (simp add: funpow_Suc_right del: funpow.simps)
  with Suc.prems mix_fold_inj [of "[0..<32]" g h] show ?case by (simp add: mix_round_def)
qed simp

lemma hash_password_inj:
  assumes "length s \<le> 19" "length t \<le> 19" and "CHR 0x00 \<notin> set s" "CHR 0x00 \<notin> set t"
  shows "hash_password s = hash_password t \<longleftrightarrow> s = t"
  using mix_rounds_inj [of "absorb s" "absorb t" 64] absorb_inj [OF assms] by (auto simp: hash_password_def)

section \<open>The attempts of an input\<close>

text \<open>The pairs of name and password that an input enters, without the empty names.\<close>

function attempts_of :: "string \<Rightarrow> (string \<times> string) list" where
  "attempts_of inp = (case read_line [] inp of
     None \<Rightarrow> []
   | Some (name, inp1) \<Rightarrow> if name = [] then attempts_of inp1 else (case read_password [] inp1 of
       None \<Rightarrow> [] | Some (password, inp2) \<Rightarrow> (name, password) # attempts_of inp2))"
  by pat_completeness auto
termination
  by (relation "measure length") (auto dest!: read_line_length read_password_length)

declare show_login.simps [simp del] attempts_of.simps [simp del]

definition login_spec :: "user_database \<Rightarrow> session \<Rightarrow> (string \<times> string) list \<Rightarrow> nat \<Rightarrow> login_outcome \<times> session" where
  "login_spec db s as n = (case List.find (\<lambda>(name, password). authenticate db name password \<noteq> None) (take n as) of
     Some (name, password) \<Rightarrow> (Logged_in, session_login (the (authenticate db name password)) s)
   | None \<Rightarrow> (if n \<le> length as then System_locked else Awaiting_input, s))"

lemma show_login_spec:
  "attempts < 3 \<Longrightarrow> show_login db attempts s inp = login_spec db s (attempts_of inp) (3 - attempts)"
proof (induction db attempts s inp rule: show_login.induct)
  case (1 db attempts s inp)
  show ?case
  proof (cases "read_line [] inp")
    case None
    with 1 show ?thesis by (simp add: show_login.simps [of db] attempts_of.simps [of inp] login_spec_def)
  next
    case (Some x)
    obtain name inp1 where x: "x = (name, inp1)" by fastforce
    show ?thesis
    proof (cases "name = []")
      case True
      with 1 Some x show ?thesis by (simp add: show_login.simps [of db attempts s inp] attempts_of.simps [of inp])
    next
      case name: False
      show ?thesis
      proof (cases "read_password [] inp1")
        case None
        with 1 Some x name show ?thesis by (simp add: show_login.simps [of db] attempts_of.simps [of inp] login_spec_def)
      next
        case pw: (Some y)
        obtain password inp2 where y: "y = (password, inp2)" by fastforce
        have m: "3 - attempts = Suc (2 - attempts)" using 1 by simp
        have a: "attempts_of inp = (name, password) # attempts_of inp2"
          using Some x name pw y by (simp add: attempts_of.simps [of inp])
        have l: "show_login db attempts s inp = (case authenticate db name password of
             Some u \<Rightarrow> (Logged_in, session_login u s)
           | None \<Rightarrow> if 3 \<le> attempts + 1 then (System_locked, s) else show_login db (attempts + 1) s inp2)"
          using Some x name pw y by (simp add: show_login.simps [of db attempts s inp] MAX_ATTEMPTS_def)
        show ?thesis
        proof (cases "authenticate db name password")
          case None
          have "show_login db (attempts + 1) s inp2 = login_spec db s (attempts_of inp2) (2 - attempts)" if "attempts < 2"
            using 1(2) [OF Some x [symmetric] name pw y [symmetric] None] that by (simp add: MAX_ATTEMPTS_def)
          with None 1(3) show ?thesis unfolding l a m by (cases "attempts < 2") (auto simp: login_spec_def)
        next
          case (Some u)
          then show ?thesis unfolding l a m by (simp add: login_spec_def)
        qed
      qed
    qed
  qed
qed

section \<open>Properties\<close>

text \<open>C34: The initial database authenticates exactly its two accounts. With passwords of at most 19 bytes, none of
  them zero, the hash has no collisions: \<^verbatim>\<open>root\<close> is authenticated with \<^verbatim>\<open>astral\<close> and \<^verbatim>\<open>user\<close> with \<^verbatim>\<open>password\<close>, and
  nothing else is.\<close>

theorem authenticate_exact:
  assumes "length password \<le> 19" and "CHR 0x00 \<notin> set password"
  shows "authenticate (db_init new_database) name password =
    (if name = ''root'' \<and> password = ''astral'' then Some root_user
     else if name = ''user'' \<and> password = ''password'' then Some plain_user else None)"
proof -
  have "hash_password ''astral'' = hash_password password \<longleftrightarrow> ''astral'' = password"
    "hash_password ''password'' = hash_password password \<longleftrightarrow> ''password'' = password"
    using assms by (simp_all add: hash_password_inj)
  then show ?thesis
    by (auto simp: authenticate_def db_init_def new_database_def root_user_def plain_user_def new_user_def
        verify_password_def)
qed

theorem authenticate_exact_witness:
  "authenticate (db_init new_database) ''root'' ''astral'' = Some root_user \<and>
   authenticate (db_init new_database) ''root'' ''Astral'' = None"
  using authenticate_exact [of "''astral''" "''root''"] authenticate_exact [of "''Astral''" "''root''"] by simp

text \<open>The login screen gives three attempts. Its outcome depends only on the first three pairs of a name and a
  password that the input enters, an empty name not counting: it logs in the account of the first pair that
  authenticates, locks the system when all three fail, and waits for input otherwise.\<close>

theorem login_three_attempts:
  "show_login db 0 s inp =
    (case List.find (\<lambda>(name, password). authenticate db name password \<noteq> None) (take 3 (attempts_of inp)) of
       Some (name, password) \<Rightarrow> (Logged_in, session_login (the (authenticate db name password)) s)
     | None \<Rightarrow> (if 3 \<le> length (attempts_of inp) then System_locked else Awaiting_input, s))"
  using show_login_spec [of 0 db s inp] by (simp add: login_spec_def)

end
