(* ===== verification/Machine.thy ===== *)
theory Machine
  imports Prelude
begin

text \<open>
  The part of an x86\_64 processor that the assembly of the kernel uses: the general registers, the
  vector registers, the segment selectors and flags, the GS bases, the registers that configure
  \<^verbatim>\<open>syscall\<close>, and a memory of 64-bit cells by address. The routines of the kernel access the stack
  and the saved contexts at distances that are multiples of eight, so cells do not overlap.

  A call of a compiled function is a parameter of the execution; \<open>sysv\<close> is the calling convention
  that the compiler promises: the callee-saved registers, the stack of the caller and the system
  registers are kept, everything else may change.
\<close>

datatype reg = RAX | RBX | RCX | RDX | RSI | RDI | RBP | RSP | R8 | R9 | R10 | R11 | R12 | R13 | R14 | R15

record machine =
  regs :: "reg \<Rightarrow> u64"
  xmm :: "nat \<Rightarrow> 128 word"
  mem :: "u64 \<Rightarrow> u64"
  rip :: u64
  cs :: u64
  ss :: u64
  rflags :: u64
  gs_base :: u64
  kernel_gs_base :: u64
  star :: u64
  lstar :: u64
  fmask :: u64

datatype instr =
    Push reg | Pop reg | Mov reg reg | MovImm reg u64 | Load reg reg u64 | Store reg u64 reg | Lea reg reg u64
  | AddImm reg u64 | PushMem reg u64 | Pushfq | Popfq | Cli | Swapgs | LoadGs reg u64 | StoreGs u64 reg
  | Call | Ret | Iretq | Sysretq

section \<open>Execution\<close>

definition push :: "u64 \<Rightarrow> machine \<Rightarrow> machine" where
  "push v m = (let sp = regs m RSP - 8 in m\<lparr>regs := (regs m)(RSP := sp), mem := (mem m)(sp := v)\<rparr>)"

definition set_reg :: "reg \<Rightarrow> u64 \<Rightarrow> machine \<Rightarrow> machine" where
  "set_reg r v m = m\<lparr>regs := (regs m)(r := v)\<rparr>"

definition stack_top :: "machine \<Rightarrow> u64" where
  "stack_top m = mem m (regs m RSP)"

definition drop_top :: "machine \<Rightarrow> machine" where
  "drop_top m = set_reg RSP (regs m RSP + 8) m"

text \<open>\<^verbatim>\<open>iretq\<close> takes the instruction pointer, CS, the flags, the stack pointer and SS from the stack;
  \<^verbatim>\<open>sysretq\<close> takes the instruction pointer and the flags from RCX and R11, and the selectors from
  the top half of STAR.\<close>

definition iret :: "machine \<Rightarrow> machine" where
  "iret m = (let sp = regs m RSP; f = (\<lambda>i. mem m (sp + 8 * i)) in
     m\<lparr>rip := f 0, cs := f 1, rflags := f 2, regs := (regs m)(RSP := f 3), ss := f 4\<rparr>)"

definition sysret :: "machine \<Rightarrow> machine" where
  "sysret m = m\<lparr>rip := regs m RCX, rflags := (regs m R11 AND 0x3C7FD7) OR 2,
     cs := (drop_bit 48 (star m) + 16) OR 3, ss := (drop_bit 48 (star m) + 8) OR 3\<rparr>"

primrec step :: "(machine \<Rightarrow> machine) \<Rightarrow> instr \<Rightarrow> machine \<Rightarrow> machine" where
  "step h (Push r) m = push (regs m r) m"
| "step h (Pop r) m = set_reg r (stack_top m) (drop_top m)"
| "step h (Mov r s) m = set_reg r (regs m s) m"
| "step h (MovImm r v) m = set_reg r v m"
| "step h (Load r b k) m = set_reg r (mem m (regs m b + k)) m"
| "step h (Store b k r) m = m\<lparr>mem := (mem m)(regs m b + k := regs m r)\<rparr>"
| "step h (Lea r b k) m = set_reg r (regs m b + k) m"
| "step h (AddImm r k) m = set_reg r (regs m r + k) m"
| "step h (PushMem b k) m = push (mem m (regs m b + k)) m"
| "step h Pushfq m = push (rflags m) m"
| "step h Popfq m = drop_top (m\<lparr>rflags := stack_top m\<rparr>)"
| "step h Cli m = m\<lparr>rflags := rflags m AND NOT 0x200\<rparr>"
| "step h Swapgs m = m\<lparr>gs_base := kernel_gs_base m, kernel_gs_base := gs_base m\<rparr>"
| "step h (LoadGs r k) m = set_reg r (mem m (gs_base m + k)) m"
| "step h (StoreGs k r) m = m\<lparr>mem := (mem m)(gs_base m + k := regs m r)\<rparr>"
| "step h Call m = h m"
| "step h Ret m = drop_top (m\<lparr>rip := stack_top m\<rparr>)"
| "step h Iretq m = iret m"
| "step h Sysretq m = sysret m"

definition run :: "(machine \<Rightarrow> machine) \<Rightarrow> instr list \<Rightarrow> machine \<Rightarrow> machine" where
  "run h code m = fold (step h) code m"

text \<open>The processor enters an interrupt gate on the stack of the interrupt stack table when the gate
  names one, on RSP0 when it comes from ring 3, and on the current stack otherwise, aligned to 16
  bytes. It clears the flags TF, IF, NT, RF and VM. \<^verbatim>\<open>syscall\<close> saves the instruction pointer and the
  flags in RCX and R11 and takes the selectors from STAR.\<close>

definition deliver :: "u64 option \<Rightarrow> u64 \<Rightarrow> u64 option \<Rightarrow> u64 \<Rightarrow> machine \<Rightarrow> machine" where
  "deliver ist rsp0 err entry m =
     (let user = (cs m AND 3 = 3);
          sp = (case ist of Some s \<Rightarrow> s | None \<Rightarrow> if user then rsp0 else regs m RSP) AND NOT 0xF;
          m1 = push (rip m) (push (cs m) (push (rflags m) (push (regs m RSP) (push (ss m) (set_reg RSP sp m)))));
          m2 = (case err of None \<Rightarrow> m1 | Some e \<Rightarrow> push e m1)
      in m2\<lparr>rip := entry, cs := 0x08, ss := (if user then 0 else ss m), rflags := rflags m AND NOT 0x34300\<rparr>)"

definition syscall_instr :: "machine \<Rightarrow> machine" where
  "syscall_instr m = m\<lparr>regs := (regs m)(RCX := rip m, R11 := rflags m), rip := lstar m,
     cs := take_bit 16 (drop_bit 32 (star m)) AND 0xFFFC, ss := take_bit 16 (drop_bit 32 (star m)) + 8,
     rflags := rflags m AND NOT (fmask m)\<rparr>"

section \<open>The stack as a list\<close>

definition stack :: "nat \<Rightarrow> machine \<Rightarrow> u64 list" where
  "stack n m = map (\<lambda>i. mem m (regs m RSP + 8 * of_nat i)) [0..<n]"

abbreviation callee_saved :: "reg set" where
  "callee_saved \<equiv> {RBX, RBP, RSP, R12, R13, R14, R15}"

abbreviation system_regs :: "machine \<Rightarrow> u64 \<times> u64 \<times> u64 \<times> u64 \<times> u64 \<times> u64 \<times> u64" where
  "system_regs m \<equiv> (cs m, ss m, gs_base m, kernel_gs_base m, star m, lstar m, fmask m)"

definition sysv :: "(machine \<Rightarrow> machine) \<Rightarrow> bool" where
  "sysv h \<longleftrightarrow> (\<forall>m. (\<forall>r\<in>callee_saved. regs (h m) r = regs m r) \<and> (\<forall>n\<le>64. stack n (h m) = stack n m) \<and>
     system_regs (h m) = system_regs m)"

lemma sysvD:
  assumes "sysv h"
  shows "r \<in> callee_saved \<Longrightarrow> regs (h m) r = regs m r" and "n \<le> 64 \<Longrightarrow> stack n (h m) = stack n m"
    and "cs (h m) = cs m" "ss (h m) = ss m" "gs_base (h m) = gs_base m" "kernel_gs_base (h m) = kernel_gs_base m"
    "star (h m) = star m" "lstar (h m) = lstar m" "fmask (h m) = fmask m"
  using assms by (auto simp: sysv_def)

lemma run_simps [simp]:
  "run h [] m = m" "run h (i # is) m = run h is (step h i m)" "run h (xs @ ys) m = run h ys (run h xs m)"
  by (simp_all add: run_def)

lemma stack_0 [simp]: "stack 0 m = []"
  by (simp add: stack_def)

lemma length_stack [simp]: "length (stack n m) = n"
  by (simp add: stack_def)

lemma stack_Suc: "stack (Suc n) m = stack_top m # stack n (drop_top m)"
  by (simp add: stack_def stack_top_def drop_top_def set_reg_def map_upt_Suc algebra_simps del: upt_Suc)

lemma eight_times_neq: "0 < i \<Longrightarrow> i < 2 ^ 61 \<Longrightarrow> 8 * (of_nat i :: u64) \<noteq> 0"
proof
  assume i: "0 < i" "i < 2 ^ 61" and z: "8 * (of_nat i :: u64) = 0"
  have "8 * i < 2 ^ 64" using i by simp
  then have "unat (of_nat (8 * i) :: u64) = 8 * i" by (rule unat_of_nat_u64)
  with z i show False by simp
qed

lemma stack_push:
  assumes "n < 2 ^ 60"
  shows "stack (Suc n) (push v m) = v # stack n m"
proof -
  have "mem (push v m) (regs m RSP + 8 * of_nat i) = mem m (regs m RSP + 8 * of_nat i)" if "i < n" for i
    using eight_times_neq [of "Suc i"] that assms by (auto simp: push_def Let_def algebra_simps)
  then show ?thesis
    by (simp add: stack_Suc) (simp add: stack_def stack_top_def drop_top_def set_reg_def push_def Let_def)
qed

lemma stack_cong [simp]:
  "r \<noteq> RSP \<Longrightarrow> stack n (set_reg r v m) = stack n m"
  "stack n (m\<lparr>rip := a\<rparr>) = stack n m" "stack n (m\<lparr>cs := a\<rparr>) = stack n m" "stack n (m\<lparr>ss := a\<rparr>) = stack n m"
  "stack n (m\<lparr>rflags := a\<rparr>) = stack n m" "stack n (m\<lparr>gs_base := a\<rparr>) = stack n m"
  "stack n (m\<lparr>kernel_gs_base := a\<rparr>) = stack n m" "stack n (m\<lparr>xmm := x\<rparr>) = stack n m"
  by (simp_all add: stack_def set_reg_def)

lemma regs_simps [simp]:
  "regs (push v m) r = (if r = RSP then regs m RSP - 8 else regs m r)"
  "regs (set_reg r' v m) r = (if r = r' then v else regs m r)"
  "regs (drop_top m) r = (if r = RSP then regs m RSP + 8 else regs m r)"
  by (simp_all add: push_def set_reg_def drop_top_def Let_def)

lemma system_simps [simp]:
  "cs (push v m) = cs m" "ss (push v m) = ss m" "rflags (push v m) = rflags m" "rip (push v m) = rip m"
  "gs_base (push v m) = gs_base m" "kernel_gs_base (push v m) = kernel_gs_base m" "star (push v m) = star m"
  "lstar (push v m) = lstar m" "fmask (push v m) = fmask m" "xmm (push v m) = xmm m"
  "cs (set_reg r v m) = cs m" "ss (set_reg r v m) = ss m" "rflags (set_reg r v m) = rflags m"
  "rip (set_reg r v m) = rip m" "gs_base (set_reg r v m) = gs_base m"
  "kernel_gs_base (set_reg r v m) = kernel_gs_base m" "star (set_reg r v m) = star m"
  "lstar (set_reg r v m) = lstar m" "fmask (set_reg r v m) = fmask m" "xmm (set_reg r v m) = xmm m"
  "mem (set_reg r v m) = mem m"
  "cs (drop_top m) = cs m" "ss (drop_top m) = ss m" "rflags (drop_top m) = rflags m" "rip (drop_top m) = rip m"
  "gs_base (drop_top m) = gs_base m" "kernel_gs_base (drop_top m) = kernel_gs_base m" "star (drop_top m) = star m"
  "lstar (drop_top m) = lstar m" "fmask (drop_top m) = fmask m" "xmm (drop_top m) = xmm m" "mem (drop_top m) = mem m"
  by (simp_all add: push_def set_reg_def drop_top_def Let_def)

lemma mem_push: "mem (push v m) a = (if a = regs m RSP - 8 then v else mem m a)"
  by (simp add: push_def Let_def)

lemma drop_top_set_reg: "r \<noteq> RSP \<Longrightarrow> drop_top (set_reg r v m) = set_reg r v (drop_top m)"
  by (simp add: drop_top_def set_reg_def fun_upd_twist)

section \<open>Saving and restoring registers\<close>

text \<open>Every field but the memory and the general registers is kept by pushes and pops.\<close>

abbreviation same_rest :: "machine \<Rightarrow> machine \<Rightarrow> bool" where
  "same_rest m m' \<equiv> system_regs m' = system_regs m \<and> rflags m' = rflags m \<and> rip m' = rip m \<and> xmm m' = xmm m"

definition pushed :: "reg list \<Rightarrow> nat \<Rightarrow> machine \<Rightarrow> machine \<Rightarrow> bool" where
  "pushed rs n m m' \<longleftrightarrow> stack (length rs + n) m' = rev (map (regs m) rs) @ stack n m \<and> same_rest m m' \<and>
     (\<forall>r. regs m' r = (if r = RSP then regs m RSP - 8 * of_nat (length rs) else regs m r)) \<and>
     (\<forall>a. (\<forall>j. 0 < j \<and> j \<le> length rs \<longrightarrow> a \<noteq> regs m RSP - 8 * of_nat j) \<longrightarrow> mem m' a = mem m a)"

definition popped :: "reg list \<Rightarrow> u64 list \<Rightarrow> machine \<Rightarrow> machine \<Rightarrow> bool" where
  "popped rs vs m m' \<longleftrightarrow> same_rest m m' \<and> mem m' = mem m \<and> (\<forall>r. regs m' r =
     (if r = RSP then regs m RSP + 8 * of_nat (length rs)
      else case map_of (zip rs vs) r of Some v \<Rightarrow> v | None \<Rightarrow> regs m r))"

lemma run_pushes:
  "RSP \<notin> set rs \<Longrightarrow> length rs + n \<le> 2 ^ 60 \<Longrightarrow> pushed rs n m (run h (map Push rs) m)"
proof (induction rs arbitrary: m n)
  case (Cons q rs)
  let ?m = "push (regs m q) m"
  have IH: "pushed rs k ?m (run h (map Push rs) ?m)" if "k \<le> Suc n" for k
    using Cons.IH [of k ?m] Cons.prems that by simp
  have "map (regs ?m) rs = map (regs m) rs" using Cons.prems by auto
  then have st: "stack (length rs + Suc n) (run h (map Push rs) ?m) = rev (map (regs m) rs) @ regs m q # stack n m"
    using IH [of "Suc n"] Cons.prems by (simp add: pushed_def stack_push)
  have "mem (run h (map Push rs) ?m) a = mem m a"
    if a: "\<forall>j. 0 < j \<and> j \<le> Suc (length rs) \<longrightarrow> a \<noteq> regs m RSP - 8 * of_nat j" for a
  proof -
    have "a \<noteq> regs ?m RSP - 8 * of_nat j" if "0 < j" "j \<le> length rs" for j
      using a [rule_format, of "Suc j"] that by (simp add: algebra_simps)
    with IH [of n] have "mem (run h (map Push rs) ?m) a = mem ?m a" by (auto simp: pushed_def)
    with a [rule_format, of 1] show ?thesis by (simp add: mem_push)
  qed
  with st IH [of n] show ?case by (auto simp: pushed_def algebra_simps)
qed (simp add: pushed_def)

lemma run_pops:
  "RSP \<notin> set rs \<Longrightarrow> distinct rs \<Longrightarrow> stack (length rs + n) m = vs @ st \<Longrightarrow> length vs = length rs \<Longrightarrow>
     stack n (run h (map Pop rs) m) = st \<and> popped rs vs m (run h (map Pop rs) m)"
proof (induction rs arbitrary: m vs)
  case (Cons q rs)
  let ?m = "set_reg q (stack_top m) (drop_top m)"
  obtain ws where vs: "vs = stack_top m # ws" "stack (length rs + n) ?m = ws @ st" "length ws = length rs"
    using Cons.prems by (cases vs) (auto simp: stack_Suc)
  have IH: "stack n (run h (map Pop rs) ?m) = st" "popped rs ws ?m (run h (map Pop rs) ?m)"
    using Cons.IH [OF _ _ vs(2,3)] Cons.prems by auto
  have q: "map_of (zip rs ws) q = None" "q \<noteq> RSP" using Cons.prems vs(3) by (auto simp: map_of_zip_is_None)
  have "regs (run h (map Pop rs) ?m) r = (if r = RSP then regs m RSP + 8 * of_nat (Suc (length rs))
      else case map_of (zip (q # rs) vs) r of Some v \<Rightarrow> v | None \<Rightarrow> regs m r)" for r
  proof (cases "r = q")
    case False
    then show ?thesis using IH(2) vs(1) q(2) by (simp add: popped_def algebra_simps cong: option.case_cong)
  qed (use IH(2) vs(1) q in \<open>simp add: popped_def\<close>)
  moreover have "same_rest m (run h (map Pop rs) ?m) \<and> mem (run h (map Pop rs) ?m) = mem m"
    using IH(2) by (simp add: popped_def)
  ultimately show ?case using IH(1) by (simp add: popped_def)
qed (simp add: popped_def)

lemma stack_nth: "i < n \<Longrightarrow> stack n m ! i = mem m (regs m RSP + 8 * of_nat i)"
  by (simp add: stack_def)

lemma iret_stack:
  assumes "stack 5 m = [a, b, c, d, e]"
  shows "iret m = m\<lparr>rip := a, cs := b, rflags := c, regs := (regs m)(RSP := d), ss := e\<rparr>"
proof -
  have "[a, b, c, d, e] ! i = mem m (regs m RSP + 8 * of_nat i)" if "i < 5" for i
    using stack_nth [OF that, of m] assms by simp
  from this [of 0] this [of 1] this [of 2] this [of 3] this [of 4] show ?thesis
    by (simp add: iret_def Let_def)
qed

end
