(* ===== verification/Entry.thy ===== *)
theory Entry
  imports Machine
begin

text \<open>
  The ways into the kernel and between processes, as the assembly of the sources has them: the
  descriptor tables of \<^verbatim>\<open>interrupts/idt.rs\<close> and \<^verbatim>\<open>arch/x86_64/gdt.rs\<close>, the interrupt and exception
  wrappers and the \<^verbatim>\<open>int 0x80\<close> gate of \<^verbatim>\<open>interrupts/handlers.rs\<close>, the \<^verbatim>\<open>syscall\<close> entry of
  \<^verbatim>\<open>arch/x86_64/syscall.rs\<close>, the jump to ring 3 of \<^verbatim>\<open>arch/x86_64/usermode.rs\<close> and the context switch
  of \<^verbatim>\<open>process/context.rs\<close>. The compiled handlers are a parameter that keeps the calling convention.
\<close>

section \<open>Descriptor tables\<close>

definition KERNEL_CODE_SELECTOR :: u16 where
  "KERNEL_CODE_SELECTOR = 0x08"

definition USER_DATA_SELECTOR :: u16 where
  "USER_DATA_SELECTOR = 0x18 OR 3"

definition USER_CODE_SELECTOR :: u16 where
  "USER_CODE_SELECTOR = 0x20 OR 3"

record gdt_entry =
  limit_low :: u16
  base_low :: u16
  base_middle :: u8
  access :: u8
  granularity :: u8
  base_high :: u8

definition gdt_segment :: "u8 \<Rightarrow> u8 \<Rightarrow> gdt_entry" where
  "gdt_segment a g = \<lparr>limit_low = 0xFFFF, base_low = 0, base_middle = 0, access = a, granularity = g, base_high = 0\<rparr>"

text \<open>The eight bytes of a packed entry, read as a little-endian number.\<close>

definition gdt_word :: "gdt_entry \<Rightarrow> u64" where
  "gdt_word e = ucast (limit_low e) OR push_bit 16 (ucast (base_low e)) OR push_bit 32 (ucast (base_middle e)) OR
     push_bit 40 (ucast (access e)) OR push_bit 48 (ucast (granularity e)) OR push_bit 56 (ucast (base_high e))"

text \<open>The table of \<^verbatim>\<open>gdt.rs\<close>, with the two words of the descriptor that \<^verbatim>\<open>init\<close> makes for the task state
  segment at an address, and the table that \<^verbatim>\<open>init_gdt_and_tss\<close> of \<^verbatim>\<open>idt.rs\<close> loads.\<close>

definition tss_descriptor :: "u64 \<Rightarrow> u16 \<Rightarrow> u64 \<times> u64" where
  "tss_descriptor tss_ptr tss_size =
     (ucast (tss_size - 1) OR push_bit 16 (ucast (ucast (tss_ptr AND 0xFFFF) :: u16)) OR
        push_bit 32 (ucast (ucast (drop_bit 16 tss_ptr AND 0xFF) :: u8)) OR push_bit 40 0x89 OR
        push_bit 56 (ucast (ucast (drop_bit 24 tss_ptr AND 0xFF) :: u8)),
      ucast (ucast (drop_bit 32 tss_ptr AND 0xFFFFFFFF) :: u32))"

definition gdt :: "u64 \<Rightarrow> u64 list" where
  "gdt tss_ptr = [0, gdt_word (gdt_segment 0x9A 0xAF), gdt_word (gdt_segment 0x92 0xCF),
     gdt_word (gdt_segment 0xF2 0xCF), gdt_word (gdt_segment 0xFA 0xAF),
     fst (tss_descriptor tss_ptr 104), snd (tss_descriptor tss_ptr 104)]"

definition kernel_gdt :: "u64 \<Rightarrow> u64 list" where
  "kernel_gdt tss_addr = [0, 0x00AF9A000000FFFF, 0x00CF92000000FFFF, 0x00AFFA000000FFFF, 0x00CFF2000000FFFF,
     (104 - 1 AND 0xFFFF) OR push_bit 16 (tss_addr AND 0xFFFF) OR push_bit 32 (drop_bit 16 tss_addr AND 0xFF) OR
       push_bit 40 0x89 OR push_bit 56 (drop_bit 24 tss_addr),
     drop_bit 32 tss_addr]"

record idt_entry =
  offset_low :: u16
  selector :: u16
  ie_ist :: u8
  ie_flags :: u8
  offset_mid :: u16
  offset_high :: u32

definition new_idt_entry :: idt_entry where
  "new_idt_entry = \<lparr>offset_low = 0, selector = 0, ie_ist = 0, ie_flags = 0, offset_mid = 0, offset_high = 0\<rparr>"

definition set_handler :: "u64 \<Rightarrow> u8 \<Rightarrow> idt_entry \<Rightarrow> idt_entry" where
  "set_handler handler i e = e\<lparr>offset_low := ucast handler, offset_mid := ucast (drop_bit 16 handler),
     offset_high := ucast (drop_bit 32 handler), selector := 0x08, ie_flags := 0x8E, ie_ist := i\<rparr>"

definition set_user_handler :: "u64 \<Rightarrow> u8 \<Rightarrow> idt_entry \<Rightarrow> idt_entry" where
  "set_user_handler handler i e = (set_handler handler i e)\<lparr>ie_flags := 0xEE\<rparr>"

section \<open>Wrappers\<close>

definition saved_regs :: "reg list" where
  "saved_regs = [RAX, RCX, RDX, RSI, RDI, R8, R9, R10, R11]"

definition exception_wrapper :: "instr list" where
  "exception_wrapper = map Push saved_regs @ [Call] @ map Pop (rev saved_regs) @ [Iretq]"

definition exception_with_error_wrapper :: "instr list" where
  "exception_with_error_wrapper = map Push saved_regs @ [Load RDI RSP 72, Lea RSI RSP 80, Call] @
     map Pop (rev saved_regs) @ [AddImm RSP 8, Iretq]"

definition all_regs :: "reg list" where
  "all_regs = [RAX, RBX, RCX, RDX, RSI, RDI, RBP, R8, R9, R10, R11, R12, R13, R14, R15]"

definition syscall_wrapper :: "instr list" where
  "syscall_wrapper = map Push all_regs @
     [Mov R10 RDX, Mov R11 RSI, Mov R12 RDI,
      Mov RDI RAX, Mov RSI RBX, Mov RDX RCX, Mov RCX R10, Mov R8 R11, Mov R9 R12,
      Call, Store RSP (14 * 8) RAX] @ map Pop (rev all_regs) @ [Iretq]"

definition timer_interrupt_wrapper :: "instr list" where
  "timer_interrupt_wrapper = map Push saved_regs @ [Call] @ map Pop (rev saved_regs) @ [Iretq]"

definition keyboard_interrupt_wrapper :: "instr list" where
  "keyboard_interrupt_wrapper = map Push saved_regs @ [Call] @ map Pop (rev saved_regs) @ [Iretq]"

definition mouse_interrupt_wrapper :: "instr list" where
  "mouse_interrupt_wrapper = map Push saved_regs @ [Call] @ map Pop (rev saved_regs) @ [Iretq]"

datatype wrapper = Exception | Exception_error | Timer | Keyboard | Mouse | Int80

primrec wrapper_code :: "wrapper \<Rightarrow> instr list" where
  "wrapper_code Exception = exception_wrapper"
| "wrapper_code Exception_error = exception_with_error_wrapper"
| "wrapper_code Timer = timer_interrupt_wrapper"
| "wrapper_code Keyboard = keyboard_interrupt_wrapper"
| "wrapper_code Mouse = mouse_interrupt_wrapper"
| "wrapper_code Int80 = syscall_wrapper"

text \<open>\<^verbatim>\<open>init_idt\<close>: the wrapper and the entry of each vector, given the address of the wrapper.\<close>

definition init_idt :: "(nat \<Rightarrow> u64) \<Rightarrow> nat \<Rightarrow> (wrapper \<times> idt_entry) option" where
  "init_idt addr v =
     (if v \<in> {0..7} \<union> {16, 18, 19, 20} then Some (Exception, set_handler (addr v) 0 new_idt_entry)
      else if v = 8 then Some (Exception_error, set_handler (addr v) 1 new_idt_entry)
      else if v \<in> {10, 11, 12, 13, 14, 17} then Some (Exception_error, set_handler (addr v) 0 new_idt_entry)
      else if v = 32 then Some (Timer, set_handler (addr v) 0 new_idt_entry)
      else if v = 33 then Some (Keyboard, set_handler (addr v) 0 new_idt_entry)
      else if v = 44 then Some (Mouse, set_handler (addr v) 0 new_idt_entry)
      else if v = 0x80 then Some (Int80, set_user_handler (addr v) 0 new_idt_entry)
      else None)"

text \<open>The address the processor takes from a gate, and the exceptions for which it pushes an error code.\<close>

definition gate_address :: "idt_entry \<Rightarrow> u64" where
  "gate_address e = ucast (offset_low e) OR push_bit 16 (ucast (offset_mid e)) OR push_bit 32 (ucast (offset_high e))"

definition error_vectors :: "nat set" where
  "error_vectors = {8, 10, 11, 12, 13, 14, 17, 21, 29, 30}"

section \<open>The task state segment and the system call registers\<close>

record tss =
  rsp0 :: u64
  ist1 :: u64

definition tss_init :: "u64 \<Rightarrow> tss" where
  "tss_init base = (let sp = base + 16384 in \<lparr>rsp0 = sp, ist1 = sp - 4096\<rparr>)"

text \<open>An interrupt: the gate of the vector is entered on the stack it selects, and its wrapper runs.\<close>

definition interrupt :: "(nat \<Rightarrow> u64) \<Rightarrow> tss \<Rightarrow> nat \<Rightarrow> u64 \<Rightarrow> (machine \<Rightarrow> machine) \<Rightarrow> machine \<Rightarrow> machine option" where
  "interrupt addr t v code h m = (case init_idt addr v of
     None \<Rightarrow> None
   | Some (w, e) \<Rightarrow> Some (run h (wrapper_code w)
       (deliver (if ie_ist e = 1 then Some (ist1 t) else None) (rsp0 t) (if v \<in> error_vectors then Some code else None)
          (gate_address e) m)))"

definition SYSCALL_CPUS :: nat where
  "SYSCALL_CPUS = 8"

text \<open>\<^verbatim>\<open>init_for_cpu\<close> for the array of per-CPU data at an address: entries of 16400 bytes, the user stack
  pointer first, then the kernel stack pointer and the stack.\<close>

definition init_for_cpu :: "u64 \<Rightarrow> u64 \<Rightarrow> nat \<Rightarrow> machine \<Rightarrow> machine" where
  "init_for_cpu cpu_syscall_data entry cpu_id m =
     (let p = cpu_syscall_data + 16400 * of_nat (if SYSCALL_CPUS \<le> cpu_id then 0 else cpu_id);
          kernel_cs = ucast KERNEL_CODE_SELECTOR; user_cs = ucast USER_CODE_SELECTOR
      in m\<lparr>mem := (mem m)(p + 8 := (p + 16) + 16384), kernel_gs_base := p,
           star := push_bit 32 kernel_cs OR push_bit 48 (user_cs - 16), lstar := entry, fmask := 0x200\<rparr>)"

definition syscall_args :: "reg list" where
  "syscall_args = [RAX, RDI, RSI, RDX, R10, R8, R9, RCX, R11, RBX, RBP, R12, R13, R14, R15]"

definition syscall_entry :: "instr list" where
  "syscall_entry = [Swapgs, StoreGs 0 RSP, LoadGs RSP 8] @ map Push syscall_args @
     [Load RDI RSP 112, Load RSI RSP 104, Load RDX RSP 96, Load RCX RSP 88, Load R8 RSP 80, Load R9 RSP 72, Call] @
     map Pop [R15, R14, R13, R12, RBP, RBX, R11, RCX] @ [AddImm RSP 56, LoadGs RSP 0, Swapgs, Sysretq]"

definition enter_usermode :: "u64 \<Rightarrow> u64 \<Rightarrow> instr list" where
  "enter_usermode entry_point user_stack =
     [Cli, MovImm R10 entry_point, MovImm R11 user_stack, MovImm R12 (ucast USER_CODE_SELECTOR),
      MovImm R13 (ucast USER_DATA_SELECTOR), MovImm R14 0x202] @ map Push [R13, R11, R14, R12, R10] @ [Iretq]"

section \<open>Context switch\<close>

definition save_context :: "instr list" where
  "save_context =
     [Store RDI 0x00 R15, Store RDI 0x08 R14, Store RDI 0x10 R13, Store RDI 0x18 R12, Store RDI 0x20 RBX,
      Store RDI 0x28 RBP, Store RDI 0x30 R11, Store RDI 0x38 R10, Store RDI 0x40 R9, Store RDI 0x48 R8,
      Store RDI 0x50 RSI, Store RDI 0x60 RDX, Store RDI 0x68 RCX, Store RDI 0x70 RAX,
      Load RAX RSP 0, Store RDI 0x78 RAX, Lea RAX RSP 8, Store RDI 0x90 RAX,
      Pushfq, Pop RAX, Store RDI 0x88 RAX, Store RDI 0x58 RDI]"

definition restore_context :: "instr list" where
  "restore_context =
     [Load R15 RSI 0x00, Load R14 RSI 0x08, Load R13 RSI 0x10, Load R12 RSI 0x18, Load RBX RSI 0x20,
      Load RBP RSI 0x28, Load R11 RSI 0x30, Load R10 RSI 0x38, Load R9 RSI 0x40, Load R8 RSI 0x48,
      Load RDI RSI 0x58, Load RDX RSI 0x60, Load RCX RSI 0x68, Load RAX RSI 0x70,
      Load RSP RSI 0x90, PushMem RSI 0x78, PushMem RSI 0x88, Popfq, Load RSI RSI 0x50, Ret]"

definition context_switch :: "instr list" where
  "context_switch = save_context @ restore_context"

section \<open>Interrupts\<close>

lemma stack_store:
  assumes "k < n" and "n < 2 ^ 60"
  shows "stack n (m\<lparr>mem := (mem m)(regs m RSP + 8 * of_nat k := v)\<rparr>) = (stack n m)[k := v]"
proof (rule nth_equalityI)
  fix i assume "i < length (stack n (m\<lparr>mem := (mem m)(regs m RSP + 8 * of_nat k := v)\<rparr>))"
  then have i: "i < n" by simp
  have "8 * (of_nat i :: u64) \<noteq> 8 * of_nat k" if "i \<noteq> k"
  proof -
    have "8 * (of_nat (max i k) - of_nat (min i k) :: u64) \<noteq> 0"
      using eight_times_neq [of "max i k - min i k"] that i assms by (simp add: of_nat_diff)
    then show ?thesis by (auto simp: max_def min_def algebra_simps split: if_splits)
  qed
  with i assms show "stack n (m\<lparr>mem := (mem m)(regs m RSP + 8 * of_nat k := v)\<rparr>) ! i = (stack n m)[k := v] ! i"
    by (auto simp: stack_nth nth_list_update)
qed simp

lemma stack_numeral: "stack 5 m = stack (Suc (Suc (Suc (Suc (Suc 0))))) m"
  "stack 6 m = stack (Suc (Suc (Suc (Suc (Suc (Suc 0)))))) m"
  by (simp_all add: eval_nat_numeral)

lemma deliver_frame:
  "stack 5 (deliver ist r None a m) = [rip m, cs m, rflags m, regs m RSP, ss m]"
  "stack 6 (deliver ist r (Some c) a m) = [c, rip m, cs m, rflags m, regs m RSP, ss m]"
  by (simp_all add: deliver_def Let_def stack_numeral stack_push)

lemma deliver_rest:
  "q \<noteq> RSP \<Longrightarrow> regs (deliver ist r c a m) q = regs m q" "gs_base (deliver ist r c a m) = gs_base m"
  "kernel_gs_base (deliver ist r c a m) = kernel_gs_base m" "star (deliver ist r c a m) = star m"
  "lstar (deliver ist r c a m) = lstar m" "fmask (deliver ist r c a m) = fmask m" "xmm (deliver ist r c a m) = xmm m"
  by (auto simp: deliver_def Let_def split: option.splits)

text \<open>Saving registers, calling a compiled function and restoring them leaves the stack and every
  register that was saved or that the convention keeps.\<close>

lemma call_between_pushes_and_pops:
  assumes h: "sysv h" and rs: "RSP \<notin> set rs" "distinct rs" "length rs + n \<le> 64"
    and m1: "m1 = run h (map Push rs) d"
    and m2: "stack (length rs + n) m2 = stack (length rs + n) m1" "system_regs m2 = system_regs d"
      "\<And>r. r \<notin> set rs \<Longrightarrow> r \<in> callee_saved \<Longrightarrow> regs m2 r = regs m1 r"
    and m3: "m3 = run h (map Pop (rev rs)) (h m2)" and all: "\<And>r. r \<in> set rs \<or> r \<in> callee_saved"
  shows "stack n m3 = stack n d" "r \<noteq> RSP \<Longrightarrow> regs m3 r = regs d r" "system_regs m3 = system_regs d"
    "xmm m3 = xmm (h m2)"
proof -
  have p: "pushed rs n d m1" using run_pushes [of rs n d h] rs m1 by simp
  have "stack (length (rev rs) + n) (h m2) = map (regs d) (rev rs) @ stack n d"
    using p m2(1) sysvD(2) [OF h, of "length rs + n" m2] rs(3) by (simp add: pushed_def rev_map)
  from run_pops [OF _ _ this] rs m3
  have q: "stack n m3 = stack n d" "popped (rev rs) (map (regs d) (rev rs)) (h m2) m3" by auto
  show "stack n m3 = stack n d" by (fact q)
  show "system_regs m3 = system_regs d" "xmm m3 = xmm (h m2)"
    using q(2) m2(2) by (simp_all add: popped_def sysvD(3-) [OF h])
  show "regs m3 r = regs d r" if r: "r \<noteq> RSP"
  proof (cases "r \<in> set rs")
    case True
    with q(2) r show ?thesis by (simp add: popped_def map_of_zip_map)
  next
    case False
    with all have c: "r \<in> callee_saved" by blast
    have "regs m3 r = regs (h m2) r" using q(2) r False by (simp add: popped_def map_of_zip_map)
    also have "\<dots> = regs d r" using sysvD(1) [OF h c] m2(3) [OF False c] p r by (simp add: pushed_def)
    finally show ?thesis .
  qed
qed

lemma saved_regs_all: "r \<in> set saved_regs \<or> r \<in> callee_saved"
  by (cases r) (simp_all add: saved_regs_def)

lemma saved_regs_wf: "RSP \<notin> set saved_regs" "distinct saved_regs" "length saved_regs = 9"
  by (simp_all add: saved_regs_def)

text \<open>What is left of the state when the frame of an interrupt is popped.\<close>

lemma iret_restores:
  assumes "stack 5 m3 = [rip m, cs m, rflags m, regs m RSP, ss m]" and "\<And>r. r \<noteq> RSP \<Longrightarrow> regs m3 r = f r"
    and "gs_base m3 = gs_base m" "kernel_gs_base m3 = kernel_gs_base m" "star m3 = star m" "lstar m3 = lstar m"
      "fmask m3 = fmask m" and "f RSP = regs m RSP"
  shows "iret m3 = m\<lparr>regs := f, mem := mem m3, xmm := xmm m3\<rparr>"
proof -
  have "(regs m3)(RSP := regs m RSP) = f" using assms by auto
  then show ?thesis using assms by (simp add: iret_stack)
qed

lemma exception_wrapper_transparent:
  assumes h: "sysv h" and d: "d = deliver ist r None a m" and mc: "mc = run h (map Push saved_regs) d"
  shows "run h exception_wrapper d = m\<lparr>mem := mem (run h exception_wrapper d), xmm := xmm (h mc)\<rparr>"
proof -
  let ?m3 = "run h (map Pop (rev saved_regs)) (h mc)"
  have len: "length saved_regs + 5 \<le> 64" by (simp add: saved_regs_wf)
  have "pushed saved_regs 5 d mc" unfolding mc by (rule run_pushes) (simp_all add: saved_regs_wf)
  then have sys: "system_regs mc = system_regs d" by (simp add: pushed_def)
  note m3 = call_between_pushes_and_pops [OF h saved_regs_wf(1,2) len mc refl sys refl refl saved_regs_all]
  have "run h exception_wrapper d = iret ?m3" by (simp add: exception_wrapper_def mc)
  also have "\<dots> = m\<lparr>regs := regs m, mem := mem ?m3, xmm := xmm ?m3\<rparr>"
    by (rule iret_restores) (use m3 in \<open>simp_all add: d deliver_frame deliver_rest\<close>)
  finally show ?thesis using m3(4) by (simp add: exception_wrapper_def)
qed

lemma stack_entry: "stack n m = vs \<Longrightarrow> i < n \<Longrightarrow> mem m (regs m RSP + 8 * of_nat i) = vs ! i"
  using stack_nth [of i n m] by simp

lemma error_wrapper_transparent:
  assumes h: "sysv h" and d: "d = deliver ist r (Some code) a m"
    and mc: "mc = run h (map Push saved_regs @ [Load RDI RSP 72, Lea RSI RSP 80]) d"
  shows "run h exception_with_error_wrapper d = m\<lparr>mem := mem (run h exception_with_error_wrapper d), xmm := xmm (h mc)\<rparr>"
    "regs mc RDI = code" "map (\<lambda>i. mem mc (regs mc RSI + 8 * of_nat i)) [0..<5] = [rip m, cs m, rflags m, regs m RSP, ss m]"
proof -
  let ?m1 = "run h (map Push saved_regs) d" and ?m3 = "run h (map Pop (rev saved_regs)) (h mc)"
  have len: "length saved_regs + 6 \<le> 64" by (simp add: saved_regs_wf)
  have p: "pushed saved_regs 6 d ?m1" by (rule run_pushes) (simp_all add: saved_regs_wf)
  have mc': "mc = set_reg RSI (regs ?m1 RSP + 80) (set_reg RDI (mem ?m1 (regs ?m1 RSP + 72)) ?m1)"
    by (simp add: mc)
  have sys: "system_regs mc = system_regs d" using p by (simp add: mc' pushed_def)
  have st: "stack (length saved_regs + 6) mc = stack (length saved_regs + 6) ?m1" by (simp add: mc')
  have cal: "regs mc r = regs ?m1 r" if "r \<in> callee_saved" for r using that by (auto simp: mc')
  note m3 = call_between_pushes_and_pops [OF h saved_regs_wf(1,2) len refl st sys cal refl saved_regs_all]
  have "stack 6 ?m3 = [code, rip m, cs m, rflags m, regs m RSP, ss m]" using m3(1) by (simp add: d deliver_frame)
  then have five: "stack 5 (drop_top ?m3) = [rip m, cs m, rflags m, regs m RSP, ss m]"
    using stack_Suc [of 5 ?m3] by simp
  have "run h exception_with_error_wrapper d = iret (drop_top ?m3)"
    by (simp add: exception_with_error_wrapper_def mc drop_top_def)
  also have "\<dots> = m\<lparr>regs := regs m, mem := mem (drop_top ?m3), xmm := xmm (drop_top ?m3)\<rparr>"
    by (rule iret_restores) (use m3 five in \<open>simp_all add: d deliver_rest\<close>)
  finally show "run h exception_with_error_wrapper d =
      m\<lparr>mem := mem (run h exception_with_error_wrapper d), xmm := xmm (h mc)\<rparr>"
    using m3(4) by (simp add: exception_with_error_wrapper_def)
  have s15: "stack 15 ?m1 = rev (map (regs d) saved_regs) @ [code, rip m, cs m, rflags m, regs m RSP, ss m]"
    using p by (simp add: pushed_def saved_regs_wf d deliver_frame)
  from stack_entry [OF s15, of 9] show "regs mc RDI = code" by (simp add: mc' saved_regs_def)
  have "mem mc (regs mc RSI + 8 * of_nat i) = [rip m, cs m, rflags m, regs m RSP, ss m] ! i" if "i < 5" for i
    using stack_entry [OF s15, of "10 + i"] that by (simp add: mc' nth_append saved_regs_wf algebra_simps)
  then show "map (\<lambda>i. mem mc (regs mc RSI + 8 * of_nat i)) [0..<5] = [rip m, cs m, rflags m, regs m RSP, ss m]"
    by (intro nth_equalityI) simp_all
qed

lemma all_regs_wf: "RSP \<notin> set all_regs" "distinct all_regs" "length all_regs = 15" "r \<in> set all_regs \<or> r \<in> callee_saved"
  by (simp_all add: all_regs_def) (cases r; simp)

text \<open>The arguments of a system call through \<^verbatim>\<open>int 0x80\<close>, and the state when it returns.\<close>

lemma syscall_wrapper_correct:
  assumes h: "sysv h" and d: "d = deliver ist r None a m"
    and mc: "mc = run h (map Push all_regs @ [Mov R10 RDX, Mov R11 RSI, Mov R12 RDI, Mov RDI RAX, Mov RSI RBX,
      Mov RDX RCX, Mov RCX R10, Mov R8 R11, Mov R9 R12]) d"
  shows "run h syscall_wrapper d = m\<lparr>regs := (regs m)(RAX := regs (h mc) RAX),
      mem := mem (run h syscall_wrapper d), xmm := xmm (h mc)\<rparr>"
    "map (regs mc) [RDI, RSI, RDX, RCX, R8, R9] = map (regs m) [RAX, RBX, RCX, RDX, RSI, RDI]"
proof -
  let ?m1 = "run h (map Push all_regs) d"
  let ?m2 = "(h mc)\<lparr>mem := (mem (h mc))(regs (h mc) RSP + 8 * of_nat 14 := regs (h mc) RAX)\<rparr>"
  let ?m3 = "run h (map Pop (rev all_regs)) ?m2"
  have p: "pushed all_regs 5 d ?m1" by (rule run_pushes) (simp_all add: all_regs_wf)
  then have r1: "regs ?m1 r = regs m r" if "r \<noteq> RSP" for r using that by (simp add: pushed_def d deliver_rest)
  show "map (regs mc) [RDI, RSI, RDX, RCX, R8, R9] = map (regs m) [RAX, RBX, RCX, RDX, RSI, RDI]"
    by (simp add: mc r1)
  have st: "stack 20 mc = stack 20 ?m1" by (simp add: mc)
  have "stack 20 ?m1 = map (regs d) (rev all_regs) @ stack 5 d" using p by (simp add: pushed_def all_regs_wf rev_map)
  with st sysvD(2) [OF h, of 20 mc] have "stack 20 (h mc) = map (regs d) (rev all_regs) @ stack 5 d" by simp
  then have "stack 20 ?m2 = map ((regs d)(RAX := regs (h mc) RAX)) (rev all_regs) @ stack 5 d"
    using stack_store [of 14 20 "h mc" "regs (h mc) RAX"] by (simp add: all_regs_def list_update_append)
  then have "stack (length (rev all_regs) + 5) ?m2 = map ((regs d)(RAX := regs (h mc) RAX)) (rev all_regs) @ stack 5 d"
    by (simp add: all_regs_wf)
  from run_pops [OF _ _ this, of h]
  have q: "stack 5 ?m3 = stack 5 d" "popped (rev all_regs) (map ((regs d)(RAX := regs (h mc) RAX)) (rev all_regs)) ?m2 ?m3"
    by (simp_all add: all_regs_wf)
  have regs3: "regs ?m3 r = ((regs m)(RAX := regs (h mc) RAX)) r" if "r \<noteq> RSP" for r
  proof -
    have "r \<in> set all_regs" using all_regs_wf(4) [of r] that by (auto simp: all_regs_def)
    with q(2) that show ?thesis by (simp add: popped_def map_of_zip_map d deliver_rest)
  qed
  have "run h syscall_wrapper d = iret ?m3" by (simp add: syscall_wrapper_def mc)
  also have "\<dots> = m\<lparr>regs := (regs m)(RAX := regs (h mc) RAX), mem := mem ?m3, xmm := xmm ?m3\<rparr>"
    by (rule iret_restores) (use q p regs3 in \<open>simp_all add: d deliver_frame deliver_rest popped_def pushed_def mc sysvD(3-) [OF h]\<close>)
  finally show "run h syscall_wrapper d = m\<lparr>regs := (regs m)(RAX := regs (h mc) RAX),
      mem := mem (run h syscall_wrapper d), xmm := xmm (h mc)\<rparr>"
    using q(2) by (simp add: syscall_wrapper_def mc popped_def)
qed

lemma ucast_parts:
  "ucast (ucast x :: u16) = (take_bit 16 x :: u64)" "ucast (ucast x :: u8) = (take_bit 8 x :: u64)"
  "ucast (ucast x :: u32) = (take_bit 32 x :: u64)"
  by (rule bit_word_eqI, simp add: bit_simps)+

lemma gate_address_set_handler: "gate_address (set_handler a i e) = a" "gate_address (set_user_handler a i e) = a"
proof -
  have "take_bit 16 a OR push_bit 16 (take_bit 16 (drop_bit 16 a)) OR push_bit 32 (take_bit 32 (drop_bit 32 a)) = a"
    (is "?x = a")
  proof (rule bit_word_eqI)
    fix n assume "n < LENGTH(64)"
    then show "bit ?x n = bit a n" by (cases "n < 16"; cases "n < 32") (auto simp: bit_simps)
  qed
  then show "gate_address (set_handler a i e) = a" "gate_address (set_user_handler a i e) = a"
    by (simp_all add: gate_address_def set_user_handler_def set_handler_def ucast_parts)
qed

definition plain_vectors :: "nat set" where
  "plain_vectors = {0..7} \<union> {16, 18, 19, 20, 32, 33, 44}"

lemma init_idt_cases:
  assumes "init_idt addr v = Some (w, e)"
  obtains "v \<in> plain_vectors" "w \<in> {Exception, Timer, Keyboard, Mouse}" "e = set_handler (addr v) 0 new_idt_entry"
  | "v \<in> {8, 10, 11, 12, 13, 14, 17}" "w = Exception_error" "e = set_handler (addr v) (if v = 8 then 1 else 0) new_idt_entry"
  | "v = 0x80" "w = Int80" "e = set_user_handler (addr v) 0 new_idt_entry"
  using assms unfolding init_idt_def plain_vectors_def by (auto split: if_splits)

lemma plain_vectors_no_error: "v \<in> plain_vectors \<Longrightarrow> v \<notin> error_vectors"
  by (auto simp: plain_vectors_def error_vectors_def)

lemma init_idt_props:
  assumes "init_idt addr v = Some (w, e)"
  shows "gate_address e = addr v" "w = Exception_error \<longleftrightarrow> v \<in> error_vectors" "w = Int80 \<longleftrightarrow> v = 0x80"
  using assms by (cases rule: init_idt_cases;
      auto simp: gate_address_set_handler plain_vectors_no_error error_vectors_def plain_vectors_def)+

text \<open>C35: An interrupt or exception is invisible to the code it interrupts. For every vector that the table
  installs, apart from the system call, the wrapper returns to the same instruction with the same general registers,
  stack pointer, selectors, flags and GS bases, whatever the handler does within the calling convention. Only memory
  and the vector registers can differ, and those are as the handler left them, since no wrapper saves them. The gates
  that are entered with an error code are those the processor pushes one for, and their handlers receive it with a
  pointer to the interrupted state.\<close>

theorem interrupt_transparent:
  assumes "init_idt addr v = Some (w, e)" and "v \<noteq> 0x80" and "sysv h"
  shows "gate_address e = addr v \<and> (\<exists>mc m'. interrupt addr t v code h m = Some m' \<and>
    m' = m\<lparr>mem := mem m', xmm := xmm (h mc)\<rparr> \<and>
    (v \<in> error_vectors \<longrightarrow> regs mc RDI = code \<and>
       map (\<lambda>i. mem mc (regs mc RSI + 8 * of_nat i)) [0..<5] = [rip m, cs m, rflags m, regs m RSP, ss m]))"
proof (intro conjI)
  let ?ist = "if ie_ist e = 1 then Some (ist1 t) else None"
  note c = init_idt_props [OF assms(1)]
  show "gate_address e = addr v" by (rule c)
  show "\<exists>mc m'. interrupt addr t v code h m = Some m' \<and> m' = m\<lparr>mem := mem m', xmm := xmm (h mc)\<rparr> \<and>
    (v \<in> error_vectors \<longrightarrow> regs mc RDI = code \<and>
       map (\<lambda>i. mem mc (regs mc RSI + 8 * of_nat i)) [0..<5] = [rip m, cs m, rflags m, regs m RSP, ss m])"
  proof (cases "w = Exception_error")
    case False
    with c assms(2) have v: "v \<notin> error_vectors" and "w \<noteq> Int80" by auto
    with False have "wrapper_code w = exception_wrapper"
      by (cases w) (simp_all add: exception_wrapper_def timer_interrupt_wrapper_def keyboard_interrupt_wrapper_def
          mouse_interrupt_wrapper_def)
    with v have "interrupt addr t v code h m =
        Some (run h exception_wrapper (deliver ?ist (rsp0 t) None (gate_address e) m))"
      by (simp add: interrupt_def assms(1))
    then show ?thesis using exception_wrapper_transparent [OF assms(3) refl refl] v by blast
  next
    case Exception_error: True
    with c have v: "v \<in> error_vectors" by simp
    let ?d = "deliver ?ist (rsp0 t) (Some code) (gate_address e) m"
    from v Exception_error have "interrupt addr t v code h m = Some (run h exception_with_error_wrapper ?d)"
      by (simp add: interrupt_def assms(1))
    then show ?thesis using error_wrapper_transparent [OF assms(3) refl refl] by blast
  qed
qed

text \<open>A handler for the witnesses: it returns 42, clobbers the argument registers and keeps the rest.\<close>

definition sample_handler :: "machine \<Rightarrow> machine" where
  "sample_handler m = m\<lparr>regs := (regs m)(RAX := 42, RCX := 7, R11 := 7, RDI := 7), xmm := (\<lambda>_. 1)\<rparr>"

lemma sample_handler_sysv: "sysv sample_handler"
  by (auto simp: sysv_def sample_handler_def stack_def)

definition sample_machine :: machine where
  "sample_machine = \<lparr>regs = (\<lambda>r. if r = RSP then 0x7000 else 5), xmm = (\<lambda>_. 0), mem = (\<lambda>_. 0), rip = 0x400000,
     cs = 0x23, ss = 0x1B, rflags = 0x202, gs_base = 0, kernel_gs_base = 0, star = 0, lstar = 0, fmask = 0\<rparr>"

theorem interrupt_transparent_witness:
  "\<exists>m'. interrupt (\<lambda>_. 0x1000) (tss_init 0x20000) 14 4 sample_handler sample_machine = Some m' \<and>
     rip m' = 0x400000 \<and> regs m' = regs sample_machine \<and> cs m' = 0x23 \<and> rflags m' = 0x202"
proof -
  have "init_idt (\<lambda>_. 0x1000) 14 = Some (Exception_error, set_handler 0x1000 0 new_idt_entry)" by (simp add: init_idt_def)
  from interrupt_transparent [OF this _ sample_handler_sysv, of "tss_init 0x20000" 4 sample_machine]
  obtain mc m' where m: "interrupt (\<lambda>_. 0x1000) (tss_init 0x20000) 14 4 sample_handler sample_machine = Some m'"
      "m' = sample_machine\<lparr>mem := mem m', xmm := xmm (sample_handler mc)\<rparr>" by auto
  then obtain f g where "m' = sample_machine\<lparr>mem := f, xmm := g\<rparr>" by blast
  with m(1) show ?thesis by (simp add: sample_machine_def)
qed

section \<open>System calls\<close>

text \<open>A system call through the gate 0x80: RAX and the arguments in RBX, RCX, RDX, RSI and RDI become the
  arguments of the handler in this order, and every register but RAX returns as it was.\<close>

lemma int80_correct:
  assumes "sysv h"
  shows "\<exists>mc m'. interrupt addr t 0x80 code h m = Some m' \<and>
    m' = m\<lparr>regs := (regs m)(RAX := regs (h mc) RAX), mem := mem m', xmm := xmm (h mc)\<rparr> \<and>
    map (regs mc) [RDI, RSI, RDX, RCX, R8, R9] = map (regs m) [RAX, RBX, RCX, RDX, RSI, RDI]"
proof -
  have "init_idt addr 0x80 = Some (Int80, set_user_handler (addr 0x80) 0 new_idt_entry)" by (simp add: init_idt_def)
  then have "interrupt addr t 0x80 code h m = Some (run h syscall_wrapper (deliver None (rsp0 t) None (addr 0x80) m))"
    by (simp add: interrupt_def error_vectors_def gate_address_set_handler)
      (simp add: set_user_handler_def set_handler_def)
  then show ?thesis using syscall_wrapper_correct [OF assms refl refl] by blast
qed

definition keeps_percpu :: "(machine \<Rightarrow> machine) \<Rightarrow> bool" where
  "keeps_percpu h \<longleftrightarrow> (\<forall>m. mem (h m) (gs_base m) = mem m (gs_base m))"

lemma syscall_args_wf: "RSP \<notin> set syscall_args" "length syscall_args = 15"
  by (simp_all add: syscall_args_def)

text \<open>The path of a system call up to the call: on the stack of the CPU, with the user's stack pointer saved.\<close>

definition syscall_call :: "(machine \<Rightarrow> machine) \<Rightarrow> machine \<Rightarrow> machine" where
  "syscall_call h m = run h ([Swapgs, StoreGs 0 RSP, LoadGs RSP 8] @ map Push syscall_args @
     [Load RDI RSP 112, Load RSI RSP 104, Load RDX RSP 96, Load RCX RSP 88, Load R8 RSP 80, Load R9 RSP 72]) m"

lemma syscall_entry_split:
  "run h syscall_entry m = run h [AddImm RSP 56, LoadGs RSP 0, Swapgs, Sysretq]
     (run h (map Pop [R15, R14, R13, R12, RBP, RBX, R11, RCX]) (h (syscall_call h m)))"
  by (simp only: syscall_entry_def syscall_call_def run_simps append.simps step.simps)

lemma syscall_call_state:
  assumes p: "kernel_gs_base m = p" "mem m (p + 8) = (p + 16) + 16384" and mc: "mc = syscall_call h m"
  shows "map (regs mc) [RDI, RSI, RDX, RCX, R8, R9] = map (regs m) [RAX, RDI, RSI, RDX, R10, R8]"
    "stack 15 mc = rev (map (regs m) syscall_args)" "regs mc RSP = p + 16 + 16384 - 120"
    "gs_base mc = p" "kernel_gs_base mc = gs_base m" "mem mc p = regs m RSP" "cs mc = cs m" "ss mc = ss m"
    "star mc = star m" "lstar mc = lstar m" "fmask mc = fmask m" "rflags mc = rflags m"
proof -
  let ?m0 = "set_reg RSP (p + 16 + 16384) (m\<lparr>gs_base := p, kernel_gs_base := gs_base m, mem := (mem m)(p := regs m RSP)\<rparr>)"
  let ?m1 = "run h (map Push syscall_args) ?m0"
  have push: "pushed syscall_args 0 ?m0 ?m1" by (rule run_pushes) (simp_all add: syscall_args_wf)
  have s15: "stack 15 ?m1 = rev (map (regs m) syscall_args)"
    using push by (simp add: pushed_def syscall_args_wf)
  have load: "mem ?m1 (regs ?m1 RSP + 8 * of_nat i) = rev (map (regs m) syscall_args) ! i" if "i < 15" for i
    using stack_entry [OF s15 that] .
  have mc': "mc = set_reg R9 (regs m R8) (set_reg R8 (regs m R10) (set_reg RCX (regs m RDX) (set_reg RDX (regs m RSI)
      (set_reg RSI (regs m RDI) (set_reg RDI (regs m RAX) ?m1)))))"
    using load [of 14] load [of 13] load [of 12] load [of 11] load [of 10] load [of 9] p
    by (simp add: mc syscall_call_def) (simp add: syscall_args_def set_reg_def)
  have "p \<noteq> p + 16 + 16384 - 8 * of_nat j" if "j \<le> 15" for j
    using eight_times_neq [of "2050 - j"] that by (simp add: of_nat_diff algebra_simps)
  then have "mem ?m1 p = mem ?m0 p" using push by (simp add: pushed_def syscall_args_wf)
  with push s15 show "map (regs mc) [RDI, RSI, RDX, RCX, R8, R9] = map (regs m) [RAX, RDI, RSI, RDX, R10, R8]"
    "stack 15 mc = rev (map (regs m) syscall_args)" "regs mc RSP = p + 16 + 16384 - 120"
    "gs_base mc = p" "kernel_gs_base mc = gs_base m" "mem mc p = regs m RSP" "cs mc = cs m" "ss mc = ss m"
    "star mc = star m" "lstar mc = lstar m" "fmask mc = fmask m" "rflags mc = rflags m"
    by (simp_all add: mc' pushed_def syscall_args_wf)
qed

text \<open>And from the call back to ring 3.\<close>

lemma syscall_return:
  assumes st: "stack 15 m = rev (map f syscall_args)" and m3: "m3 = run h (map Pop [R15, R14, R13, R12, RBP, RBX, R11, RCX]) m"
  shows "popped [R15, R14, R13, R12, RBP, RBX, R11, RCX] (map f [R15, R14, R13, R12, RBP, RBX, R11, RCX]) m m3"
proof -
  have "stack (length [R15, R14, R13, R12, RBP, RBX, R11, RCX] + 7) m =
      map f [R15, R14, R13, R12, RBP, RBX, R11, RCX] @ map f [R9, R8, R10, RDX, RSI, RDI, RAX]"
    using st by (simp add: syscall_args_def)
  from run_pops [OF _ _ this, of h] m3 show ?thesis by simp
qed

definition cpu_data :: "u64 \<Rightarrow> nat \<Rightarrow> u64" where
  "cpu_data base cpu = base + 16400 * of_nat (if SYSCALL_CPUS \<le> cpu then 0 else cpu)"

lemma array_slot_inj:
  assumes "a < 8" and "b < 8"
  shows "(16400 * of_nat a :: u64) = 16400 * of_nat b \<longleftrightarrow> a = b"
proof -
  have "unat (16400 * of_nat x :: u64) = 16400 * x" if "x < 8" for x
    using that by (subst unat_mult_lem [THEN iffD1]) (simp_all add: unat_of_nat)
  with assms show ?thesis by (metis mult_cancel1 zero_neq_numeral)
qed

lemma cpu_data_shared:
  "cpu_data data c = cpu_data data cpu \<longleftrightarrow> c = cpu \<or> {c, cpu} \<subseteq> insert 0 {8..}"
  using array_slot_inj [of c cpu] array_slot_inj [of 0 cpu] array_slot_inj [of c 0]
  by (auto simp: cpu_data_def SYSCALL_CPUS_def)

lemma init_for_cpu_fields:
  fixes m u data entry cpu
  defines "m \<equiv> init_for_cpu data entry cpu u"
  shows "kernel_gs_base m = cpu_data data cpu" "mem m (cpu_data data cpu + 8) = (cpu_data data cpu + 16) + 16384"
    "take_bit 16 (drop_bit 32 (star m)) = 8" "drop_bit 48 (star m) = 0x13" "fmask m = 0x200" "regs m = regs u"
    "cs m = cs u" "ss m = ss u" "rflags m = rflags u" "rip m = rip u" "gs_base m = gs_base u"
  by (simp_all add: m_def init_for_cpu_def Let_def cpu_data_def KERNEL_CODE_SELECTOR_def USER_CODE_SELECTOR_def)

text \<open>C36: A \<^verbatim>\<open>syscall\<close> from ring 3 on a configured CPU calls the handler with the system call number and five
  arguments, RAX, RDI, RSI, RDX, R10 and R8 (the sixth, R9, is saved and not passed on), in ring 0, with interrupts
  off, at the top of the stack of that CPU's entry of the per-CPU data. The entry is the CPU's own when its
  identifier is between 1 and 7; CPU 0 shares its entry with every CPU whose identifier is at least 8. When the handler returns, execution resumes in
  ring 3 after the \<^verbatim>\<open>syscall\<close> instruction with the user's stack, flags, selectors, GS bases and callee-saved
  registers, and the result in RAX. The other argument registers are not restored: they hold what the handler left in
  them.\<close>

theorem syscall_entry_correct:
  assumes h: "sysv h" "keeps_percpu h" and m: "m = init_for_cpu data entry cpu u"
    and user: "cs u = ucast USER_CODE_SELECTOR" "ss u = ucast USER_DATA_SELECTOR" "(rflags u AND 0x3C7FD7) OR 2 = rflags u"
  shows "\<exists>mc m'. m' = run h syscall_entry (syscall_instr m) \<and>
    map (regs mc) [RDI, RSI, RDX, RCX, R8, R9] = map (regs m) [RAX, RDI, RSI, RDX, R10, R8] \<and>
    cs mc = ucast KERNEL_CODE_SELECTOR \<and> rflags mc AND 0x200 = 0 \<and> regs mc RSP = cpu_data data cpu + 16400 - 120 \<and>
    (\<forall>c. cpu_data data c = cpu_data data cpu \<longleftrightarrow> c = cpu \<or> {c, cpu} \<subseteq> insert 0 {8..}) \<and>
    regs m' = (regs m)(RAX := regs (h mc) RAX, RCX := rip m, R11 := rflags m, RDI := regs (h mc) RDI,
      RSI := regs (h mc) RSI, RDX := regs (h mc) RDX, R8 := regs (h mc) R8, R9 := regs (h mc) R9, R10 := regs (h mc) R10) \<and>
    (rip m', cs m', ss m', rflags m', gs_base m', kernel_gs_base m') =
      (rip m, cs m, ss m, rflags m, gs_base m, kernel_gs_base m)"
proof -
  let ?s = "syscall_instr m" and ?rs = "[R15, R14, R13, R12, RBP, RBX, R11, RCX]"
  define mc where "mc = syscall_call h ?s"
  note i = init_for_cpu_fields [of data entry cpu u, folded m]
  have gs: "kernel_gs_base ?s = cpu_data data cpu" "mem ?s (cpu_data data cpu + 8) = (cpu_data data cpu + 16) + 16384"
    using i by (simp_all add: syscall_instr_def)
  note c = syscall_call_state [OF gs mc_def]
  define m3 where "m3 = run h (map Pop ?rs) (h mc)"
  have st: "stack 15 (h mc) = rev (map (regs ?s) syscall_args)" using c(2) sysvD(2) [OF h(1), of 15 mc] by simp
  note p = syscall_return [OF st m3_def]
  have "mem (h mc) (cpu_data data cpu) = regs ?s RSP" using h(2) c(4,6) unfolding keeps_percpu_def by metis
  with p have usp: "mem m3 (cpu_data data cpu) = regs m RSP" by (simp add: popped_def syscall_instr_def)
  define m' where "m' = run h syscall_entry ?s"
  have m'_eq: "m' = sysret ((set_reg RSP (mem m3 (gs_base m3)) m3)\<lparr>gs_base := kernel_gs_base m3, kernel_gs_base := gs_base m3\<rparr>)"
    by (simp add: m'_def syscall_entry_split m3_def mc_def set_reg_def del: list.map)
  have "gs_base m3 = gs_base (h mc)" "kernel_gs_base m3 = kernel_gs_base (h mc)" "star m3 = star (h mc)"
    and m3: "regs m3 RCX = rip m" "regs m3 R11 = rflags m"
    using p by (simp_all add: popped_def syscall_instr_def)
  then have sys3: "gs_base m3 = cpu_data data cpu" "kernel_gs_base m3 = gs_base m" "star m3 = star m"
    using c(4,5,9) by (simp_all add: sysvD(5-7) [OF h(1)] syscall_instr_def)
  have m': "rip m' = rip m" "rflags m' = rflags m" "gs_base m' = gs_base m"
      "kernel_gs_base m' = kernel_gs_base m" "cs m' = cs m" "ss m' = ss m"
      "regs m' r = (if r = RSP then regs m RSP else regs m3 r)" for r
    using usp i(1,4,7-9) user m3 sys3
    by (simp_all add: m'_eq sysret_def USER_CODE_SELECTOR_def USER_DATA_SELECTOR_def)
  have "regs m' r = ((regs m)(RAX := regs (h mc) RAX, RCX := rip m, R11 := rflags m, RDI := regs (h mc) RDI,
      RSI := regs (h mc) RSI, RDX := regs (h mc) RDX, R8 := regs (h mc) R8, R9 := regs (h mc) R9, R10 := regs (h mc) R10)) r" for r
    using p m'(7) [of r] by (cases r) (simp_all add: popped_def syscall_instr_def)
  moreover have "cs mc = ucast KERNEL_CODE_SELECTOR" "rflags mc AND 0x200 = 0"
    using c i by (simp_all add: syscall_instr_def KERNEL_CODE_SELECTOR_def and.assoc)
  ultimately show ?thesis
    using m' c(1,3) cpu_data_shared [of data _ cpu]
    by (intro exI [of _ mc] exI [of _ m']) (auto simp: m'_def syscall_instr_def)
qed

theorem syscall_entry_correct_witness:
  "regs (run sample_handler syscall_entry (syscall_instr (init_for_cpu 0x100000 0 1 sample_machine))) RAX = 42 \<and>
   regs (run sample_handler syscall_entry (syscall_instr (init_for_cpu 0x100000 0 1 sample_machine))) RDI = 7 \<and>
   regs (run sample_handler syscall_entry (syscall_instr (init_for_cpu 0x100000 0 1 sample_machine))) RBX = 5"
proof -
  have "keeps_percpu sample_handler" by (simp add: keeps_percpu_def sample_handler_def)
  from syscall_entry_correct [OF sample_handler_sysv this refl, where u = sample_machine and data = "0x100000" and entry = 0 and cpu = 1]
  obtain mc where "regs (run sample_handler syscall_entry (syscall_instr (init_for_cpu 0x100000 0 1 sample_machine))) =
      (regs (init_for_cpu 0x100000 0 1 sample_machine))(RAX := regs (sample_handler mc) RAX,
        RCX := rip (init_for_cpu 0x100000 0 1 sample_machine), R11 := rflags (init_for_cpu 0x100000 0 1 sample_machine),
        RDI := regs (sample_handler mc) RDI, RSI := regs (sample_handler mc) RSI, RDX := regs (sample_handler mc) RDX,
        R8 := regs (sample_handler mc) R8, R9 := regs (sample_handler mc) R9, R10 := regs (sample_handler mc) R10)"
    by (auto simp: sample_machine_def USER_CODE_SELECTOR_def USER_DATA_SELECTOR_def)
  then show ?thesis by (simp add: sample_handler_def init_for_cpu_def Let_def sample_machine_def)
qed

section \<open>Switching between processes\<close>

text \<open>The twenty cells of a saved context, and the two cells of the stack that a switch uses.\<close>

definition area :: "u64 \<Rightarrow> u64 set" where
  "area a = {a, a + 0x08, a + 0x10, a + 0x18, a + 0x20, a + 0x28, a + 0x30, a + 0x38, a + 0x40, a + 0x48,
     a + 0x50, a + 0x58, a + 0x60, a + 0x68, a + 0x70, a + 0x78, a + 0x80, a + 0x88, a + 0x90, a + 0x98}"

definition apart :: "u64 \<Rightarrow> machine \<Rightarrow> bool" where
  "apart a m \<longleftrightarrow> regs m RSP \<notin> area a \<and> regs m RSP - 8 \<notin> area a"

lemma run_stores:
  "run h (map (\<lambda>(k, r). Store RDI k r) ks) m = m\<lparr>mem := fold (\<lambda>(k, r) f. f(regs m RDI + k := regs m r)) ks (mem m)\<rparr>"
  by (induction ks arbitrary: m) auto

lemma run_loads:
  "RSI \<notin> snd ` set ks \<Longrightarrow> run h (map (\<lambda>(k, r). Load r RSI k) ks) m =
     m\<lparr>regs := fold (\<lambda>(k, r) f. f(r := mem m (regs m RSI + k))) ks (regs m)\<rparr>"
  by (induction ks arbitrary: m) (auto simp: set_reg_def)

definition saved_slots :: "(u64 \<times> reg) list" where
  "saved_slots = [(0x00, R15), (0x08, R14), (0x10, R13), (0x18, R12), (0x20, RBX), (0x28, RBP), (0x30, R11),
     (0x38, R10), (0x40, R9), (0x48, R8), (0x50, RSI), (0x60, RDX), (0x68, RCX), (0x70, RAX)]"

lemma save_context_split:
  "save_context = map (\<lambda>(k, r). Store RDI k r) saved_slots @
     [Load RAX RSP 0, Store RDI 0x78 RAX, Lea RAX RSP 8, Store RDI 0x90 RAX, Pushfq, Pop RAX, Store RDI 0x88 RAX,
      Store RDI 0x58 RDI]"
  by (simp add: save_context_def saved_slots_def)

lemma save_context_tail:
  fixes h m
  defines "m1 \<equiv> run h [Load RAX RSP 0, Store RDI 0x78 RAX, Lea RAX RSP 8, Store RDI 0x90 RAX, Pushfq, Pop RAX,
      Store RDI 0x88 RAX, Store RDI 0x58 RDI] m"
  shows "mem m1 = (mem m)(regs m RDI + 0x78 := mem m (regs m RSP), regs m RDI + 0x90 := regs m RSP + 8,
      regs m RSP - 8 := rflags m, regs m RDI + 0x88 := rflags m, regs m RDI + 0x58 := regs m RDI)"
    "regs m1 RSI = regs m RSI" "system_regs m1 = system_regs m"
  by (simp_all add: m1_def push_def drop_top_def set_reg_def stack_top_def Let_def)

lemma save_context_state:
  fixes h m
  defines "m1 \<equiv> run h save_context m" and "a \<equiv> regs m RDI"
  assumes "apart a m"
  shows "map (\<lambda>k. mem m1 (a + k)) [0x00, 0x08, 0x10, 0x18, 0x20, 0x28, 0x30, 0x38, 0x40, 0x48, 0x50, 0x58, 0x60, 0x68, 0x70] =
      map (regs m) [R15, R14, R13, R12, RBX, RBP, R11, R10, R9, R8, RSI, RDI, RDX, RCX, RAX]"
    "mem m1 (a + 0x78) = mem m (regs m RSP)" "mem m1 (a + 0x88) = rflags m" "mem m1 (a + 0x90) = regs m RSP + 8"
    "x \<notin> area a \<Longrightarrow> x \<noteq> regs m RSP - 8 \<Longrightarrow> mem m1 x = mem m x"
    "regs m1 RSI = regs m RSI" "system_regs m1 = system_regs m"
proof -
  define g where "g = fold (\<lambda>(k, r) f. f(a + k := regs m r)) saved_slots (mem m)"
  let ?m0 = "m\<lparr>mem := g\<rparr>"
  have m1: "m1 = run h [Load RAX RSP 0, Store RDI 0x78 RAX, Lea RAX RSP 8, Store RDI 0x90 RAX, Pushfq, Pop RAX,
      Store RDI 0x88 RAX, Store RDI 0x58 RDI] ?m0"
    by (simp only: m1_def save_context_split run_simps(3) run_stores g_def a_def)
  note t = save_context_tail [of h ?m0, folded m1, simplified, folded a_def]
  show "regs m1 RSI = regs m RSI" "system_regs m1 = system_regs m" using t(2-) by simp_all
  have out: "g x = mem m x" if "x \<notin> area a" for x
    using that by (simp add: g_def saved_slots_def area_def)
  have sp: "regs m RSP - 8 \<notin> area a" "g (regs m RSP) = mem m (regs m RSP)"
    using assms(3) out by (simp_all add: apart_def)
  show "mem m1 x = mem m x" if "x \<notin> area a" "x \<noteq> regs m RSP - 8"
    using that out [OF that(1)] by (simp add: t(1) area_def)
  have ne: "a + k \<noteq> regs m RSP - 8" if "a + k \<in> area a" for k using sp(1) that by auto
  show "mem m1 (a + 0x78) = mem m (regs m RSP)" "mem m1 (a + 0x88) = rflags m" "mem m1 (a + 0x90) = regs m RSP + 8"
    using ne [of "0x78"] ne [of "0x90"] sp(2) by (simp_all add: t(1) area_def)
  have slots: "map (\<lambda>k. g (a + k)) [0x00, 0x08, 0x10, 0x18, 0x20, 0x28, 0x30, 0x38, 0x40, 0x48, 0x50, 0x60, 0x68, 0x70] =
      map (regs m) [R15, R14, R13, R12, RBX, RBP, R11, R10, R9, R8, RSI, RDX, RCX, RAX]"
    by (simp add: g_def saved_slots_def)
  have keep: "mem m1 (a + k) = g (a + k)" if "k \<in> {0x00, 0x08, 0x10, 0x18, 0x20, 0x28, 0x30, 0x38, 0x40, 0x48, 0x50, 0x60, 0x68, 0x70}" for k
    using that ne [of k] by (auto simp: t(1) area_def)
  have "mem m1 (a + 0x58) = regs m RDI" by (simp add: t(1) a_def)
  with slots show "map (\<lambda>k. mem m1 (a + k)) [0x00, 0x08, 0x10, 0x18, 0x20, 0x28, 0x30, 0x38, 0x40, 0x48, 0x50, 0x58, 0x60, 0x68, 0x70] =
      map (regs m) [R15, R14, R13, R12, RBX, RBP, R11, R10, R9, R8, RSI, RDI, RDX, RCX, RAX]"
    by (simp add: keep keep [of 0, simplified])
qed

definition restored_slots :: "(u64 \<times> reg) list" where
  "restored_slots = [(0x00, R15), (0x08, R14), (0x10, R13), (0x18, R12), (0x20, RBX), (0x28, RBP), (0x30, R11),
     (0x38, R10), (0x40, R9), (0x48, R8), (0x58, RDI), (0x60, RDX), (0x68, RCX), (0x70, RAX), (0x90, RSP)]"

lemma restore_context_split:
  "restore_context = map (\<lambda>(k, r). Load r RSI k) restored_slots @ [PushMem RSI 0x78, PushMem RSI 0x88, Popfq, Load RSI RSI 0x50, Ret]"
  by (simp add: restore_context_def restored_slots_def)

lemma restore_context_tail:
  fixes h m
  defines "m1 \<equiv> run h [PushMem RSI 0x78, PushMem RSI 0x88, Popfq, Load RSI RSI 0x50, Ret] m" and "b \<equiv> regs m RSI"
  assumes "regs m RSP - 8 \<notin> area b" and "regs m RSP - 16 \<notin> area b"
  shows "regs m1 = (regs m)(RSI := mem m (b + 0x50))" "rip m1 = mem m (b + 0x78)" "rflags m1 = mem m (b + 0x88)"
    "system_regs m1 = system_regs m"
proof -
  have ne: "b + 0x88 \<noteq> regs m RSP - 8" "b + 0x50 \<noteq> regs m RSP - 8" "b + 0x50 \<noteq> regs m RSP - 16"
    using assms(3,4) by (auto simp: area_def)
  then show "regs m1 = (regs m)(RSI := mem m (b + 0x50))"
    by (auto simp: m1_def push_def drop_top_def set_reg_def stack_top_def Let_def b_def [symmetric])
  show "rip m1 = mem m (b + 0x78)" "rflags m1 = mem m (b + 0x88)" "system_regs m1 = system_regs m"
    using ne by (simp_all add: m1_def push_def drop_top_def set_reg_def stack_top_def Let_def b_def [symmetric])
qed

lemma restore_context_state:
  fixes h m
  defines "m1 \<equiv> run h restore_context m" and "b \<equiv> regs m RSI"
  assumes "mem m (b + 0x90) - 8 \<notin> area b" and "mem m (b + 0x90) - 16 \<notin> area b"
  shows "map (regs m1) [R15, R14, R13, R12, RBX, RBP, R11, R10, R9, R8, RSI, RDI, RDX, RCX, RAX] =
      map (\<lambda>k. mem m (b + k)) [0x00, 0x08, 0x10, 0x18, 0x20, 0x28, 0x30, 0x38, 0x40, 0x48, 0x50, 0x58, 0x60, 0x68, 0x70]"
    "regs m1 RSP = mem m (b + 0x90)" "rip m1 = mem m (b + 0x78)" "rflags m1 = mem m (b + 0x88)"
    "system_regs m1 = system_regs m"
proof -
  define f where "f = fold (\<lambda>(k, r) f. f(r := mem m (b + k))) restored_slots (regs m)"
  let ?m0 = "m\<lparr>regs := f\<rparr>"
  have f: "map f [R15, R14, R13, R12, RBX, RBP, R11, R10, R9, R8, RDI, RDX, RCX, RAX] =
      map (\<lambda>k. mem m (b + k)) [0x00, 0x08, 0x10, 0x18, 0x20, 0x28, 0x30, 0x38, 0x40, 0x48, 0x58, 0x60, 0x68, 0x70]"
    "f RSP = mem m (b + 0x90)" "f RSI = b"
    by (simp_all add: f_def restored_slots_def b_def)
  have "RSI \<notin> snd ` set restored_slots" by (simp add: restored_slots_def)
  from run_loads [OF this, of h m]
  have m1: "m1 = run h [PushMem RSI 0x78, PushMem RSI 0x88, Popfq, Load RSI RSI 0x50, Ret] ?m0"
    by (simp only: m1_def restore_context_split run_simps(3) f_def b_def)
  have "regs ?m0 RSP - 8 \<notin> area (regs ?m0 RSI)" "regs ?m0 RSP - 16 \<notin> area (regs ?m0 RSI)"
    using assms(3,4) f by simp_all
  note t = restore_context_tail [OF this, of h, folded m1, simplified]
  show "rip m1 = mem m (b + 0x78)" "rflags m1 = mem m (b + 0x88)" "system_regs m1 = system_regs m"
    "regs m1 RSP = mem m (b + 0x90)"
    using t f(2,3) by simp_all
  show "map (regs m1) [R15, R14, R13, R12, RBX, RBP, R11, R10, R9, R8, RSI, RDI, RDX, RCX, RAX] =
      map (\<lambda>k. mem m (b + k)) [0x00, 0x08, 0x10, 0x18, 0x20, 0x28, 0x30, 0x38, 0x40, 0x48, 0x50, 0x58, 0x60, 0x68, 0x70]"
    using t(1) f by simp
qed

text \<open>C37: A process that was switched away from resumes as if its call of \<^verbatim>\<open>context_switch\<close> had returned. When a
  later switch on any CPU restores a context that has not been touched since it was saved, all sixteen general
  registers, the return address, the stack pointer and the flags are those of the call, provided the contexts and the
  stacks in use do not overlap. The selectors are not switched: CS and SS stay those of the code that switches, so a
  context made for ring 3 resumes in ring 0.\<close>

theorem context_switch_resumes:
  assumes a: "regs m RDI = a" "apart a m" and saved: "\<forall>x\<in>area a. mem m2 x = mem (run h save_context m) x"
    and sw: "regs m2 RSI = a" "regs m2 RDI = c" "area a \<inter> area c = {}" "apart a m2" "apart c m2"
    and m3_def: "m3 = run h' context_switch m2"
  shows "regs m3 = (regs m)(RSP := regs m RSP + 8) \<and> rip m3 = mem m (regs m RSP) \<and> rflags m3 = rflags m \<and>
    cs m3 = cs m2 \<and> ss m3 = ss m2"
proof -
  define s where "s = run h' save_context m2"
  note sv = save_context_state [where m = m2 and h = h', folded s_def, unfolded sw(1,2), OF sw(5)]
  note sm = save_context_state [where m = m and h = h, unfolded a(1), OF a(2)]
  have keep: "mem s x = mem (run h save_context m) x" if "x \<in> area a" for x
  proof -
    have "x \<notin> area c" using that sw(3) by blast
    moreover have "x \<noteq> regs m2 RSP - 8" using that sw(4) by (auto simp: apart_def)
    ultimately show ?thesis using sv(5) saved that by simp
  qed
  have k: "mem s (a + k) = mem (run h save_context m) (a + k)"
    if "k \<in> {0x00, 0x08, 0x10, 0x18, 0x20, 0x28, 0x30, 0x38, 0x40, 0x48, 0x50, 0x58, 0x60, 0x68, 0x70, 0x78, 0x88, 0x90}" for k
    by (rule keep) (use that in \<open>auto simp: area_def\<close>)
  have sp: "mem s (regs s RSI + 0x90) - 8 \<notin> area (regs s RSI)" "mem s (regs s RSI + 0x90) - 16 \<notin> area (regs s RSI)"
    using k [of "0x90"] sm(4) sv(6) a(2) by (simp_all add: apart_def)
  note r = restore_context_state [OF sp, where h = h', unfolded sv(6)]
  have m3: "m3 = run h' restore_context s" by (simp only: m3_def s_def context_switch_def run_simps(3))
  have "map (regs m3) [R15, R14, R13, R12, RBX, RBP, R11, R10, R9, R8, RSI, RDI, RDX, RCX, RAX] =
      map (regs m) [R15, R14, R13, R12, RBX, RBP, R11, R10, R9, R8, RSI, RDI, RDX, RCX, RAX]"
    using r(1) sm(1) k k [of 0, simplified] by (simp add: m3)
  moreover have "regs m3 RSP = regs m RSP + 8" using r(2) sm(4) k by (simp add: m3)
  ultimately have "regs m3 q = ((regs m)(RSP := regs m RSP + 8)) q" for q by (cases q) simp_all
  moreover have "rip m3 = mem m (regs m RSP)" "rflags m3 = rflags m" using r(3,4) sm(2,3) k by (simp_all add: m3)
  ultimately show ?thesis using r(5) sv(7) by (auto simp: m3)
qed

definition sample_caller :: machine where
  "sample_caller = sample_machine\<lparr>regs := (regs sample_machine)(RDI := 0x1000)\<rparr>"

definition sample_switcher :: machine where
  "sample_switcher = sample_machine\<lparr>regs := (regs sample_machine)(RSI := 0x1000, RDI := 0x2000, RSP := 0x8000, RBX := 9),
     mem := mem (run id save_context sample_caller), cs := 8, ss := 0x10\<rparr>"

theorem context_switch_resumes_witness:
  "regs (run id context_switch sample_switcher) = (regs sample_caller)(RSP := 0x7008) \<and>
   cs (run id context_switch sample_switcher) = 8"
  using context_switch_resumes [of sample_caller "0x1000" sample_switcher id "0x2000" _ id, OF _ _ _ _ _ _ _ _ refl]
  by (simp add: sample_switcher_def sample_caller_def sample_machine_def apart_def area_def)

section \<open>Stack alignment\<close>

text \<open>The calling convention wants the stack pointer to be a multiple of 16 at a call. The wrapper of exceptions
  without an error code and the gate 0x80 keep that; the wrapper with an error code is always off by eight, and the
  \<^verbatim>\<open>syscall\<close> entry is off by eight when the per-CPU data is aligned to 16.\<close>

lemma and_15: "x AND 0xF = take_bit 4 (x :: u64)"
  by (simp add: take_bit_eq_mask mask_eq_exp_minus_1)

lemma take_bit_4_word: "take_bit 4 (x - y :: u64) = take_bit 4 (take_bit 4 x - take_bit 4 y)"
  by transfer (simp add: take_bit_diff)

lemma take_bit_4_diff: "take_bit 4 ((x AND NOT 0xF) - k) = take_bit 4 (- k :: u64)"
proof -
  have z: "take_bit 4 (x AND NOT 0xF) = 0" by (simp only: and_15 [symmetric] and.assoc) simp
  have "take_bit 4 ((x AND NOT 0xF) - k) = take_bit 4 (take_bit 4 (x AND NOT 0xF) - take_bit 4 k)"
    by (rule take_bit_4_word)
  also have "\<dots> = take_bit 4 (- k)" using take_bit_4_word [of 0 k] by (simp add: z)
  finally show ?thesis .
qed

lemma deliver_rsp:
  "\<exists>sp. regs (deliver ist r None a m) RSP = (sp AND NOT 0xF) - 40 \<and> regs (deliver ist r (Some c) a m) RSP = (sp AND NOT 0xF) - 48"
  by (simp add: deliver_def Let_def algebra_simps) blast

lemma wrapper_alignment:
  "regs (run h (map Push saved_regs) (deliver ist r None a m)) RSP AND 0xF = 0"
  "regs (run h (map Push saved_regs @ [Load RDI RSP 72, Lea RSI RSP 80]) (deliver ist r (Some c) a m)) RSP AND 0xF = 8"
  "regs (run h (map Push all_regs) (deliver ist r None a m)) RSP AND 0xF = 0"
proof -
  obtain sp where sp: "regs (deliver ist r None a m) RSP = (sp AND NOT 0xF) - 40" 
    "regs (deliver ist r (Some c) a m) RSP = (sp AND NOT 0xF) - 48" using deliver_rsp by blast
  have push: "regs (run h (map Push rs) d) RSP = regs d RSP - 8 * of_nat (length rs)" if "RSP \<notin> set rs" "length rs \<le> 15" for rs d
    using run_pushes [of rs 0 d h] that by (simp add: pushed_def)
  show "regs (run h (map Push saved_regs) (deliver ist r None a m)) RSP AND 0xF = 0"
    "regs (run h (map Push saved_regs @ [Load RDI RSP 72, Lea RSI RSP 80]) (deliver ist r (Some c) a m)) RSP AND 0xF = 8"
    "regs (run h (map Push all_regs) (deliver ist r None a m)) RSP AND 0xF = 0"
    using take_bit_4_diff [of sp 112] take_bit_4_diff [of sp 120] take_bit_4_diff [of sp 160]
    by (simp_all add: and_15 push saved_regs_wf all_regs_wf sp algebra_simps)
qed

section \<open>Segments\<close>

lemma gdt_words:
  "gdt_word (gdt_segment 0x9A 0xAF) = 0x00AF9A000000FFFF" "gdt_word (gdt_segment 0x92 0xCF) = 0x00CF92000000FFFF"
  "gdt_word (gdt_segment 0xFA 0xAF) = 0x00AFFA000000FFFF" "gdt_word (gdt_segment 0xF2 0xCF) = 0x00CFF2000000FFFF"
  by (simp_all add: gdt_word_def gdt_segment_def)

text \<open>The user selectors name the user segments in the table of \<^verbatim>\<open>gdt.rs\<close>; in the table of \<^verbatim>\<open>idt.rs\<close> the two are
  exchanged, so that the code selector names the data segment.\<close>

lemma user_segments:
  "gdt t ! unat (drop_bit 3 USER_CODE_SELECTOR) = 0x00AFFA000000FFFF"
  "gdt t ! unat (drop_bit 3 USER_DATA_SELECTOR) = 0x00CFF2000000FFFF"
  "kernel_gdt t ! unat (drop_bit 3 USER_CODE_SELECTOR) = 0x00CFF2000000FFFF"
  "kernel_gdt t ! unat (drop_bit 3 USER_DATA_SELECTOR) = 0x00AFFA000000FFFF"
  by (simp_all add: gdt_def kernel_gdt_def gdt_words USER_CODE_SELECTOR_def USER_DATA_SELECTOR_def)

text \<open>Entering user mode: the frame that \<^verbatim>\<open>iretq\<close> pops puts the processor in ring 3 at the entry point, on the user
  stack, with interrupts enabled; the remaining registers keep the values of the kernel.\<close>

lemma enter_usermode_state:
  "run h (enter_usermode entry sp) m = m\<lparr>rip := entry, cs := ucast USER_CODE_SELECTOR, rflags := 0x202,
     ss := ucast USER_DATA_SELECTOR, regs := (regs m)(R10 := entry, R11 := sp, R12 := ucast USER_CODE_SELECTOR,
       R13 := ucast USER_DATA_SELECTOR, R14 := 0x202, RSP := sp),
     mem := mem (run h (enter_usermode entry sp) m)\<rparr>"
proof -
  let ?m0 = "run h [Cli, MovImm R10 entry, MovImm R11 sp, MovImm R12 (ucast USER_CODE_SELECTOR),
      MovImm R13 (ucast USER_DATA_SELECTOR), MovImm R14 0x202] m"
  let ?m1 = "run h (map Push [R13, R11, R14, R12, R10]) ?m0"
  have p: "pushed [R13, R11, R14, R12, R10] 0 ?m0 ?m1" by (rule run_pushes) simp_all
  have five: "stack 5 ?m1 = [entry, ucast USER_CODE_SELECTOR, 0x202, sp, ucast USER_DATA_SELECTOR]"
    by (simp add: stack_numeral stack_push)
  have run: "run h (enter_usermode entry sp) m = iret ?m1"
    by (simp only: enter_usermode_def run_simps step.simps)
  have "(regs ?m1)(RSP := sp) = (regs m)(R10 := entry, R11 := sp, R12 := ucast USER_CODE_SELECTOR,
       R13 := ucast USER_DATA_SELECTOR, R14 := 0x202, RSP := sp)"
    using p by (auto simp: pushed_def)
  moreover have "same_rest ?m0 ?m1" using p by (simp add: pushed_def)
  ultimately show ?thesis unfolding run iret_stack [OF five] by simp
qed

end
