(* ===== verification/Input.thy ===== *)
theory Input
  imports Interleaving "HOL-Library.Signed_Division"
begin

text \<open>
  The keyboard of \<^verbatim>\<open>interrupts/handlers.rs\<close>, as the interrupt handler that decodes scan codes into a
  ring of bytes and the reader \<^verbatim>\<open>getchar\<close>, and the mouse of \<^verbatim>\<open>drivers/mouse.rs\<close>. The byte that a
  handler reads from port 0x60 is its argument. The handler and the reader are modelled twice: as
  whole operations, and as the sequence of their accesses to the shared positions, since the reader
  may run on another processor.
\<close>

section \<open>Keyboard\<close>

definition KB_BUFFER_SIZE :: nat where
  "KB_BUFFER_SIZE = 256"

record keyboard =
  kb_buffer :: "u8 list"
  kb_write_pos :: nat
  kb_read_pos :: nat
  escape_sequence :: u8
  shift_pressed :: bool
  ctrl_pressed :: bool
  alt_pressed :: bool

definition new_keyboard :: keyboard where
  "new_keyboard = \<lparr>kb_buffer = replicate KB_BUFFER_SIZE 0, kb_write_pos = 0, kb_read_pos = 0, escape_sequence = 0,
     shift_pressed = False, ctrl_pressed = False, alt_pressed = False\<rparr>"

abbreviation bytes :: "string \<Rightarrow> u8 list" where
  "bytes s \<equiv> map of_char s"

definition SCANCODE_TO_ASCII :: "u8 list" where
  "SCANCODE_TO_ASCII = [0, 27] @ bytes ''1234567890-='' @ [8, 9] @ bytes ''qwertyuiop[]'' @ [10, 0] @
     bytes ''asdfghjkl;'' @ [39, 96, 0, 92] @ bytes ''zxcvbnm,./'' @ [0, 42, 0, 32, 0] @ replicate 12 0 @
     bytes ''789-456+1230.'' @ replicate 5 0 @ replicate 39 0"

definition SCANCODE_TO_ASCII_SHIFT :: "u8 list" where
  "SCANCODE_TO_ASCII_SHIFT = [0, 27] @ bytes ''!@#$%^&*()_+'' @ [8, 9] @ bytes ''QWERTYUIOP{}'' @ [10, 0] @
     bytes ''ASDFGHJKL:'' @ [34, 126, 0, 124] @ bytes ''ZXCVBNM<>?'' @ [0, 42, 0, 32, 0] @ replicate 12 0 @
     bytes ''789-456+1230.'' @ replicate 5 0 @ replicate 39 0"

definition push_to_buffer :: "u8 \<Rightarrow> keyboard \<Rightarrow> keyboard" where
  "push_to_buffer byte k =
     (let write = kb_write_pos k; nxt = (write + 1) mod KB_BUFFER_SIZE
      in if nxt \<noteq> kb_read_pos k then k\<lparr>kb_buffer := (kb_buffer k)[write := byte], kb_write_pos := nxt\<rparr> else k)"

definition special_key :: "u8 \<Rightarrow> u8 option" where
  "special_key scancode = map_of [(0x48, 0x80), (0x50, 0x81), (0x4B, 0x82), (0x4D, 0x83), (0x47, 0x84), (0x4F, 0x85),
     (0x53, 0x86)] scancode"

definition ctrl_key :: "u8 \<Rightarrow> u8 option" where
  "ctrl_key scancode = map_of [(0x1E, 1), (0x2E, 3), (0x20, 4), (0x12, 5), (0x25, 11), (0x26, 12), (0x16, 21),
     (0x2F, 22), (0x11, 23), (0x2D, 24), (0x15, 25), (0x2C, 26)] scancode"

text \<open>What a scan code does to the modifiers, and the byte it produces, if any.\<close>

definition keyboard_interrupt_handler :: "u8 \<Rightarrow> keyboard \<Rightarrow> keyboard" where
  "keyboard_interrupt_handler scancode k =
     (if scancode = 0xE0 then k\<lparr>escape_sequence := 1\<rparr>
      else if escape_sequence k = 1 then
        (let k1 = k\<lparr>escape_sequence := 0\<rparr>
         in if scancode AND 0x80 = 0
            then (case special_key scancode of Some key \<Rightarrow> push_to_buffer key k1 | None \<Rightarrow> k1) else k1)
      else if scancode AND 0x80 \<noteq> 0 then
        (let released = scancode AND 0x7F
         in if released = 0x2A \<or> released = 0x36 then k\<lparr>shift_pressed := False\<rparr>
            else if released = 0x1D then k\<lparr>ctrl_pressed := False\<rparr>
            else if released = 0x38 then k\<lparr>alt_pressed := False\<rparr> else k)
      else if scancode = 0x2A \<or> scancode = 0x36 then k\<lparr>shift_pressed := True\<rparr>
      else if scancode = 0x1D then k\<lparr>ctrl_pressed := True\<rparr>
      else if scancode = 0x38 then k\<lparr>alt_pressed := True\<rparr>
      else if ctrl_pressed k then (case ctrl_key scancode of Some key \<Rightarrow> push_to_buffer key k | None \<Rightarrow> k)
      else (let ascii = (if shift_pressed k then SCANCODE_TO_ASCII_SHIFT else SCANCODE_TO_ASCII) ! unat scancode
            in if ascii \<noteq> 0 then push_to_buffer ascii k else k))"

definition getchar :: "keyboard \<Rightarrow> u8 option \<times> keyboard" where
  "getchar k = (if kb_read_pos k = kb_write_pos k then (None, k)
     else (Some (kb_buffer k ! kb_read_pos k), k\<lparr>kb_read_pos := (kb_read_pos k + 1) mod KB_BUFFER_SIZE\<rparr>))"

subsection \<open>The ring is a bounded queue\<close>

definition ring_wf :: "keyboard \<Rightarrow> bool" where
  "ring_wf k \<longleftrightarrow> length (kb_buffer k) = 256 \<and> kb_write_pos k < 256 \<and> kb_read_pos k < 256"

definition kb_fill :: "keyboard \<Rightarrow> nat" where
  "kb_fill k = (if kb_read_pos k \<le> kb_write_pos k then 0 else 256) + kb_write_pos k - kb_read_pos k"

lemma mod_256: "x < 512 \<Longrightarrow> x mod 256 = (if x < 256 then x else x - 256 :: nat)"
  by (simp add: le_mod_geq)

definition kb_queued :: "keyboard \<Rightarrow> u8 list" where
  "kb_queued k = map (\<lambda>i. kb_buffer k ! ((kb_read_pos k + i) mod 256)) [0..<kb_fill k]"

lemma length_kb_queued [simp]: "length (kb_queued k) = kb_fill k"
  by (simp add: kb_queued_def)

lemma kb_fill_less: "ring_wf k \<Longrightarrow> kb_fill k < 256"
  by (auto simp: kb_fill_def ring_wf_def)

lemma kb_fill_0: "ring_wf k \<Longrightarrow> kb_fill k = 0 \<longleftrightarrow> kb_read_pos k = kb_write_pos k"
  by (auto simp: ring_wf_def kb_fill_def mod_256 split: if_splits)

lemma kb_full: "ring_wf k \<Longrightarrow> (kb_write_pos k + 1) mod 256 = kb_read_pos k \<longleftrightarrow> kb_fill k = 255"
  by (auto simp: ring_wf_def kb_fill_def mod_256 split: if_splits)

lemma write_slot: "ring_wf k \<Longrightarrow> (kb_read_pos k + kb_fill k) mod 256 = kb_write_pos k"
  by (auto simp: ring_wf_def kb_fill_def mod_256 split: if_splits)

lemma slots_distinct: "i < kb_fill k \<Longrightarrow> ring_wf k \<Longrightarrow> (kb_read_pos k + i) mod 256 \<noteq> kb_write_pos k"
  by (auto simp: ring_wf_def kb_fill_def mod_256 split: if_splits)

text \<open>Writing the slot at the write position changes nothing; publishing it appends it.\<close>

lemma queued_store: "ring_wf k \<Longrightarrow> kb_queued (k\<lparr>kb_buffer := (kb_buffer k)[kb_write_pos k := b]\<rparr>) = kb_queued k"
  using slots_distinct [of _ k, THEN not_sym] by (auto simp: kb_queued_def kb_fill_def)

lemma queued_publish:
  assumes "ring_wf k" and "kb_fill k < 255" and "kb_buffer k ! kb_write_pos k = b"
  shows "kb_queued (k\<lparr>kb_write_pos := Suc (kb_write_pos k) mod 256\<rparr>) = kb_queued k @ [b]"
    "kb_fill (k\<lparr>kb_write_pos := Suc (kb_write_pos k) mod 256\<rparr>) = Suc (kb_fill k)"
proof -
  let ?k = "k\<lparr>kb_write_pos := Suc (kb_write_pos k) mod 256\<rparr>"
  show f: "kb_fill ?k = Suc (kb_fill k)" using assms(1,2) by (auto simp: ring_wf_def kb_fill_def mod_256 split: if_splits)
  have "kb_queued ?k = map (\<lambda>i. kb_buffer k ! ((kb_read_pos k + i) mod 256)) [0..<kb_fill ?k]" by (simp add: kb_queued_def)
  also have "\<dots> = kb_queued k @ [b]" using assms(3) write_slot [OF assms(1)] by (simp add: f kb_queued_def)
  finally show "kb_queued ?k = kb_queued k @ [b]" .
qed

lemma queued_consume:
  assumes "ring_wf k" and "kb_fill k \<noteq> 0"
  shows "kb_queued k = kb_buffer k ! kb_read_pos k # kb_queued (k\<lparr>kb_read_pos := Suc (kb_read_pos k) mod 256\<rparr>)"
proof -
  let ?k = "k\<lparr>kb_read_pos := Suc (kb_read_pos k) mod 256\<rparr>"
  have f: "kb_fill k = Suc (kb_fill ?k)" using assms by (auto simp: ring_wf_def kb_fill_def mod_256 split: if_splits)
  have "kb_queued ?k = map (\<lambda>i. kb_buffer k ! ((kb_read_pos k + Suc i) mod 256)) [0..<kb_fill ?k]"
    by (simp add: kb_queued_def mod_simps)
  with assms(1) show ?thesis by (simp add: kb_queued_def f map_upt_Suc ring_wf_def del: upt_Suc)
qed

lemma ring_wf_simps [simp]:
  "ring_wf (k\<lparr>escape_sequence := e\<rparr>) = ring_wf k" "ring_wf (k\<lparr>shift_pressed := b\<rparr>) = ring_wf k"
  "ring_wf (k\<lparr>ctrl_pressed := b\<rparr>) = ring_wf k" "ring_wf (k\<lparr>alt_pressed := b\<rparr>) = ring_wf k"
  by (simp_all add: ring_wf_def)

lemma kb_queued_simps [simp]:
  "kb_queued (k\<lparr>escape_sequence := e\<rparr>) = kb_queued k" "kb_queued (k\<lparr>shift_pressed := b\<rparr>) = kb_queued k"
  "kb_queued (k\<lparr>ctrl_pressed := b\<rparr>) = kb_queued k" "kb_queued (k\<lparr>alt_pressed := b\<rparr>) = kb_queued k"
  by (simp_all add: kb_queued_def kb_fill_def)

lemma push_to_buffer_queued:
  assumes "ring_wf k"
  shows "ring_wf (push_to_buffer b k)"
    "kb_queued (push_to_buffer b k) = (if length (kb_queued k) < 255 then kb_queued k @ [b] else kb_queued k)"
proof -
  let ?k = "k\<lparr>kb_buffer := (kb_buffer k)[kb_write_pos k := b]\<rparr>"
  have wf: "ring_wf ?k" "kb_fill ?k = kb_fill k" using assms by (simp_all add: ring_wf_def kb_fill_def)
  show "ring_wf (push_to_buffer b k)"
    using assms by (simp add: push_to_buffer_def Let_def ring_wf_def KB_BUFFER_SIZE_def)
  show "kb_queued (push_to_buffer b k) = (if length (kb_queued k) < 255 then kb_queued k @ [b] else kb_queued k)"
  proof (cases "kb_fill k = 255")
    case True
    with kb_full [OF assms] show ?thesis by (simp add: push_to_buffer_def Let_def KB_BUFFER_SIZE_def)
  next
    case False
    with kb_fill_less [OF assms] have l: "kb_fill k < 255" by simp
    have "kb_buffer ?k ! kb_write_pos ?k = b" using assms by (simp add: ring_wf_def)
    with queued_publish(1) [OF wf(1)] wf(2) l queued_store [OF assms] kb_full [OF assms] False
    show ?thesis by (simp add: push_to_buffer_def Let_def KB_BUFFER_SIZE_def)
  qed
qed

lemma getchar_queued:
  assumes "ring_wf k" and "getchar k = (c, k')"
  shows "ring_wf k'" "kb_queued k = (case c of None \<Rightarrow> [] | Some b \<Rightarrow> b # kb_queued k')" "c = None \<Longrightarrow> k' = k"
proof -
  show "ring_wf k'" "c = None \<Longrightarrow> k' = k"
    using assms by (auto simp: getchar_def ring_wf_def KB_BUFFER_SIZE_def split: if_splits)
  show "kb_queued k = (case c of None \<Rightarrow> [] | Some b \<Rightarrow> b # kb_queued k')"
    using assms queued_consume [OF assms(1)] kb_fill_0 [OF assms(1)]
    by (auto simp: getchar_def KB_BUFFER_SIZE_def kb_queued_def split: if_splits)
qed

subsection \<open>Typing and reading text\<close>

text \<open>
  The keys of a US keyboard: the scan codes of set 1 number the keys of a row consecutively, and a key has one
  character without and one with shift. Typing a character is pressing and releasing its key, with the left shift key
  held where the character needs it. The layout is that of the hardware and does not mention the tables of the handler.
\<close>

definition us_rows :: "(nat \<times> string \<times> string) list" where
  "us_rows =
     [(0x02, ''1234567890-='', ''!@#$%^&*()_+''),
      (0x0E, [CHR 0x08, CHR 0x09], []),
      (0x10, ''qwertyuiop[]'', ''QWERTYUIOP{}''),
      (0x1C, [CHR 0x0A], []),
      (0x1E, ''asdfghjkl;'' @ [CHR 0x27, CHR 0x60], ''ASDFGHJKL:'' @ [CHR 0x22, CHR 0x7E]),
      (0x2B, [CHR 0x5C] @ ''zxcvbnm,./'', [CHR 0x7C] @ ''ZXCVBNM<>?''),
      (0x39, '' '', [])]"

definition us_layout :: "(u8 \<times> bool \<times> nat) list" where
  "us_layout = concat (map (\<lambda>(sc, plain, shifted).
     zip (bytes plain) (map (Pair False) [sc..<sc + length plain]) @
     zip (bytes shifted) (map (Pair True) [sc..<sc + length shifted])) us_rows)"

definition keystroke :: "u8 \<Rightarrow> u8 list" where
  "keystroke b = (case map_of us_layout b of
     Some (shift, sc) \<Rightarrow> if shift then [0x2A, of_nat sc, of_nat sc OR 0x80, 0xAA] else [of_nat sc, of_nat sc OR 0x80]
   | None \<Rightarrow> [])"

definition idle :: "keyboard \<Rightarrow> bool" where
  "idle k \<longleftrightarrow> escape_sequence k = 0 \<and> \<not> shift_pressed k \<and> \<not> ctrl_pressed k"

text \<open>The printable ASCII characters, backspace, tab and newline.\<close>

definition typable :: "u8 \<Rightarrow> bool" where
  "typable b \<longleftrightarrow> 0x20 \<le> b \<and> b \<le> 0x7E \<or> 0x08 \<le> b \<and> b \<le> 0x0A"

primrec getchars :: "nat \<Rightarrow> keyboard \<Rightarrow> u8 option list \<times> keyboard" where
  "getchars 0 k = ([], k)"
| "getchars (Suc n) k = (case getchar k of (c, k1) \<Rightarrow> case getchars n k1 of (cs, k2) \<Rightarrow> (c # cs, k2))"

lemma keys_checked:
  "list_all (\<lambda>(i, a, b). a = 0 \<and> b = 0 \<or> i < 96 \<and> i \<notin> {0x2A, 0x36, 0x1D, 0x38})
     (zip [0..<128] (zip SCANCODE_TO_ASCII SCANCODE_TO_ASCII_SHIFT))"
  "length SCANCODE_TO_ASCII = 128" "length SCANCODE_TO_ASCII_SHIFT = 128"
  by code_simp+

lemma codes_checked:
  "list_all (\<lambda>i. let sc = of_nat i :: u8 in sc \<noteq> 0xE0 \<and> sc AND 0x80 = 0 \<and> (sc OR 0x80) AND 0x80 \<noteq> 0 \<and>
     (sc OR 0x80) AND 0x7F = sc \<and> sc OR 0x80 \<noteq> 0xE0 \<and> unat sc = i) [0..<96]"
  by code_simp

lemma layout_checked:
  "list_all (\<lambda>(b, shift, sc). sc < 128 \<and> (if shift then SCANCODE_TO_ASCII_SHIFT else SCANCODE_TO_ASCII) ! sc = b) us_layout"
  "list_all (\<lambda>n. map_of us_layout (of_nat n) \<noteq> None) ([0x08..<0x0B] @ [0x20..<0x7F])"
  by code_simp+

lemma key_press:
  assumes "escape_sequence k = 0" and "\<not> ctrl_pressed k" and "i < 128" and "b \<noteq> 0"
    and "(if shift_pressed k then SCANCODE_TO_ASCII_SHIFT else SCANCODE_TO_ASCII) ! i = b"
  shows "keyboard_interrupt_handler (of_nat i) k = push_to_buffer b k"
    "keyboard_interrupt_handler (of_nat i OR 0x80) (push_to_buffer b k) = push_to_buffer b k"
proof -
  have i: "i < 96" "i \<notin> {0x2A, 0x36, 0x1D, 0x38}"
    using keys_checked(1) [unfolded list_all_length, rule_format, of i] assms(3-5)
    by (simp_all add: keys_checked(2,3) split: if_splits)
  let ?sc = "of_nat i :: u8"
  have sc: "?sc \<noteq> 0xE0" "?sc AND 0x80 = 0" "(?sc OR 0x80) AND 0x80 \<noteq> 0" "(?sc OR 0x80) AND 0x7F = ?sc"
    "?sc OR 0x80 \<noteq> 0xE0" "unat ?sc = i"
    using codes_checked i(1) unfolding list_all_iff Let_def by auto
  have ne: "?sc \<noteq> 0x2A" "?sc \<noteq> 0x36" "?sc \<noteq> 0x1D" "?sc \<noteq> 0x38" using sc(6) i(2) by auto
  show "keyboard_interrupt_handler ?sc k = push_to_buffer b k"
    using sc ne assms by (simp add: keyboard_interrupt_handler_def Let_def)
  have "escape_sequence (push_to_buffer b k) = 0" using assms(1) by (simp add: push_to_buffer_def Let_def)
  then show "keyboard_interrupt_handler (?sc OR 0x80) (push_to_buffer b k) = push_to_buffer b k"
    using sc ne unfolding keyboard_interrupt_handler_def Let_def by simp
qed

lemma push_to_buffer_mods [simp]:
  "escape_sequence (push_to_buffer b k) = escape_sequence k" "shift_pressed (push_to_buffer b k) = shift_pressed k"
  "ctrl_pressed (push_to_buffer b k) = ctrl_pressed k"
  "(push_to_buffer b k)\<lparr>shift_pressed := s\<rparr> = push_to_buffer b (k\<lparr>shift_pressed := s\<rparr>)"
  by (simp_all add: push_to_buffer_def Let_def)

lemma typable_key:
  assumes "typable b"
  obtains shift i where "map_of us_layout b = Some (shift, i)" "i < 128"
    "(if shift then SCANCODE_TO_ASCII_SHIFT else SCANCODE_TO_ASCII) ! i = b"
proof -
  have "unat b \<in> {0x08..<0x0B} \<union> {0x20..<0x7F}" using assms by (auto simp: typable_def word_le_nat_alt)
  with layout_checked(2) have "map_of us_layout (of_nat (unat b)) \<noteq> None"
    unfolding list_all_iff set_append set_upt by blast
  then obtain shift i where m: "map_of us_layout b = Some (shift, i)" by auto
  from map_of_SomeD [OF m] layout_checked(1) m show thesis unfolding list_all_iff by (intro that) auto
qed

lemma keystroke_pushes:
  assumes "idle k" and "typable b"
  shows "fold keyboard_interrupt_handler (keystroke b) k = push_to_buffer b k"
proof -
  have b: "b \<noteq> 0" using assms(2) by (auto simp: typable_def)
  obtain shift i where m: "map_of us_layout b = Some (shift, i)" and i: "i < 128"
    "(if shift then SCANCODE_TO_ASCII_SHIFT else SCANCODE_TO_ASCII) ! i = b" using typable_key [OF assms(2)] by metis
  show ?thesis
  proof (cases shift)
    case False
    with key_press [of k i b] assms(1) b i m show ?thesis by (simp add: keystroke_def idle_def)
  next
    case True
    let ?k = "k\<lparr>shift_pressed := True\<rparr>"
    have "keyboard_interrupt_handler 0x2A k = ?k" using assms(1) by (simp add: keyboard_interrupt_handler_def idle_def)
    moreover have "push_to_buffer b (k\<lparr>shift_pressed := False\<rparr>) = push_to_buffer b k"
      using assms(1) by (cases k) (simp add: idle_def)
    then have "keyboard_interrupt_handler 0xAA (push_to_buffer b ?k) = push_to_buffer b k"
      using assms(1) by (simp add: keyboard_interrupt_handler_def idle_def)
    ultimately show ?thesis using True key_press [of ?k i b] i m assms(1) b by (simp add: keystroke_def idle_def)
  qed
qed

lemma push_all_queued:
  "ring_wf k \<Longrightarrow> length (kb_queued k) + length bs \<le> 255 \<Longrightarrow>
     ring_wf (fold push_to_buffer bs k) \<and> kb_queued (fold push_to_buffer bs k) = kb_queued k @ bs"
  by (induction bs arbitrary: k) (simp_all add: push_to_buffer_queued del: length_kb_queued)

lemma getchars_queued:
  "ring_wf k \<Longrightarrow> getchars n k = (cs, k') \<Longrightarrow>
     cs = map Some (take n (kb_queued k)) @ replicate (n - length (kb_queued k)) None \<and> kb_queued k' = drop n (kb_queued k)"
proof (induction n arbitrary: k cs)
  case (Suc n)
  obtain c k1 where g: "getchar k = (c, k1)" by fastforce
  obtain ds where d: "getchars n k1 = (ds, k')" "cs = c # ds" using Suc.prems(2) g by (auto split: prod.splits)
  note q = getchar_queued [OF Suc.prems(1) g]
  from Suc.IH [OF q(1) d(1)] q(2,3) d(2) show ?case
    by (cases c) (auto simp del: length_kb_queued)
qed (simp add: getchars_def)

lemma typed_pushes:
  "idle k \<Longrightarrow> \<forall>b\<in>set bs. typable b \<Longrightarrow>
     fold keyboard_interrupt_handler (concat (map keystroke bs)) k = fold push_to_buffer bs k \<and> idle (fold push_to_buffer bs k)"
  by (induction bs arbitrary: k) (simp_all add: keystroke_pushes idle_def)

text \<open>C38: What is typed is what is read. The scan codes of pressing and releasing the keys of a US keyboard for any
  text of printable ASCII characters, tabs, newlines and backspaces, with shift where it is needed, make the keyboard handler queue exactly that text, as long as it fits the 255 bytes of
  the ring, and leave no modifier behind; the reader then returns the text in order, after what was queued before, and
  nothing more.\<close>

theorem typed_text_read_back:
  assumes "ring_wf k" and "idle k" and "\<forall>b\<in>set text. typable b" and "length (kb_queued k) + length text \<le> 255"
  shows "let k' = fold keyboard_interrupt_handler (concat (map keystroke text)) k
    in idle k' \<and> fst (getchars (length (kb_queued k) + length text + n) k') = map Some (kb_queued k @ text) @ replicate n None"
proof -
  let ?k' = "fold push_to_buffer text k"
  have k': "ring_wf ?k'" "kb_queued ?k' = kb_queued k @ text" using push_all_queued [OF assms(1,4)] by simp_all
  obtain cs k2 where "getchars (length (kb_queued k) + length text + n) ?k' = (cs, k2)" by fastforce
  with getchars_queued [OF k'(1) this] k'(2) typed_pushes [OF assms(2,3)] show ?thesis
    by (simp add: Let_def del: length_kb_queued)
qed

theorem typed_text_read_back_witness:
  "fst (getchars 7 (fold keyboard_interrupt_handler (concat (map keystroke (bytes ''ls -A!''))) new_keyboard)) =
     map Some (bytes ''ls -A!'') @ [None]"
proof -
  have k: "ring_wf new_keyboard" "idle new_keyboard" "kb_queued new_keyboard = []"
    by (simp_all add: ring_wf_def idle_def kb_queued_def kb_fill_def new_keyboard_def KB_BUFFER_SIZE_def)
  have "\<forall>b\<in>set (bytes ''ls -A!''). typable b" by (simp add: typable_def)
  from typed_text_read_back [OF k(1,2) this, of 1] k(3) show ?thesis
    by (simp add: Let_def eval_nat_numeral del: getchars.simps)
qed

subsection \<open>The ring under interleaving\<close>

text \<open>\<^verbatim>\<open>push_to_buffer\<close> and \<^verbatim>\<open>getchar\<close> as the sequences of their accesses to the ring. The handler loads the write
  position, loads the read position, stores the byte and publishes the write position; the reader loads the read
  position, loads the write position, loads the byte and publishes the read position. The argument of a step is the
  byte that the next interrupt pushes. The log records each byte as the handler gets it, as it is published or
  dropped, and as the reader receives it.\<close>

datatype ring_pc =
    P_idle | P_loaded nat u8 | P_store nat u8 | P_publish nat u8
  | C_idle | C_loaded nat | C_fetch nat | C_publish nat u8

datatype ring_event = Arrived u8 | Pushed u8 | Dropped u8 | Popped u8 | Found_empty

fun ring_act :: "u8 \<Rightarrow> keyboard \<Rightarrow> ring_pc \<Rightarrow> keyboard \<times> ring_pc \<times> ring_event option" where
  "ring_act byte k P_idle = (k, P_loaded (kb_write_pos k) byte, Some (Arrived byte))"
| "ring_act byte k (P_loaded write b) =
     (if (write + 1) mod KB_BUFFER_SIZE \<noteq> kb_read_pos k then (k, P_store write b, None) else (k, P_idle, Some (Dropped b)))"
| "ring_act byte k (P_store write b) = (k\<lparr>kb_buffer := (kb_buffer k)[write := b]\<rparr>, P_publish write b, None)"
| "ring_act byte k (P_publish write b) =
     (k\<lparr>kb_write_pos := (write + 1) mod KB_BUFFER_SIZE\<rparr>, P_idle, Some (Pushed b))"
| "ring_act byte k C_idle = (k, C_loaded (kb_read_pos k), None)"
| "ring_act byte k (C_loaded read) =
     (if read = kb_write_pos k then (k, C_idle, Some Found_empty) else (k, C_fetch read, None))"
| "ring_act byte k (C_fetch read) = (k, C_publish read (kb_buffer k ! read), None)"
| "ring_act byte k (C_publish read c) = (k\<lparr>kb_read_pos := (read + 1) mod KB_BUFFER_SIZE\<rparr>, C_idle, Some (Popped c))"

definition pushed_bytes :: "(nat \<times> ring_event) list \<Rightarrow> u8 list" where
  "pushed_bytes log = List.map_filter (\<lambda>(t, e). case e of Pushed b \<Rightarrow> Some b | _ \<Rightarrow> None) log"

definition popped_bytes :: "(nat \<times> ring_event) list \<Rightarrow> u8 list" where
  "popped_bytes log = List.map_filter (\<lambda>(t, e). case e of Popped b \<Rightarrow> Some b | _ \<Rightarrow> None) log"

definition arrived_bytes :: "(nat \<times> ring_event) list \<Rightarrow> u8 list" where
  "arrived_bytes log = List.map_filter (\<lambda>(t, e). case e of Arrived b \<Rightarrow> Some b | _ \<Rightarrow> None) log"

definition handled_bytes :: "(nat \<times> ring_event) list \<Rightarrow> u8 list" where
  "handled_bytes log = List.map_filter (\<lambda>(t, e). case e of Pushed b \<Rightarrow> Some b | Dropped b \<Rightarrow> Some b | _ \<Rightarrow> None) log"

definition in_flight :: "ring_pc \<Rightarrow> u8 list" where
  "in_flight p = (case p of P_loaded w b \<Rightarrow> [b] | P_store w b \<Rightarrow> [b] | P_publish w b \<Rightarrow> [b] | _ \<Rightarrow> [])"

text \<open>A byte is dropped only when 255 published bytes are waiting.\<close>

definition drops_full :: "(nat \<times> ring_event) list \<Rightarrow> bool" where
  "drops_full log \<longleftrightarrow> list_all (\<lambda>i. case log ! i of
     (t, Dropped b) \<Rightarrow> length (pushed_bytes (take i log)) = length (popped_bytes (take i log)) + 255 | _ \<Rightarrow> True) [0..<length log]"

definition producer_ok :: "keyboard \<Rightarrow> ring_pc \<Rightarrow> bool" where
  "producer_ok k p \<longleftrightarrow> (case p of P_idle \<Rightarrow> True | P_loaded w b \<Rightarrow> w = kb_write_pos k
     | P_store w b \<Rightarrow> w = kb_write_pos k \<and> kb_fill k < 255 | P_publish w b \<Rightarrow> w = kb_write_pos k \<and> kb_fill k < 255 \<and> kb_buffer k ! w = b | _ \<Rightarrow> False)"

definition consumer_ok :: "keyboard \<Rightarrow> ring_pc \<Rightarrow> bool" where
  "consumer_ok k c \<longleftrightarrow> (case c of C_idle \<Rightarrow> True | C_loaded r \<Rightarrow> r = kb_read_pos k
     | C_fetch r \<Rightarrow> r = kb_read_pos k \<and> kb_fill k \<noteq> 0
     | C_publish r x \<Rightarrow> r = kb_read_pos k \<and> kb_fill k \<noteq> 0 \<and> x = kb_buffer k ! r | _ \<Rightarrow> False)"

definition ring_log :: "keyboard \<Rightarrow> ring_pc \<Rightarrow> (nat \<times> ring_event) list \<Rightarrow> bool" where
  "ring_log k p log \<longleftrightarrow> pushed_bytes log = popped_bytes log @ kb_queued k \<and> arrived_bytes log = handled_bytes log @ in_flight p \<and>
     drops_full log"

definition ring_inv :: "keyboard \<Rightarrow> ring_pc list \<Rightarrow> (nat \<times> ring_event) list \<Rightarrow> bool" where
  "ring_inv k pcs log \<longleftrightarrow> ring_wf k \<and> length pcs = 2 \<and> producer_ok k (pcs ! 0) \<and> consumer_ok k (pcs ! 1) \<and>
     ring_log k (pcs ! 0) log"

lemma byte_logs [simp]:
  "pushed_bytes [] = []" "popped_bytes [] = []" "arrived_bytes [] = []" "handled_bytes [] = []" "drops_full []"
  "pushed_bytes (log @ [(t, e)]) = pushed_bytes log @ (case e of Pushed b \<Rightarrow> [b] | _ \<Rightarrow> [])"
  "popped_bytes (log @ [(t, e)]) = popped_bytes log @ (case e of Popped b \<Rightarrow> [b] | _ \<Rightarrow> [])"
  "arrived_bytes (log @ [(t, e)]) = arrived_bytes log @ (case e of Arrived b \<Rightarrow> [b] | _ \<Rightarrow> [])"
  "handled_bytes (log @ [(t, e)]) = handled_bytes log @ (case e of Pushed b \<Rightarrow> [b] | Dropped b \<Rightarrow> [b] | _ \<Rightarrow> [])"
  by (simp_all add: pushed_bytes_def popped_bytes_def arrived_bytes_def handled_bytes_def drops_full_def map_filter_def
      split: ring_event.splits)

lemma drops_full_snoc [simp]:
  "drops_full (log @ [(t, e)]) \<longleftrightarrow> drops_full log \<and>
     (case e of Dropped b \<Rightarrow> length (pushed_bytes log) = length (popped_bytes log) + 255 | _ \<Rightarrow> True)"
  by (auto simp: drops_full_def list_all_iff nth_append)

lemma kb_fill_consume: "ring_wf k \<Longrightarrow> kb_fill k \<noteq> 0 \<Longrightarrow> kb_fill k = Suc (kb_fill (k\<lparr>kb_read_pos := Suc (kb_read_pos k) mod 256\<rparr>))"
  by (auto simp: ring_wf_def kb_fill_def mod_256 split: if_splits)

lemma producer_step:
  assumes "ring_wf k" "producer_ok k p" "consumer_ok k c" "ring_log k p log"
    and "ring_act x k p = (k', p', e)"
  shows "ring_wf k' \<and> producer_ok k' p' \<and> consumer_ok k' c \<and>
    ring_log k' p' (log @ (case e of None \<Rightarrow> [] | Some e \<Rightarrow> [(t, e)]))"
proof (cases p)
  case (P_loaded w b)
  with assms kb_full [OF assms(1)] kb_fill_less [OF assms(1)] show ?thesis
    by (auto simp: ring_log_def in_flight_def producer_ok_def KB_BUFFER_SIZE_def split: if_splits)
next
  case (P_store w b)
  let ?k = "k\<lparr>kb_buffer := (kb_buffer k)[kb_write_pos k := b]\<rparr>"
  have "kb_fill ?k = kb_fill k" "ring_wf ?k" "kb_buffer ?k ! kb_write_pos k = b" using assms(1) by (simp_all add: kb_fill_def ring_wf_def)
  moreover have "consumer_ok ?k c"
    using assms(3) kb_fill_0 [OF assms(1)] by (auto simp: ring_log_def consumer_ok_def kb_fill_def split: ring_pc.splits)
  ultimately show ?thesis using assms P_store queued_store [OF assms(1)]
    by (auto simp: ring_log_def in_flight_def producer_ok_def)
next
  case (P_publish w b)
  let ?k = "k\<lparr>kb_write_pos := Suc (kb_write_pos k) mod 256\<rparr>"
  have "consumer_ok ?k c" if "kb_fill k < 255"
    using assms(3) queued_publish(2) [OF assms(1) that refl] by (auto simp: ring_log_def consumer_ok_def split: ring_pc.splits)
  then show ?thesis using assms P_publish queued_publish(1) [OF assms(1) _ refl]
    by (auto simp: ring_log_def in_flight_def producer_ok_def ring_wf_def KB_BUFFER_SIZE_def)
qed (use assms in \<open>auto simp: ring_log_def in_flight_def producer_ok_def\<close>)

lemma consumer_step:
  assumes "ring_wf k" "producer_ok k p" "consumer_ok k c" "ring_log k p log"
    and "ring_act x k c = (k', c', e)"
  shows "ring_wf k' \<and> producer_ok k' p \<and> consumer_ok k' c' \<and>
    ring_log k' p (log @ (case e of None \<Rightarrow> [] | Some e \<Rightarrow> [(t, e)]))"
proof (cases c)
  case (C_loaded r)
  with assms kb_fill_0 [OF assms(1)] show ?thesis by (auto simp: ring_log_def consumer_ok_def split: if_splits)
next
  case (C_publish r b)
  let ?k = "k\<lparr>kb_read_pos := Suc (kb_read_pos k) mod 256\<rparr>"
  have "producer_ok ?k p" if "kb_fill k \<noteq> 0"
    using assms(2) kb_fill_consume [OF assms(1) that] by (auto simp: ring_log_def in_flight_def producer_ok_def split: ring_pc.splits)
  then show ?thesis using assms C_publish queued_consume [OF assms(1)]
    by (auto simp: ring_log_def consumer_ok_def ring_wf_def KB_BUFFER_SIZE_def)
qed (use assms in \<open>auto simp: ring_log_def consumer_ok_def\<close>)

interpretation ring: shared_object ring_act ring_inv
proof
  fix k pcs log t x k' p' e
  assume inv: "ring_inv k pcs log" and t: "t < length pcs" and act: "ring_act x k (pcs ! t) = (k', p', e)"
  from inv t have "t < 2" by (simp add: ring_inv_def)
  then consider "t = 0" | "t = 1" by linarith
  then show "ring_inv k' (pcs[t := p']) (log @ (case e of None \<Rightarrow> [] | Some e \<Rightarrow> [(t, e)]))"
  proof cases
    case 1
    with producer_step [of k "pcs ! 0" "pcs ! 1" log x k' p' e t] inv act show ?thesis
      by (simp add: ring_inv_def Let_def)
  next
    case 2
    with consumer_step [of k "pcs ! 0" "pcs ! 1" log x k' p' e t] inv act show ?thesis
      by (simp add: ring_inv_def Let_def)
  qed
qed

text \<open>C39: The keyboard ring needs no lock between one interrupt handler and one reader. However their accesses
  interleave, the bytes that the interrupts pass to the handler are, in order, those it has published or dropped and then
  the one it is working on; a byte is dropped only when 255 bytes are waiting; and the bytes the reader has received
  are, in order, an initial part of the published bytes, with the rest still queued: no byte is lost, changed,
  repeated or reordered once it is in the ring.\<close>

theorem keyboard_ring_spsc:
  assumes "run_threads ring_act sched (new_keyboard, [P_idle, C_idle], []) = (k, pcs, log)"
  shows "arrived_bytes log = handled_bytes log @ in_flight (pcs ! 0) \<and> drops_full log \<and>
    pushed_bytes log = popped_bytes log @ kb_queued k"
proof -
  have "ring_inv new_keyboard [P_idle, C_idle] []"
    by (simp add: ring_inv_def ring_log_def ring_wf_def producer_ok_def consumer_ok_def in_flight_def kb_queued_def
        kb_fill_def new_keyboard_def KB_BUFFER_SIZE_def)
  from ring.run_inv [OF this assms] show ?thesis by (simp add: ring_inv_def ring_log_def)
qed

theorem keyboard_ring_spsc_witness:
  "case run_threads ring_act [(0, 65), (1, 0), (0, 65), (0, 65), (0, 65), (1, 0), (0, 66), (1, 0), (1, 0), (1, 0), (1, 0), (1, 0), (1, 0)]
       (new_keyboard, [P_idle, C_idle], []) of
     (k, pcs, log) \<Rightarrow> pushed_bytes log = popped_bytes log @ kb_queued k \<and> popped_bytes log = [65]"
proof -
  let ?r = "run_threads ring_act [(0, 65), (1, 0), (0, 65), (0, 65), (0, 65), (1, 0), (0, 66), (1, 0), (1, 0), (1, 0), (1, 0),
       (1, 0), (1, 0)] (new_keyboard, [P_idle, C_idle], [])"
  obtain k pcs log where r: "?r = (k, pcs, log)" by (rule prod_cases3)
  have "case ?r of (k, pcs, log) \<Rightarrow> popped_bytes log = [65]"
    by (simp add: run_threads_def turn_def new_keyboard_def KB_BUFFER_SIZE_def popped_bytes_def map_filter_def)
  with keyboard_ring_spsc [OF r] r show ?thesis by simp
qed

text \<open>With two readers the ring delivers a byte twice: both load the read position before either publishes it.\<close>

lemma two_readers_duplicate:
  "(case run_threads ring_act ([(0, 65), (0, 65), (0, 65), (0, 65)] @ [(1, 0), (2, 0), (1, 0), (2, 0), (1, 0), (2, 0), (1, 0), (2, 0)])
     (new_keyboard, [P_idle, C_idle, C_idle], []) of (k, pcs, log) \<Rightarrow> (pushed_bytes log, popped_bytes log)) = ([65], [65, 65])"
  by (simp add: run_threads_def turn_def new_keyboard_def KB_BUFFER_SIZE_def pushed_bytes_def popped_bytes_def
      map_filter_def numeral_2_eq_2 nth_list_update)

section \<open>Mouse\<close>

text \<open>Positions are \<^verbatim>\<open>i32\<close>: sums wrap around.\<close>

record mouse =
  mouse_x :: int
  mouse_y :: int
  mouse_buttons :: u8
  screen_width :: int
  screen_height :: int
  packet :: "u8 list"
  packet_index :: nat

text \<open>\<^verbatim>\<open>init\<close> with the dimensions of the framebuffer; the programming of the controller is left out.\<close>

definition mouse_init :: "u64 \<Rightarrow> u64 \<Rightarrow> mouse" where
  "mouse_init w h = \<lparr>mouse_x = i32 (uint w) sdiv 2, mouse_y = i32 (uint h) sdiv 2, mouse_buttons = 0,
     screen_width = i32 (uint w), screen_height = i32 (uint h), packet = [0, 0, 0], packet_index = 0\<rparr>"

definition mouse_packet :: "mouse \<Rightarrow> mouse" where
  "mouse_packet m =
     (let b0 = packet m ! 0; b1 = uint (packet m ! 1); b2 = uint (packet m ! 2);
          dx = (if b0 AND 0x10 \<noteq> 0 then b1 - 256 else b1);
          dy = (if b0 AND 0x20 \<noteq> 0 then 256 - b2 else - b2)
      in m\<lparr>mouse_x := min (max (i32 (mouse_x m + dx)) 0) (i32 (screen_width m - 1)),
           mouse_y := min (max (i32 (mouse_y m + dy)) 0) (i32 (screen_height m - 1)),
           mouse_buttons := b0 AND 0x07\<rparr>)"

definition handle_interrupt :: "u8 \<Rightarrow> mouse \<Rightarrow> mouse" where
  "handle_interrupt byte m =
     (let idx = packet_index m
      in if idx = 0 \<and> byte AND 0x08 = 0 then m
         else let m1 = m\<lparr>packet := (packet m)[idx := byte]\<rparr>
              in if idx = 2 then (mouse_packet m1)\<lparr>packet_index := 0\<rparr> else m1\<lparr>packet_index := idx + 1\<rparr>)"

definition mouse_wf :: "int \<Rightarrow> int \<Rightarrow> mouse \<Rightarrow> bool" where
  "mouse_wf w h m \<longleftrightarrow> screen_width m = w \<and> screen_height m = h \<and> 0 \<le> mouse_x m \<and> mouse_x m < w \<and> 0 \<le> mouse_y m \<and>
     mouse_y m < h \<and> length (packet m) = 3 \<and> packet_index m < 3 \<and> mouse_buttons m \<le> 7"

lemma mouse_packet_wf:
  assumes "mouse_wf w h m" and "w < 2 ^ 31" and "h < 2 ^ 31"
  shows "mouse_wf w h (mouse_packet m)"
proof -
  have wh: "0 < w" "0 < h" "screen_width m = w" "screen_height m = h" using assms(1) by (auto simp: mouse_wf_def)
  have i: "i32 (w - 1) = w - 1" "i32 (h - 1) = h - 1" using i32_small assms(2,3) wh by simp_all
  have c: "0 \<le> min (max v 0) (k - 1) \<and> min (max v 0) (k - 1) < k" if "0 < k" for v k :: int using that by simp
  have "x AND 7 \<le> (7 :: u8)" for x by (rule word_and_le1)
  with assms(1) c [OF wh(1)] c [OF wh(2)] show ?thesis by (simp add: mouse_wf_def mouse_packet_def Let_def i)
qed

lemma handle_interrupt_wf:
  assumes "mouse_wf w h m" and "w < 2 ^ 31" and "h < 2 ^ 31"
  shows "mouse_wf w h (handle_interrupt b m)"
proof -
  let ?m = "m\<lparr>packet := (packet m)[packet_index m := b]\<rparr>"
  have wf: "mouse_wf w h ?m" using assms(1) by (simp add: mouse_wf_def)
  have "mouse_wf w h ((mouse_packet ?m)\<lparr>packet_index := 0\<rparr>)"
    using mouse_packet_wf [OF wf assms(2,3)] by (simp add: mouse_wf_def)
  moreover have "mouse_wf w h (?m\<lparr>packet_index := Suc (packet_index m)\<rparr>)" if "packet_index m \<noteq> 2"
    using wf that by (auto simp: mouse_wf_def)
  ultimately show ?thesis using assms(1) by (cases "packet_index m = 2") (simp_all add: handle_interrupt_def Let_def)
qed

text \<open>A packet moves the pointer by its two signed nine-bit distances, the vertical one downwards, and stops at the
  edges of the screen.\<close>

definition nine_bit :: "bool \<Rightarrow> u8 \<Rightarrow> int" where
  "nine_bit sign b = uint b - (if sign then 256 else 0)"

lemma clamp_swap: "0 \<le> (k :: int) \<Longrightarrow> min (max v 0) k = max 0 (min k v)"
  by (simp add: min_def max_def)

lemma mouse_moves:
  assumes "mouse_wf w h m" and "w \<le> 2 ^ 30" and "h \<le> 2 ^ 30" and "packet_index m = 0" and "b0 AND 0x08 \<noteq> 0"
    and m'_def: "m' = fold handle_interrupt [b0, b1, b2] m"
  shows "mouse_x m' = max 0 (min (w - 1) (mouse_x m + nine_bit (b0 AND 0x10 \<noteq> 0) b1))"
    "mouse_y m' = max 0 (min (h - 1) (mouse_y m - nine_bit (b0 AND 0x20 \<noteq> 0) b2))"
    "mouse_buttons m' = b0 AND 7" "packet_index m' = 0"
proof -
  have "length (packet m) = 3" using assms(1) by (simp add: mouse_wf_def)
  then have p: "(packet m)[0 := b0, Suc 0 := b1, 2 := b2] = [b0, b1, b2]"
    by (cases "packet m"; cases "tl (packet m)"; cases "tl (tl (packet m))") auto
  have m': "m' = (mouse_packet (m\<lparr>packet_index := 2, packet := [b0, b1, b2]\<rparr>))\<lparr>packet_index := 0\<rparr>"
    using assms(4,5) p by (simp add: m'_def handle_interrupt_def numeral_2_eq_2)
  have fin: "0 < w" "0 < h" "screen_width m = w" "screen_height m = h" using assms(1) by (auto simp: mouse_wf_def)
  have i: "i32 (mouse_x m + d) = mouse_x m + d" "i32 (mouse_y m + d) = mouse_y m + d" "i32 (w - 1) = w - 1"
    "i32 (h - 1) = h - 1" if "\<bar>d\<bar> \<le> 256" for d
    using assms(1-3) that fin by (auto simp: mouse_wf_def intro!: i32_small)
  have d: "\<bar>nine_bit s b\<bar> \<le> 256" for s b using uint_lt2p [of b] by (auto simp: nine_bit_def)
  have "mouse_x m' = min (max (i32 (mouse_x m + nine_bit (b0 AND 0x10 \<noteq> 0) b1)) 0) (i32 (w - 1))"
    "mouse_y m' = min (max (i32 (mouse_y m + - nine_bit (b0 AND 0x20 \<noteq> 0) b2)) 0) (i32 (h - 1))"
    by (simp_all add: m' mouse_packet_def Let_def fin nine_bit_def)
  then show "mouse_x m' = max 0 (min (w - 1) (mouse_x m + nine_bit (b0 AND 0x10 \<noteq> 0) b1))"
    "mouse_y m' = max 0 (min (h - 1) (mouse_y m - nine_bit (b0 AND 0x20 \<noteq> 0) b2))"
    using i(1) [OF d, of "b0 AND 0x10 \<noteq> 0" b1] i(3,4) [of 0] i(2) [of "- nine_bit (b0 AND 0x20 \<noteq> 0) b2"] d [of "b0 AND 0x20 \<noteq> 0" b2] fin
    by (simp_all add: clamp_swap)
  show "mouse_buttons m' = b0 AND 7" "packet_index m' = 0" by (simp_all add: m' mouse_packet_def Let_def)
qed

text \<open>C40: Whatever bytes the mouse sends, the pointer stays on the screen, the packet buffer is never indexed out of
  bounds, and only the three button bits are reported. Whenever the next byte starts a packet, the packet moves the
  pointer by its signed distances up to the edges and the following byte starts a packet again.\<close>

theorem mouse_stays_on_screen:
  assumes "0 < w" and "w \<le> 2 ^ 30" and "0 < h" and "h \<le> 2 ^ 30" and "m = fold handle_interrupt bs (mouse_init w h)"
  shows "0 \<le> mouse_x m \<and> mouse_x m < uint w \<and> 0 \<le> mouse_y m \<and> mouse_y m < uint h \<and> packet_index m < length (packet m) \<and>
    mouse_buttons m \<le> 7 \<and> (packet_index m = 0 \<and> b0 AND 0x08 \<noteq> 0 \<longrightarrow>
      (let m' = fold handle_interrupt [b0, b1, b2] m in packet_index m' = 0 \<and>
         mouse_x m' = max 0 (min (uint w - 1) (mouse_x m + nine_bit (b0 AND 0x10 \<noteq> 0) b1)) \<and>
         mouse_y m' = max 0 (min (uint h - 1) (mouse_y m - nine_bit (b0 AND 0x20 \<noteq> 0) b2))))"
proof -
  have w: "0 < uint w" "uint w \<le> 2 ^ 30" "0 < uint h" "uint h \<le> 2 ^ 30"
    using assms(1-4) by (simp_all add: word_less_alt word_le_def)
  then have "mouse_wf (uint w) (uint h) (mouse_init w h)"
    by (auto simp: mouse_wf_def mouse_init_def i32_small signed_divide_int_def)
  then have "mouse_wf (uint w) (uint h) (fold handle_interrupt bs (mouse_init w h))"
    by (induction bs rule: rev_induct) (use w handle_interrupt_wf in auto)
  then have wf: "mouse_wf (uint w) (uint h) m" by (simp add: assms(5))
  with mouse_moves [OF wf w(2,4) _ _ refl, of b0 b1 b2] show ?thesis by (auto simp: mouse_wf_def Let_def)
qed

theorem mouse_stays_on_screen_witness:
  "mouse_x (fold handle_interrupt [0x08, 10, 5] (fold handle_interrupt [0x08, 250, 0] (mouse_init 800 600))) = 660"
  using mouse_stays_on_screen [of 800 600 "fold handle_interrupt [0x08, 250, 0] (mouse_init 800 600)" "[0x08, 250, 0]" "0x08" 10 5]
  by (simp add: Let_def nine_bit_def) (simp add: handle_interrupt_def mouse_packet_def mouse_init_def i32_def Let_def)

end
