(* ===== verification/Spec2Isabelle.thy ===== *)
theory Spec2Isabelle
  imports Heap Ipc Network Fs_Theorems Fs_Cache Sync Vfs Security Auth Entry Input
begin

text \<open>
  Verification of Astral OS, a kernel in Rust for x86\_64 (\<^verbatim>\<open>src/kernel/src\<close>; file names below are relative to it).

  \<^bold>\<open>The program.\<close> The kernel manages physical frames (\<^verbatim>\<open>memory/frame.rs\<close>), builds page tables from them
  (\<^verbatim>\<open>memory/paging.rs\<close>) and runs a heap on the mapped memory (\<^verbatim>\<open>memory/heap.rs\<close>). Processes live in a table
  (\<^verbatim>\<open>process/mod.rs\<close>), run from per-CPU queues (\<^verbatim>\<open>process/scheduler.rs\<close>), are switched by assembly
  (\<^verbatim>\<open>process/context.rs\<close>) and exchange messages over channels (\<^verbatim>\<open>ipc/mod.rs\<close>). Interrupts and system calls enter
  through assembly (\<^verbatim>\<open>interrupts/\<close>, \<^verbatim>\<open>arch/x86_64/\<close>); the keyboard and mouse handlers feed the readers. A network
  stack answers packets (\<^verbatim>\<open>network/\<close>), a virtual filesystem dispatches paths to mounted filesystems (\<^verbatim>\<open>fs/vfs.rs\<close>),
  PsychicFS keeps files on a disk (\<^verbatim>\<open>fs/psychicfs.rs\<close>), and capabilities and passwords guard the system
  (\<^verbatim>\<open>security/\<close>, \<^verbatim>\<open>auth/\<close>). \<^verbatim>\<open>sync/mod.rs\<close> has the locks.

  \<^bold>\<open>Conventions.\<close> A struct is a record, an enum a datatype, an integer a word of its width, with the wrap-around
  arithmetic of the release profile; indices and lengths that stay below a constant are natural numbers. A function
  that can fail returns \<^verbatim>\<open>'a res\<close> or an option, a panic being the left value; a method with \<^verbatim>\<open>&mut self\<close> returns the new
  state. Definitions have the names of the source, with a prefix where a name would clash. What the code gets from
  outside (the clock, the byte of a port, the executing CPU, the memory map, the methods of a mounted filesystem,
  a compiled handler called from assembly) is an argument. Messages on the serial line and the screen are left out.

  \<^bold>\<open>The theories.\<close>

  \<^item> \<^verbatim>\<open>Prelude\<close>, \<^verbatim>\<open>Util\<close>, \<^verbatim>\<open>Strings\<close>, \<^verbatim>\<open>Btree_Map\<close>: machine types, lemmas on lists, words and bitmaps; \<^verbatim>\<open>util.rs\<close>; the parts
    of Rust's \<^verbatim>\<open>str\<close> and \<^verbatim>\<open>BTreeMap\<close> that the kernel uses (interface \<open>ordered_dict\<close>).
  \<^item> \<^verbatim>\<open>Frame_Allocator\<close>: the bitmap of frames, its initialisation from the memory map, allocation and release. An
    allocation returns a free frame and marks exactly it, fails only when none is free, and over every history
    returns no frame that is held, unusable or in the first megabyte (interface \<open>frame_source\<close>).
  \<^item> \<^verbatim>\<open>Paging\<close>: the four-level tree over physical memory as pages of entries. Mapping changes the translation of exactly
    one page, refuses a mapped page and succeeds when three frames are free.
  \<^item> \<^verbatim>\<open>Heap\<close>: the first-fit free list in an explicit store of headers. Over every history the live blocks are aligned,
    inside the heap and disjoint, and every operation returns.
  \<^item> \<^verbatim>\<open>Process\<close>, \<^verbatim>\<open>Scheduler\<close>: the slot array refines a finite map with a counter (interface \<open>keyed_table\<close>); the bitmap of
    nonempty queues is exact, the bit search picks the head of the best class, scheduling loses and
    duplicates no runnable process, and load balancing terminates and conserves the queues. An exiting process is
    queued again, which is a defect of the code.
  \<^item> \<^verbatim>\<open>Ipc\<close>: channels as ring buffers (interface \<open>bounded_fifo\<close>) with wait queues. A blocking operation is a sequence of
    turns between which other processes run; messages arrive in order, none lost, over every interleaving. A
    send on a full channel spins.
  \<^item> \<^verbatim>\<open>Net_Packets\<close>, \<^verbatim>\<open>Network\<close>: parsers and serialisers with their round trips, the Internet checksum against its
    definition, the TCP states, the socket table and the stack. The stack panics on exactly the UDP datagrams with a
    length field below eight, and answers a ping exactly when it knows the sender.
  \<^item> \<^verbatim>\<open>Disk\<close>, \<^verbatim>\<open>Fs_Layout\<close>, \<^verbatim>\<open>Psychicfs\<close>, \<^verbatim>\<open>Fs_Files\<close>, \<^verbatim>\<open>Fs_Theorems\<close>, \<^verbatim>\<open>Fs_Cache\<close>: PsychicFS over a disk any of whose
    operations may fail. Creating, writing, reading and deleting files, block allocation under failures, extents as
    block lists, the write-back cache as a disk; and the defects that the code has: files written one after the
    other share their blocks, and the conversions of inodes and superblocks write past their local arrays.
  \<^item> \<^verbatim>\<open>Vfs\<close>: normal forms of paths, the mount table, resolution with its bounded cache, and the file operations. Resolution is
    longest-prefix matching unless a refused unmount has left the cache stale.
  \<^item> \<^verbatim>\<open>Security\<close>, \<^verbatim>\<open>Auth\<close>: capability sets, the decision on requests, trust scores and their bounds; the
    password hash, the user database and the login dialogue.
  \<^item> \<^verbatim>\<open>Interleaving\<close>, \<^verbatim>\<open>Sync\<close>: threads that interleave their atomic accesses (interface \<open>shared_object\<close>), and the
    primitives of \<^verbatim>\<open>sync/mod.rs\<close>: exclusion of the locks, rounds of the barrier, single execution of \<^verbatim>\<open>Once\<close>, conservation of the
    semaphore, and what \<^verbatim>\<open>Condvar\<close> does and does not do.
  \<^item> \<^verbatim>\<open>Machine\<close>, \<^verbatim>\<open>Entry\<close>: a processor for the assembly of the kernel, the descriptor tables, and every path in and out:
    interrupts are transparent, system calls return to their caller, a saved context resumes.
  \<^item> \<^verbatim>\<open>Input\<close>: the keyboard decoder and its ring, and the mouse. What is typed on a US keyboard is what is read; the ring needs
    no lock between one handler and one reader; the pointer stays on the screen.

  \<^bold>\<open>Termination and bounds.\<close> No definition uses fuel. The loops that follow pointers in the heap, the loop of the load
  balancer and the blocking channel operations are partial functions to option. The theorems show that the first two
  return under the invariant of their component, and that a send on a full channel does not return while no
  other process runs; every other loop is a recursion with a termination proof. The sizes are those of the
  code (table lengths, capacities, cache sizes) and are written as its constants.

  \<^bold>\<open>Hypotheses.\<close> Theorems on histories start from the initial states of the code and need no invariant; those on
  single operations assume the invariant that the component's lemmas preserve. What the kernel relies on from outside
  is explicit: \<open>sysv\<close>, the calling convention of compiled handlers; \<open>device_good\<close>, a disk without failures, where a
  theorem is about the good case; \<open>frame_ok\<close>, eight dead bytes behind the local arrays that PsychicFS overruns. Each theorem
  with hypotheses is followed by an instance on concrete data.

  \<^bold>\<open>Not modelled.\<close> Locks around global tables are left out where an operation takes and drops one lock: the operation is
  atomic. TLB flushes, control registers, and the loading of descriptor tables act on the processor only. Delays of
  stores between processors are not part of the interleavings. Left out as device access: APIC, PIC, serial line,
  clock, PCI and virtio queues, ACPI and power. Left out as drawing or dialogue: framebuffer, display, compositor, desktop,
  applications and shells. Left out because they only compose modelled parts or none depends on them: boot and
  start of the other CPUs, the ELF loader and program launcher, the bodies of the system calls, the slab and fractal
  allocators, the reality layer, and the user program.
\<close>

end
